(* ===== verification/Prelude.thy ===== *)
theory Prelude
  imports Main "HOL-Library.AList" "HOL-Library.Word"
begin

text \<open>
  Shared vocabulary of the development: Go maps as association lists whose order is the
  iteration order, slice-valued maps, the \<open>copy\<close> builtin, the \<open>select\<close> statement, machine
  integers, and the generic interfaces (transition systems with an invariant) that the component
  theories interpret.
\<close>

section \<open>Lemma collections\<close>

named_theorems slice_simps \<open>lookups in slice-valued maps after an update\<close>
named_theorems inv_intros \<open>introduction rules for component invariants\<close>

section \<open>Go maps\<close>

text \<open>
  A Go map is an association list with distinct keys. The list's order stands for the order in
  which \<open>range\<close> visits the entries, which Go leaves open; properties are stated so that they do
  not depend on it. A missing key of a slice-valued map reads as the nil slice, which is \<open>[]\<close>.
\<close>

type_synonym ('k, 'v) gomap = "('k \<times> 'v) list"

definition slice_at :: "('k, 'v list) gomap \<Rightarrow> 'k \<Rightarrow> 'v list" where
  "slice_at m k = (case map_of m k of None \<Rightarrow> [] | Some xs \<Rightarrow> xs)"

text \<open>\<open>m[k] = append(m[k], x)\<close>.\<close>

definition append_at :: "'k \<Rightarrow> 'v \<Rightarrow> ('k, 'v list) gomap \<Rightarrow> ('k, 'v list) gomap" where
  "append_at k x m = AList.update k (slice_at m k @ [x]) m"

text \<open>\<open>if len(xs) == 0 { delete(m, k) } else { m[k] = xs }\<close>.\<close>

definition store_slice :: "'k \<Rightarrow> 'v list \<Rightarrow> ('k, 'v list) gomap \<Rightarrow> ('k, 'v list) gomap" where
  "store_slice k xs m = (if xs = [] then AList.delete k m else AList.update k xs m)"

text \<open>All elements of a slice-valued map, in iteration order.\<close>

definition all_slices :: "('k, 'v list) gomap \<Rightarrow> 'v list" where
  "all_slices m = concat (map snd m)"

definition wf_gomap :: "('k, 'v) gomap \<Rightarrow> bool" where
  "wf_gomap m \<longleftrightarrow> distinct (map fst m)"

text \<open>No entry of the map holds an empty slice.\<close>

definition no_empty :: "('k, 'v list) gomap \<Rightarrow> bool" where
  "no_empty m \<longleftrightarrow> (\<forall>(k, xs) \<in> set m. xs \<noteq> [])"

section \<open>The copy builtin and the select statement\<close>

text \<open>\<open>copy(dst, src)\<close> overwrites a prefix of \<open>dst\<close> and copies \<open>min (len dst) (len src)\<close> elements.\<close>

definition go_copy :: "'a list \<Rightarrow> 'a list \<Rightarrow> 'a list" where
  "go_copy dst src = take (length dst) src @ drop (length src) dst"

text \<open>
  A \<open>select\<close> over several cases: each case is its readiness and its value. Go picks one of the
  ready cases; \<open>pick\<close> resolves the choice and every property is stated for all of its values.
  \<open>None\<close> means that no case is ready (the statement blocks, or takes its default branch).
\<close>

definition go_select :: "nat \<Rightarrow> (bool \<times> 'a) list \<Rightarrow> 'a option" where
  "go_select pick cs =
     (let ready = map snd (filter fst cs)
      in if ready = [] then None else Some (ready ! (pick mod length ready)))"

section \<open>Machine integers\<close>

text \<open>Go's \<open>int64\<close> arithmetic (the representation of \<open>time.Duration\<close>) wraps around.\<close>

definition wrap64 :: "int \<Rightarrow> int" where
  "wrap64 n = sint (word_of_int n :: 64 word)"

definition maxInt64 :: int where
  "maxInt64 = 9223372036854775807"

section \<open>Transition systems\<close>

text \<open>
  The interface every concurrent component is stated against: the initial states, one atomic
  step, and an invariant that holds initially and that every step keeps.
\<close>

locale transition_system =
  fixes init :: "'s \<Rightarrow> bool"
    and step :: "'s \<Rightarrow> 's \<Rightarrow> bool"
    and inv :: "'s \<Rightarrow> bool"
  assumes inv_init: "init s \<Longrightarrow> inv s"
    and inv_step: "inv s \<Longrightarrow> step s t \<Longrightarrow> inv t"
begin

lemma inv_steps: "step\<^sup>*\<^sup>* s t \<Longrightarrow> inv s \<Longrightarrow> inv t"
  by (induction rule: rtranclp_induct) (auto intro: inv_step)

lemma inv_reachable: "init s \<Longrightarrow> step\<^sup>*\<^sup>* s t \<Longrightarrow> inv t"
  using inv_steps inv_init by blast

text \<open>A property of single steps lifts to whole runs when it is reflexive and transitive.\<close>

lemma steps_mono:
  assumes "step\<^sup>*\<^sup>* s t" and "inv s"
    and "\<And>a b. inv a \<Longrightarrow> step a b \<Longrightarrow> R a b"
    and "\<And>a. R a a" and "\<And>a b c. R a b \<Longrightarrow> R b c \<Longrightarrow> R a c"
  shows "R s t"
  using assms(1,2)
proof (induction rule: rtranclp_induct)
  case base
  show ?case by (rule assms(4))
next
  case (step y z)
  then have "inv y" using inv_steps by blast
  with step assms(3,5) show ?case by blast
qed

end

section \<open>Lemmas\<close>

subsection \<open>Slice-valued maps\<close>

lemma slice_at_Nil [simp]: "slice_at [] k = []"
  by (simp add: slice_at_def)

lemma slice_at_update [slice_simps]:
  "slice_at (AList.update k xs m) k' = (if k' = k then xs else slice_at m k')"
  by (simp add: slice_at_def update_conv')

lemma slice_at_delete [slice_simps]:
  "slice_at (AList.delete k m) k' = (if k' = k then [] else slice_at m k')"
  by (simp add: slice_at_def delete_conv')

lemma slice_at_append_at [slice_simps]:
  "slice_at (append_at k x m) k' = (if k' = k then slice_at m k @ [x] else slice_at m k')"
  by (simp add: append_at_def slice_at_update)

lemma slice_at_store_slice [slice_simps]:
  "slice_at (store_slice k xs m) k' = (if k' = k then xs else slice_at m k')"
  by (simp add: store_slice_def slice_at_update slice_at_delete)

lemma map_of_slice_at: "map_of m k = Some xs \<Longrightarrow> slice_at m k = xs"
  by (simp add: slice_at_def)

lemma wf_gomap_Nil [simp]: "wf_gomap []"
  by (simp add: wf_gomap_def)

lemma wf_gomap_update [inv_intros]: "wf_gomap m \<Longrightarrow> wf_gomap (AList.update k v m)"
  by (simp add: wf_gomap_def distinct_update)

lemma wf_gomap_delete [inv_intros]: "wf_gomap m \<Longrightarrow> wf_gomap (AList.delete k m)"
  by (simp add: wf_gomap_def distinct_delete)

lemma wf_gomap_append_at [inv_intros]: "wf_gomap m \<Longrightarrow> wf_gomap (append_at k x m)"
  by (simp add: append_at_def wf_gomap_update)

lemma wf_gomap_store_slice [inv_intros]: "wf_gomap m \<Longrightarrow> wf_gomap (store_slice k xs m)"
  by (simp add: store_slice_def wf_gomap_update wf_gomap_delete)

lemma wf_gomap_map_of: "wf_gomap m \<Longrightarrow> (k, v) \<in> set m \<longleftrightarrow> map_of m k = Some v"
  by (auto simp: wf_gomap_def intro: map_of_SomeD)

lemma in_slice_at: "x \<in> set (slice_at m k) \<longleftrightarrow> (\<exists>xs. map_of m k = Some xs \<and> x \<in> set xs)"
  by (cases "map_of m k") (simp_all add: slice_at_def)

lemma set_all_slices:
  "wf_gomap m \<Longrightarrow> set (all_slices m) = {x. \<exists>k. x \<in> set (slice_at m k)}"
proof -
  assume wf: "wf_gomap m"
  have "set (all_slices m) = {x. \<exists>k xs. (k, xs) \<in> set m \<and> x \<in> set xs}"
    by (force simp: all_slices_def)
  also have "\<dots> = {x. \<exists>k xs. map_of m k = Some xs \<and> x \<in> set xs}"
    by (simp add: wf_gomap_map_of [OF wf])
  also have "\<dots> = {x. \<exists>k. x \<in> set (slice_at m k)}"
    by (simp add: in_slice_at)
  finally show ?thesis .
qed

text \<open>The counting and collecting loops over a slice-valued map.\<close>

lemma fold_count: "fold (\<lambda>(_, xs) count. count + length xs) m n = n + length (all_slices m)"
  by (induction m arbitrary: n) (auto simp: all_slices_def)

lemma fold_collect: "fold (\<lambda>(_, xs) acc. acc @ xs) m ys = ys @ all_slices m"
  by (induction m arbitrary: ys) (auto simp: all_slices_def)

lemma no_empty_Nil [simp]: "no_empty []"
  by (simp add: no_empty_def)

lemma no_empty_iff:
  "wf_gomap m \<Longrightarrow> no_empty m \<longleftrightarrow> (\<forall>k. map_of m k \<noteq> Some [])"
  by (auto simp: no_empty_def wf_gomap_map_of)

lemma no_empty_store_slice [inv_intros]:
  "wf_gomap m \<Longrightarrow> no_empty m \<Longrightarrow> no_empty (store_slice k xs m)"
  by (auto simp: no_empty_iff wf_gomap_store_slice)
     (auto simp: store_slice_def update_conv' delete_conv' split: if_splits)

lemma no_empty_append_at [inv_intros]:
  "wf_gomap m \<Longrightarrow> no_empty m \<Longrightarrow> no_empty (append_at k x m)"
  by (auto simp: no_empty_iff wf_gomap_append_at)
     (auto simp: append_at_def update_conv' split: if_splits)

lemma no_empty_update [inv_intros]:
  "wf_gomap m \<Longrightarrow> no_empty m \<Longrightarrow> xs \<noteq> [] \<Longrightarrow> no_empty (AList.update k xs m)"
  by (auto simp: no_empty_iff wf_gomap_update)
     (auto simp: update_conv' split: if_splits)

lemma no_empty_delete [inv_intros]:
  "wf_gomap m \<Longrightarrow> no_empty m \<Longrightarrow> no_empty (AList.delete k m)"
  by (auto simp: no_empty_iff wf_gomap_delete)
     (auto simp: delete_conv' split: if_splits)

lemma map_of_None_slice:
  "wf_gomap m \<Longrightarrow> no_empty m \<Longrightarrow> map_of m k = None \<longleftrightarrow> slice_at m k = []"
  by (auto simp: slice_at_def no_empty_iff split: option.splits)

subsection \<open>copy and select\<close>

lemma length_go_copy [simp]: "length (go_copy dst src) = length dst"
  by (simp add: go_copy_def)

lemma nth_go_copy:
  "i < length dst \<Longrightarrow> go_copy dst src ! i = (if i < length src then src ! i else dst ! i)"
  by (auto simp: go_copy_def nth_append)

lemma go_copy_append: "go_copy (replicate (length xs + n) z) xs = xs @ replicate n z"
  by (simp add: go_copy_def)

lemma go_select_None: "go_select pick cs = None \<longleftrightarrow> (\<forall>(r, v) \<in> set cs. \<not> r)"
  by (auto simp: go_select_def Let_def filter_empty_conv)

lemma go_select_ready: "go_select pick cs = Some v \<Longrightarrow> (True, v) \<in> set cs"
proof -
  assume a: "go_select pick cs = Some v"
  let ?r = "map snd (filter fst cs)"
  from a have ne: "?r \<noteq> []" and v: "v = ?r ! (pick mod length ?r)"
    by (auto simp: go_select_def Let_def split: if_splits)
  from ne have "v \<in> set ?r" unfolding v by (intro nth_mem) simp
  then show ?thesis by auto
qed

lemma go_select_can_pick:
  assumes "(True, v) \<in> set cs"
  shows "\<exists>pick. go_select pick cs = Some v"
proof -
  let ?r = "map snd (filter fst cs)"
  from assms have "v \<in> set ?r" by force
  then obtain i where "i < length ?r" and "?r ! i = v" by (auto simp only: in_set_conv_nth)
  then have "go_select i cs = Some v" by (auto simp: go_select_def Let_def)
  then show ?thesis ..
qed

subsection \<open>Machine integers\<close>

lemma wrap64_in_range:
  assumes "- maxInt64 - 1 \<le> n" and "n \<le> maxInt64"
  shows "wrap64 n = n"
  using assms
  by (simp add: wrap64_def maxInt64_def sint_sbintrunc' signed_take_bit_int_eq_self)

lemma wrap64_period: "wrap64 n = wrap64 (n - 2 ^ 64)"
proof -
  have "(word_of_int (n - 2 ^ 64) :: 64 word) = word_of_int n - word_of_int (2 ^ 64)"
    by (rule wi_hom_sub [symmetric])
  also have "(word_of_int (2 ^ 64) :: 64 word) = 0"
    by (simp flip: take_bit_eq_mod add: word_of_int_eq_0_iff)
  finally have "(word_of_int (n - 2 ^ 64) :: 64 word) = word_of_int n" by (simp only: diff_zero)
  then show ?thesis by (simp only: wrap64_def)
qed

end
