(* ===== verification/Go_Types.thy ===== *)
theory Go_Types
  imports Prelude
begin

text \<open>
  The data the components share: subscription and message types, signals, errors
  (\<open>types.go\<close>, \<open>errors.go\<close>, the constants of \<open>subscription.go\<close>, \<open>pool.go\<close> and \<open>submux.go\<close>).
  A Go integer type with named constants is a datatype with one constructor per constant and, where
  the code has a default branch, one for every other value.
\<close>

section \<open>Subscription types and Redis commands\<close>

datatype subscriptionType =
    subTypeSubscribe
  | subTypePSubscribe
  | subTypeSSubscribe
  | subTypeOther int

text \<open>The integer behind a type: the constants count from 0.\<close>

definition subscriptionType_code :: "subscriptionType \<Rightarrow> int" where
  "subscriptionType_code st = (case st of
       subTypeSubscribe \<Rightarrow> 0 | subTypePSubscribe \<Rightarrow> 1 | subTypeSSubscribe \<Rightarrow> 2 | subTypeOther i \<Rightarrow> i)"

definition String_subType :: "subscriptionType \<Rightarrow> string" where
  "String_subType st = (case st of
       subTypeSubscribe \<Rightarrow> ''subscribe''
     | subTypePSubscribe \<Rightarrow> ''psubscribe''
     | subTypeSSubscribe \<Rightarrow> ''ssubscribe''
     | subTypeOther _ \<Rightarrow> ''unknown'')"

definition cmdSubscribe :: string where "cmdSubscribe = ''SUBSCRIBE''"
definition cmdPSubscribe :: string where "cmdPSubscribe = ''PSUBSCRIBE''"
definition cmdSSubscribe :: string where "cmdSSubscribe = ''SSUBSCRIBE''"
definition cmdUnsubscribe :: string where "cmdUnsubscribe = ''UNSUBSCRIBE''"
definition cmdPUnsubscribe :: string where "cmdPUnsubscribe = ''PUNSUBSCRIBE''"
definition cmdSUnsubscribe :: string where "cmdSUnsubscribe = ''SUNSUBSCRIBE''"

lemmas cmd_defs = cmdSubscribe_def cmdPSubscribe_def cmdSSubscribe_def
  cmdUnsubscribe_def cmdPUnsubscribe_def cmdSUnsubscribe_def

definition subscribeCommandName :: "subscriptionType \<Rightarrow> string" where
  "subscribeCommandName st = (case st of
       subTypeSubscribe \<Rightarrow> cmdSubscribe
     | subTypePSubscribe \<Rightarrow> cmdPSubscribe
     | subTypeSSubscribe \<Rightarrow> cmdSSubscribe
     | subTypeOther _ \<Rightarrow> [])"

definition unsubscribeCommandName :: "subscriptionType \<Rightarrow> string" where
  "unsubscribeCommandName st = (case st of
       subTypeSubscribe \<Rightarrow> cmdUnsubscribe
     | subTypePSubscribe \<Rightarrow> cmdPUnsubscribe
     | subTypeSSubscribe \<Rightarrow> cmdSUnsubscribe
     | subTypeOther _ \<Rightarrow> [])"

text \<open>The kinds of a subscription confirmation (\<open>redis.Subscription.Kind\<close>).\<close>

definition redisKindSubscribe :: string where "redisKindSubscribe = ''subscribe''"
definition redisKindPSubscribe :: string where "redisKindPSubscribe = ''psubscribe''"
definition redisKindSSubscribe :: string where "redisKindSSubscribe = ''ssubscribe''"
definition redisKindUnsubscribe :: string where "redisKindUnsubscribe = ''unsubscribe''"
definition redisKindPUnsubscribe :: string where "redisKindPUnsubscribe = ''punsubscribe''"
definition redisKindSUnsubscribe :: string where "redisKindSUnsubscribe = ''sunsubscribe''"

lemmas redisKind_defs = redisKindSubscribe_def redisKindPSubscribe_def redisKindSSubscribe_def
  redisKindUnsubscribe_def redisKindPUnsubscribe_def redisKindSUnsubscribe_def

section \<open>Errors\<close>

text \<open>
  The sentinel errors, the two context errors, errors that come from the Redis library,
  \<open>fmt.Errorf\<close> without a wrapped error, with one after the text and with one before it. A nil error is \<open>None\<close> of the type \<open>goerror option\<close>
  wherever the code stores or passes one.
\<close>

datatype goerror =
    ErrInvalidClusterClient
  | ErrInvalidChannel
  | ErrSubscriptionFailed
  | ErrConnectionFailed
  | ErrClosed
  | ErrEventLoopStopped
  | ContextCanceled
  | ContextDeadlineExceeded
  | RedisError string
  | Errorf string
  | Wrapf string goerror
  | WrapfThen goerror string

text \<open>\<open>errors.Is\<close>: the target is the error itself or an error it wraps.\<close>

fun errorsIs :: "goerror \<Rightarrow> goerror \<Rightarrow> bool" where
  "errorsIs (Wrapf m e) t = (Wrapf m e = t \<or> errorsIs e t)"
| "errorsIs (WrapfThen e m) t = (WrapfThen e m = t \<or> errorsIs e t)"
| "errorsIs e t = (e = t)"

text \<open>\<open>%d\<close> of \<open>fmt.Sprintf\<close>.\<close>

fun showNat :: "nat \<Rightarrow> string" where
  "showNat n = (if n < 10 then [char_of (48 + n)] else showNat (n div 10) @ [char_of (48 + n mod 10)])"

declare showNat.simps [simp del]

definition showInt :: "int \<Rightarrow> string" where
  "showInt i = (if i < 0 then ''-'' @ showNat (nat (- i)) else showNat (nat i))"

section \<open>Messages and signals\<close>

datatype MessageType =
    MessageTypeMessage
  | MessageTypePMessage
  | MessageTypeSMessage
  | MessageTypeSignal

datatype EventType =
    EventNodeFailure
  | EventMigration
  | EventMigrationTimeout
  | EventMigrationStalled
  | EventQueueOverflow

record SignalInfo =
  sig_EventType :: EventType
  sig_Hashslot :: int
  sig_OldNode :: string
  sig_NewNode :: string
  sig_Details :: string
  sig_DroppedCount :: int

text \<open>Timestamps are nanoseconds; \<open>0\<close> is Go's zero time.\<close>

record Message =
  msg_Type :: MessageType
  msg_Channel :: string
  msg_Payload :: string
  msg_Pattern :: string
  msg_Signal :: "SignalInfo option"
  msg_Timestamp :: int
  msg_SubscriptionType :: subscriptionType

datatype NodePreference =
    PreferMasters
  | BalancedAll
  | PreferReplicas
  | OtherPreference int

section \<open>References\<close>

text \<open>
  Go pointers are compared for identity, so the objects the code shares by pointer live in a
  store and are named by a number: subscriptions, PubSub connections and their metadata,
  callbacks, response channels.
\<close>

type_synonym sub_ref = nat
type_synonym ps_ref = nat
type_synonym callback_ref = nat
type_synonym resp_ref = nat

section \<open>Lemmas\<close>

lemma subscribeCommandName_inj:
  "subscribeCommandName s = subscribeCommandName t \<Longrightarrow> subscribeCommandName s \<noteq> [] \<Longrightarrow> s = t"
  by (cases s; cases t) (simp_all add: subscribeCommandName_def cmd_defs)

lemma subscribeCommandName_empty:
  "subscribeCommandName st = [] \<longleftrightarrow> (\<exists>n. st = subTypeOther n)"
  by (cases st) (simp_all add: subscribeCommandName_def cmd_defs)

lemma errorsIs_refl [simp]: "errorsIs e e"
  by (cases e) simp_all

lemma errorsIs_Wrapf: "errorsIs e t \<Longrightarrow> errorsIs (Wrapf m e) t"
  by simp

end
