(* ===== verification/Registry_Spec.thy ===== *)
theory Registry_Spec
  imports Go_Types
begin

text \<open>
  The interface of a registry of subscriptions by channel. The metadata of a connection and the SubMux
  itself each keep one; the first keeps every entry, the second drops dead entries (those that do not
  satisfy \<open>keep\<close>) when it adds to a channel. Clients of a registry rely on the laws below only.
\<close>

section \<open>Slices of references\<close>

text \<open>The search loop \<open>for i, s := range subs { if s == sub { ... break } }\<close>.\<close>

fun slice_index :: "'a \<Rightarrow> 'a list \<Rightarrow> nat option" where
  "slice_index x [] = None"
| "slice_index x (y # ys) = (if y = x then Some 0 else map_option Suc (slice_index x ys))"

text \<open>\<open>slices.Delete(xs, i, j)\<close>.\<close>

definition slices_Delete :: "'a list \<Rightarrow> nat \<Rightarrow> nat \<Rightarrow> 'a list" where
  "slices_Delete xs i j = take i xs @ drop j xs"

lemma slice_index_None: "slice_index x xs = None \<longleftrightarrow> x \<notin> set xs"
  by (induction xs) auto

lemma slice_index_remove1:
  "slice_index x xs = Some i \<Longrightarrow> i < length xs \<and> xs ! i = x \<and> remove1 x xs = slices_Delete xs i (i + 1)"
  by (induction xs arbitrary: i) (auto simp: slices_Delete_def split: if_splits)

section \<open>The interface\<close>

locale sub_registry =
  fixes subs :: "'r \<Rightarrow> string \<Rightarrow> sub_ref list"
    and add :: "string \<Rightarrow> sub_ref \<Rightarrow> 'r \<Rightarrow> 'r"
    and del :: "string \<Rightarrow> sub_ref \<Rightarrow> 'r \<Rightarrow> 'r"
    and keep :: "sub_ref \<Rightarrow> bool"
    and reg_inv :: "'r \<Rightarrow> bool"
  assumes inv_add: "reg_inv r \<Longrightarrow> reg_inv (add ch x r)"
    and inv_del: "reg_inv r \<Longrightarrow> reg_inv (del ch x r)"
    and subs_add: "reg_inv r \<Longrightarrow>
      subs (add ch x r) ch' = (if ch' = ch then filter keep (subs r ch) @ [x] else subs r ch')"
    and subs_del: "reg_inv r \<Longrightarrow>
      subs (del ch x r) ch' = (if ch' = ch then remove1 x (subs r ch) else subs r ch')"
begin

lemma registered: "reg_inv r \<Longrightarrow> x \<in> set (subs (add ch x r) ch)"
  by (simp add: subs_add)

lemma add_del: "reg_inv r \<Longrightarrow> x \<notin> set (subs r ch) \<Longrightarrow>
  subs (del ch x (add ch x r)) ch' = (if ch' = ch then filter keep (subs r ch) else subs r ch')"
  by (simp add: subs_del subs_add inv_add remove1_append)

lemma distinct_add: "reg_inv r \<Longrightarrow> distinct (subs r ch') \<Longrightarrow> x \<notin> set (subs r ch') \<Longrightarrow>
  distinct (subs (add ch x r) ch')"
  by (auto simp: subs_add)

lemma distinct_del: "reg_inv r \<Longrightarrow> distinct (subs r ch') \<Longrightarrow> distinct (subs (del ch x r) ch')"
  by (auto simp: subs_del)

lemma unregistered: "reg_inv r \<Longrightarrow> distinct (subs r ch) \<Longrightarrow> x \<notin> set (subs (del ch x r) ch)"
  by (simp add: subs_del)

text \<open>Deleting a list of subscriptions of one channel.\<close>

lemma inv_del_all: "reg_inv r \<Longrightarrow> reg_inv (fold (del ch) xs r)"
  by (induction xs arbitrary: r) (auto intro: inv_del)

lemma subs_del_all:
  "reg_inv r \<Longrightarrow> distinct (subs r ch) \<Longrightarrow>
   subs (fold (del ch) xs r) ch' = (if ch' = ch then filter (\<lambda>y. y \<notin> set xs) (subs r ch) else subs r ch')"
proof (induction xs arbitrary: r)
  case Nil
  then show ?case by simp
next
  case (Cons x xs)
  have "subs (fold (del ch) xs (del ch x r)) ch' =
    (if ch' = ch then filter (\<lambda>y. y \<notin> set xs) (subs (del ch x r) ch) else subs (del ch x r) ch')"
    by (rule Cons.IH) (auto intro: inv_del distinct_del Cons.prems)
  then show ?case using Cons.prems by (auto simp: subs_del distinct_remove1_removeAll removeAll_filter_not_eq
      intro: filter_cong)
qed

end

end
