(* ===== verification/Fifo_Spec.thy ===== *)
theory Fifo_Spec
  imports Prelude
begin

text \<open>
  The interface of a first-in-first-out queue as its clients see it: an invariant, the list of
  elements, whether there is room, and the three operations. A result \<open>None\<close> is a runtime panic
  (an index out of range). The client's facts about whole sequences of operations are proved once,
  here, from the laws.
\<close>

section \<open>Sequences of operations\<close>

fun push_n :: "('a \<Rightarrow> 'q \<Rightarrow> ('q \<times> bool) option) \<Rightarrow> 'a list \<Rightarrow> 'q \<Rightarrow> ('q \<times> bool list) option" where
  "push_n push [] q = Some (q, [])"
| "push_n push (x # xs) q =
     (case push x q of
        None \<Rightarrow> None
      | Some (q', b) \<Rightarrow> map_option (\<lambda>(q'', bs). (q'', b # bs)) (push_n push xs q'))"

fun pop_n :: "('q \<Rightarrow> ('q \<times> 'a \<times> bool) option) \<Rightarrow> nat \<Rightarrow> 'q \<Rightarrow> ('q \<times> 'a list) option" where
  "pop_n pop 0 q = Some (q, [])"
| "pop_n pop (Suc n) q =
     (case pop q of
        Some (q', x, True) \<Rightarrow> map_option (\<lambda>(q'', xs). (q'', x # xs)) (pop_n pop n q')
      | _ \<Rightarrow> None)"

section \<open>The interface\<close>

locale fifo =
  fixes inv :: "'q \<Rightarrow> bool"
    and elems :: "'q \<Rightarrow> 'a list"
    and room :: "'q \<Rightarrow> bool"
    and push :: "'a \<Rightarrow> 'q \<Rightarrow> ('q \<times> bool) option"
    and pop :: "'q \<Rightarrow> ('q \<times> 'a \<times> bool) option"
    and len :: "'q \<Rightarrow> nat"
  assumes push_room:
      "inv q \<Longrightarrow> room q \<Longrightarrow> \<exists>q'. push x q = Some (q', True) \<and> inv q' \<and> elems q' = elems q @ [x]"
    and push_full: "inv q \<Longrightarrow> \<not> room q \<Longrightarrow> push x q = Some (q, False)"
    and pop_empty: "inv q \<Longrightarrow> elems q = [] \<Longrightarrow> \<exists>z. pop q = Some (q, z, False)"
    and pop_cons:
      "inv q \<Longrightarrow> elems q = x # xs \<Longrightarrow> \<exists>q'. pop q = Some (q', x, True) \<and> inv q' \<and> elems q' = xs"
    and len_elems: "inv q \<Longrightarrow> len q = length (elems q)"
begin

lemma pop_n_elems:
  "inv q \<Longrightarrow> n \<le> length (elems q) \<Longrightarrow>
   \<exists>q'. pop_n pop n q = Some (q', take n (elems q)) \<and> inv q' \<and> elems q' = drop n (elems q)"
proof (induction n arbitrary: q)
  case 0
  then show ?case by simp
next
  case (Suc n)
  then obtain x xs where e: "elems q = x # xs" by (cases "elems q") auto
  with Suc.prems(1) obtain q1 where q1: "pop q = Some (q1, x, True)" "inv q1" "elems q1 = xs"
    using pop_cons by blast
  have "n \<le> length (elems q1)" using Suc.prems(2) e q1(3) by simp
  with Suc.IH q1(2) obtain q2 where
    "pop_n pop n q1 = Some (q2, take n xs)" "inv q2" "elems q2 = drop n xs"
    using q1(3) by blast
  with q1 e show ?case by simp
qed

text \<open>Everything that is in the queue comes out, in order, and leaves the queue empty.\<close>

lemma pop_all:
  assumes "inv q"
  shows "\<exists>q'. pop_n pop (len q) q = Some (q', elems q) \<and> inv q' \<and> elems q' = []"
  using pop_n_elems [OF assms, of "length (elems q)"] len_elems [OF assms] by simp

text \<open>Pushing never panics; what is accepted is appended in order and what is refused is left out.\<close>

lemma push_n_elems:
  assumes "inv q"
  shows "\<exists>q' bs. push_n push xs q = Some (q', bs) \<and> length bs = length xs \<and> inv q'
     \<and> elems q' = elems q @ map fst (filter snd (zip xs bs))"
  using assms
proof (induction xs arbitrary: q)
  case Nil
  then show ?case by simp
next
  case (Cons x xs)
  obtain q1 b where q1: "push x q = Some (q1, b)" "inv q1"
    "elems q1 = elems q @ (if b then [x] else [])"
    using push_room [OF Cons.prems, of x] push_full [OF Cons.prems, of x] Cons.prems
    by (cases "room q") auto
  from Cons.IH [OF q1(2)] q1 show ?case by (auto split: if_splits)
qed

end

end
