(* ===== verification/Ring_Buffer.thy ===== *)
theory Ring_Buffer
  imports Fifo_Spec Go_Types
begin

text \<open>
  \<open>ringbuf.go\<close>: the circular buffer of pending callbacks. It is bounded (a push into the full
  buffer is refused) or growable (a push into the full buffer doubles it). The buffer is shown to
  implement the FIFO interface; the invariant also says that vacated slots hold the zero value.
\<close>

section \<open>The source's type and methods\<close>

record pendingCallback =
  pc_msg :: "Message option"
  pc_enqueuedAt :: int

definition zeroCallback :: pendingCallback where
  "zeroCallback = \<lparr>pc_msg = None, pc_enqueuedAt = 0\<rparr>"

text \<open>The nil slice of the zero value is the empty list: \<open>initRing\<close> never makes an empty buffer.\<close>

record pendingCallbackRing =
  r_buf :: "pendingCallback list"
  r_head :: nat
  r_tail :: nat
  r_count :: nat
  r_fixed :: bool

definition zeroRing :: pendingCallbackRing where
  "zeroRing = \<lparr>r_buf = [], r_head = 0, r_tail = 0, r_count = 0, r_fixed = False\<rparr>"

definition ringBufInitialCap :: nat where
  "ringBufInitialCap = 16"

definition initRing :: "int \<Rightarrow> pendingCallbackRing \<Rightarrow> pendingCallbackRing" where
  "initRing capacity r =
     (let r1 = (if capacity > 0
                then r\<lparr>r_buf := replicate (nat capacity) zeroCallback, r_fixed := True\<rparr>
                else r\<lparr>r_buf := replicate ringBufInitialCap zeroCallback, r_fixed := False\<rparr>)
      in r1\<lparr>r_head := 0, r_tail := 0, r_count := 0\<rparr>)"

definition grow :: "pendingCallbackRing \<Rightarrow> pendingCallbackRing" where
  "grow r =
     (let newCap = length (r_buf r) * 2;
          newBuf = replicate newCap zeroCallback;
          filled =
            (if r_head r < r_tail r
             then go_copy newBuf (drop (r_head r) (take (r_tail r) (r_buf r)))
             else (let src = drop (r_head r) (r_buf r);
                       n = min newCap (length src);
                       b1 = go_copy newBuf src
                   in take n b1 @ go_copy (drop n b1) (take (r_tail r) (r_buf r))))
      in r\<lparr>r_buf := filled, r_head := 0, r_tail := r_count r\<rparr>)"

text \<open>\<open>None\<close>: the index expression or the remainder panics.\<close>

definition push :: "pendingCallback \<Rightarrow> pendingCallbackRing \<Rightarrow> (pendingCallbackRing \<times> bool) option" where
  "push item r =
     (if r_count r = length (r_buf r) \<and> r_fixed r then Some (r, False)
      else (let r1 = (if r_count r = length (r_buf r) then grow r else r)
            in if r_tail r1 < length (r_buf r1)
               then Some (r1\<lparr>r_buf := (r_buf r1)[r_tail r1 := item],
                             r_tail := (r_tail r1 + 1) mod length (r_buf r1),
                             r_count := r_count r1 + 1\<rparr>, True)
               else None))"

definition pop :: "pendingCallbackRing \<Rightarrow> (pendingCallbackRing \<times> pendingCallback \<times> bool) option" where
  "pop r =
     (if r_count r = 0 then Some (r, zeroCallback, False)
      else if r_head r < length (r_buf r)
      then Some (r\<lparr>r_buf := (r_buf r)[r_head r := zeroCallback],
                   r_head := (r_head r + 1) mod length (r_buf r),
                   r_count := r_count r - 1\<rparr>, r_buf r ! r_head r, True)
      else None)"

definition len_ring :: "pendingCallbackRing \<Rightarrow> nat" where
  "len_ring r = r_count r"

section \<open>Abstraction and invariant\<close>

definition slot :: "pendingCallbackRing \<Rightarrow> nat \<Rightarrow> nat" where
  "slot r i = (r_head r + i) mod length (r_buf r)"

definition ring_elems :: "pendingCallbackRing \<Rightarrow> pendingCallback list" where
  "ring_elems r = map (\<lambda>i. r_buf r ! slot r i) [0..<r_count r]"

definition ring_inv :: "pendingCallbackRing \<Rightarrow> bool" where
  "ring_inv r \<longleftrightarrow> r_buf r \<noteq> [] \<and> r_head r < length (r_buf r) \<and> r_count r \<le> length (r_buf r)
     \<and> r_tail r = slot r (r_count r)
     \<and> (\<forall>i. r_count r \<le> i \<and> i < length (r_buf r) \<longrightarrow> r_buf r ! slot r i = zeroCallback)"

definition ring_room :: "pendingCallbackRing \<Rightarrow> bool" where
  "ring_room r \<longleftrightarrow> \<not> (r_fixed r \<and> r_count r = length (r_buf r))"

section \<open>Lemmas\<close>

lemma slot_less: "r_buf r \<noteq> [] \<Longrightarrow> slot r i < length (r_buf r)"
  by (simp add: slot_def)

lemma slot_if:
  "r_head r < length (r_buf r) \<Longrightarrow> i \<le> length (r_buf r) \<Longrightarrow>
   slot r i = (if r_head r + i < length (r_buf r) then r_head r + i else r_head r + i - length (r_buf r))"
  by (auto simp: slot_def mod_if)

lemma slot_inj:
  assumes "r_head r < length (r_buf r)" and "i < length (r_buf r)" and "j < length (r_buf r)"
    and "slot r i = slot r j"
  shows "i = j"
  using assms by (auto simp: slot_if split: if_splits)

lemma slot_Suc: "slot r (Suc i) = (slot r i + 1) mod length (r_buf r)"
  by (simp add: slot_def mod_Suc_eq)

lemma length_ring_elems [simp]: "length (ring_elems r) = r_count r"
  by (simp add: ring_elems_def)

lemma ring_inv_initRing: "ring_inv (initRing capacity r)"
  by (auto simp: initRing_def ring_inv_def slot_def ringBufInitialCap_def)

lemma initRing_simps [simp]:
  "r_fixed (initRing capacity r) = (capacity > 0)"
  "length (r_buf (initRing capacity r)) = (if capacity > 0 then nat capacity else ringBufInitialCap)"
  "r_count (initRing capacity r) = 0"
  by (simp_all add: initRing_def Let_def)

lemma ring_elems_initRing: "ring_elems (initRing capacity r) = []"
  by (simp add: initRing_def ring_elems_def Let_def)

text \<open>Writing at the tail of a buffer that is not full.\<close>

lemma put_tail:
  fixes x :: pendingCallback
  assumes "ring_inv r" and "r_count r < length (r_buf r)"
  defines "r' \<equiv> r\<lparr>r_buf := (r_buf r)[r_tail r := x],
                  r_tail := (r_tail r + 1) mod length (r_buf r), r_count := r_count r + 1\<rparr>"
  shows "ring_inv r' \<and> ring_elems r' = ring_elems r @ [x] \<and> r_tail r < length (r_buf r)"
proof -
  let ?n = "length (r_buf r)"
  have h: "r_head r < ?n" and t: "r_tail r = slot r (r_count r)"
    and z: "\<And>i. r_count r \<le> i \<Longrightarrow> i < ?n \<Longrightarrow> r_buf r ! slot r i = zeroCallback"
    using assms(1) by (auto simp: ring_inv_def)
  have ne: "r_buf r \<noteq> []" using h by auto
  have sl: "slot r' i = slot r i" for i by (simp add: r'_def slot_def)
  have nth: "r_buf r' ! slot r i = (if i = r_count r then x else r_buf r ! slot r i)" if "i < ?n" for i
    using that slot_inj [OF h that assms(2)] slot_less [OF ne]
    by (auto simp: r'_def t nth_list_update)
  have "ring_elems r' = map (\<lambda>i. r_buf r' ! slot r i) [0..<Suc (r_count r)]"
    by (simp add: ring_elems_def sl) (simp add: r'_def)
  also have "\<dots> = ring_elems r @ [x]"
    using assms(2) by (simp add: ring_elems_def nth)
  finally have "ring_elems r' = ring_elems r @ [x]" .
  moreover have "ring_inv r'"
    unfolding ring_inv_def sl using h assms(2) nth z t
    by (auto simp: slot_Suc) (auto simp: r'_def slot_Suc)
  ultimately show ?thesis using slot_less [OF ne] t by simp
qed

text \<open>Growing a full buffer: the elements move to the front in order, the rest is zero.\<close>

lemma full_elems:
  assumes "ring_inv r" and "r_count r = length (r_buf r)"
  shows "ring_elems r = drop (r_head r) (r_buf r) @ take (r_head r) (r_buf r)"
proof (rule nth_equalityI)
  show "length (ring_elems r) = length (drop (r_head r) (r_buf r) @ take (r_head r) (r_buf r))"
    using assms by (auto simp: ring_inv_def)
  show "ring_elems r ! i = (drop (r_head r) (r_buf r) @ take (r_head r) (r_buf r)) ! i"
    if "i < length (ring_elems r)" for i
    using that assms by (auto simp: ring_elems_def ring_inv_def slot_if nth_append add.commute)
qed

lemma full_tail: "ring_inv r \<Longrightarrow> r_count r = length (r_buf r) \<Longrightarrow> r_tail r = r_head r"
  by (auto simp: ring_inv_def slot_def)

lemma grow_buf:
  assumes "ring_inv r" and "r_count r = length (r_buf r)"
  shows "r_buf (grow r) = ring_elems r @ replicate (length (r_buf r)) zeroCallback"
proof -
  let ?b = "r_buf r" and ?h = "r_head r"
  have h: "?h < length ?b" and t: "r_tail r = ?h" using assms full_tail by (auto simp: ring_inv_def)
  have "go_copy (replicate (length ?b * 2) zeroCallback) (drop ?h ?b) =
        drop ?h ?b @ replicate (length ?b + ?h) zeroCallback"
    using h go_copy_append [of "drop ?h ?b" "length ?b + ?h"] by (simp add: mult_2_right)
  moreover have "go_copy (replicate (length ?b + ?h) zeroCallback) (take ?h ?b) =
        take ?h ?b @ replicate (length ?b) zeroCallback"
    using h go_copy_append [of "take ?h ?b" "length ?b"] by (simp add: add.commute)
  ultimately show ?thesis
    using h by (simp add: grow_def Let_def t full_elems [OF assms])
qed

lemma grow_ok:
  assumes "ring_inv r" and "r_count r = length (r_buf r)"
  shows "ring_inv (grow r) \<and> ring_elems (grow r) = ring_elems r
    \<and> r_count (grow r) < length (r_buf (grow r)) \<and> r_fixed (grow r) = r_fixed r"
proof -
  have len: "length (r_buf (grow r)) = 2 * length (r_buf r)" "r_buf r \<noteq> []"
    using grow_buf [OF assms] assms by (auto simp: ring_inv_def)
  have f: "r_head (grow r) = 0" "r_count (grow r) = r_count r" "r_tail (grow r) = r_count r"
    "r_fixed (grow r) = r_fixed r"
    by (simp_all add: grow_def Let_def)
  have sl: "slot (grow r) i = i" if "i < 2 * length (r_buf r)" for i
    using that by (simp add: slot_def f len)
  have "ring_elems (grow r) = ring_elems r"
    using len by (intro nth_equalityI) (auto simp: ring_elems_def [of "grow r"] f sl assms(2) grow_buf [OF assms] nth_append)
  moreover have "ring_inv (grow r)"
    using len assms by (auto simp: ring_inv_def [of "grow r"] f sl grow_buf [OF assms] nth_append)
  ultimately show ?thesis using len f assms(2) by simp
qed

lemma push_ok:
  assumes "ring_inv r" and "ring_room r"
  shows "\<exists>r'. push x r = Some (r', True) \<and> ring_inv r' \<and> ring_elems r' = ring_elems r @ [x]
     \<and> r_fixed r' = r_fixed r"
proof (cases "r_count r = length (r_buf r)")
  case True
  with assms(2) have "\<not> r_fixed r" by (simp add: ring_room_def)
  then show ?thesis
    using True grow_ok [OF assms(1) True] put_tail [of "grow r" x] by (auto simp: push_def Let_def)
next
  case False
  then have "r_count r < length (r_buf r)" using assms(1) by (auto simp: ring_inv_def)
  with False show ?thesis
    using put_tail [OF assms(1), of x] by (auto simp: push_def Let_def)
qed

lemma pop_ok:
  assumes "ring_inv r" and "ring_elems r = x # xs"
  shows "\<exists>r'. pop r = Some (r', x, True) \<and> ring_inv r' \<and> ring_elems r' = xs
     \<and> r_fixed r' = r_fixed r \<and> length (r_buf r') = length (r_buf r)"
proof -
  let ?n = "length (r_buf r)"
  have h: "r_head r < ?n" and c: "r_count r \<le> ?n" and t: "r_tail r = slot r (r_count r)"
    and z: "\<And>i. r_count r \<le> i \<Longrightarrow> i < ?n \<Longrightarrow> r_buf r ! slot r i = zeroCallback"
    using assms(1) by (auto simp: ring_inv_def)
  have ne: "r_buf r \<noteq> []" using h by auto
  have len: "r_count r = Suc (length xs)"
    using arg_cong [OF assms(2), of length] by simp
  have "ring_elems r = r_buf r ! slot r 0 # map (\<lambda>i. r_buf r ! slot r (Suc i)) [0..<length xs]"
    unfolding ring_elems_def len
    by (simp add: upt_conv_Cons map_Suc_upt [symmetric] comp_def del: upt_Suc)
  then have x: "x = r_buf r ! r_head r" and xs: "xs = map (\<lambda>i. r_buf r ! slot r (Suc i)) [0..<length xs]"
    using assms(2) h by (simp_all add: slot_def)
  define r' where "r' = r\<lparr>r_buf := (r_buf r)[r_head r := zeroCallback],
    r_head := (r_head r + 1) mod ?n, r_count := r_count r - 1\<rparr>"
  have c': "r_count r' = length xs" by (simp add: r'_def len)
  have sl: "slot r' i = slot r (Suc i)" for i
    by (simp add: r'_def slot_def mod_simps)
  have nth: "r_buf r' ! slot r (Suc i) = (if Suc i = ?n then zeroCallback else r_buf r ! slot r (Suc i))"
    if "i < ?n" for i
    using that h slot_if [OF h, of "Suc i"]
    by (auto simp: r'_def nth_list_update)
  have "ring_elems r' = map (\<lambda>i. r_buf r ! slot r (Suc i)) [0..<length xs]"
    using c' len c by (auto simp: ring_elems_def sl nth)
  then have "ring_elems r' = xs" using xs by simp
  moreover have "ring_inv r'"
    unfolding ring_inv_def sl using h c len nth z t ne
    by (auto simp: r'_def)
  ultimately show ?thesis
    using h len x by (intro exI [of _ r']) (simp add: pop_def r'_def)
qed

section \<open>The ring buffer is a FIFO queue\<close>

interpretation ring: fifo ring_inv ring_elems ring_room push pop len_ring
proof
  show "\<exists>q'. push x q = Some (q', True) \<and> ring_inv q' \<and> ring_elems q' = ring_elems q @ [x]"
    if "ring_inv q" "ring_room q" for q x
    using push_ok [OF that] by blast
  show "push x q = Some (q, False)" if "ring_inv q" "\<not> ring_room q" for q x
    using that by (simp add: push_def ring_room_def)
  show "\<exists>z. pop q = Some (q, z, False)" if "ring_inv q" "ring_elems q = []" for q
    using arg_cong [OF that(2), of length] by (simp add: pop_def)
  show "\<exists>q'. pop q = Some (q', x, True) \<and> ring_inv q' \<and> ring_elems q' = xs"
    if "ring_inv q" "ring_elems q = x # xs" for q x xs
    using pop_ok [OF that] by blast
  show "len_ring q = length (ring_elems q)" if "ring_inv q" for q
    by (simp add: len_ring_def)
qed

lemma ring_bounded_buf:
  "ring_inv r \<Longrightarrow> r_fixed r \<Longrightarrow> push x r = Some (r', b) \<Longrightarrow> length (r_buf r') = length (r_buf r)"
  by (auto simp: push_def Let_def split: if_splits)

lemma ring_room_growable: "\<not> r_fixed r \<Longrightarrow> ring_room r"
  by (simp add: ring_room_def)

lemma push_n_growable:
  "ring_inv r \<Longrightarrow> \<not> r_fixed r \<Longrightarrow>
   \<exists>r'. push_n push xs r = Some (r', replicate (length xs) True) \<and> ring_inv r'
      \<and> ring_elems r' = ring_elems r @ xs"
proof (induction xs arbitrary: r)
  case Nil
  then show ?case by simp
next
  case (Cons x xs)
  from push_ok [OF Cons.prems(1) ring_room_growable [OF Cons.prems(2)], of x]
  obtain r1 where r1: "push x r = Some (r1, True)" "ring_inv r1" "ring_elems r1 = ring_elems r @ [x]"
    "\<not> r_fixed r1" using Cons.prems(2) by auto
  from Cons.IH [OF r1(2,4)] r1 show ?case by auto
qed

section \<open>Properties\<close>

text \<open>C33. Whatever is pushed into a growable ring comes out of it in the same order: no push is
  refused or panics, whatever the head position and however often the buffer has to double, and
  popping as many items returns exactly the old contents followed by the pushed items.\<close>

theorem ring_fifo_roundtrip:
  assumes "ring_inv r" and "\<not> r_fixed r"
  shows "\<exists>r1 r2. push_n push xs r = Some (r1, replicate (length xs) True)
    \<and> pop_n pop (len_ring r1) r1 = Some (r2, ring_elems r @ xs) \<and> ring_elems r2 = []"
proof -
  obtain r1 where r1: "push_n push xs r = Some (r1, replicate (length xs) True)" "ring_inv r1"
    "ring_elems r1 = ring_elems r @ xs" using push_n_growable [OF assms] by blast
  with ring.pop_all [OF r1(2)] show ?thesis by auto
qed

theorem ring_fifo_roundtrip_witness:
  "\<exists>r1 r2. push_n push [zeroCallback] (initRing 0 zeroRing) = Some (r1, [True])
    \<and> pop_n pop (len_ring r1) r1 = Some (r2, [zeroCallback]) \<and> ring_elems r2 = []"
  using ring_fifo_roundtrip [of "initRing 0 zeroRing" "[zeroCallback]"]
  by (simp add: ring_inv_initRing ring_elems_initRing)

text \<open>A bounded ring holds at most its capacity: a push succeeds exactly while there is room,
  a refused push leaves the ring as it was, and neither grows the buffer.\<close>

theorem ring_bounded:
  assumes "ring_inv r" and "r_fixed r"
  shows "\<exists>r'. push x r = Some (r', len_ring r < length (r_buf r))
    \<and> length (r_buf r') = length (r_buf r) \<and> r_fixed r' \<and> ring_inv r'
    \<and> ring_elems r' = ring_elems r @ (if len_ring r < length (r_buf r) then [x] else [])
    \<and> len_ring r' \<le> length (r_buf r')"
proof (cases "len_ring r < length (r_buf r)")
  case True
  then have "ring_room r" by (simp add: ring_room_def len_ring_def)
  from push_ok [OF assms(1) this, of x] True assms(2) show ?thesis
    by (auto simp: push_def Let_def len_ring_def split: if_splits)
next
  case False
  with assms have "r_count r = length (r_buf r)" by (simp add: len_ring_def ring_inv_def)
  with assms False show ?thesis by (simp add: push_def len_ring_def)
qed

theorem ring_bounded_witness:
  "\<exists>r'. push zeroCallback (initRing 2 zeroRing) = Some (r', True) \<and> length (r_buf r') = 2"
  using ring_bounded [of "initRing 2 zeroRing" zeroCallback]
  by (auto simp: ring_inv_initRing len_ring_def)

text \<open>The vacated slot is zeroed: after a pop, every slot of the buffer outside the live window
  holds the zero value, so that no message stays reachable through the buffer.\<close>

theorem pop_zeroes_vacated:
  assumes "ring_inv r" and "ring_elems r = x # xs"
  shows "\<exists>r'. pop r = Some (r', x, True) \<and> ring_elems r' = xs
    \<and> r_buf r' ! r_head r = zeroCallback
    \<and> (\<forall>i. r_count r' \<le> i \<and> i < length (r_buf r') \<longrightarrow> r_buf r' ! slot r' i = zeroCallback)"
proof -
  obtain r' where r': "pop r = Some (r', x, True)" "ring_inv r'" "ring_elems r' = xs"
    using pop_ok [OF assms] by blast
  then have "r_buf r' ! r_head r = zeroCallback"
    using assms(1) by (auto simp: pop_def ring_inv_def split: if_splits)
  with r' show ?thesis by (auto simp: ring_inv_def)
qed

lemma ring_one: "\<exists>r. push zeroCallback (initRing 1 zeroRing) = Some (r, True) \<and> ring_inv r
    \<and> ring_elems r = [zeroCallback]"
  using push_ok [of "initRing 1 zeroRing" zeroCallback]
  by (auto simp: ring_inv_initRing ring_elems_initRing) (auto simp: ring_room_def)

theorem pop_zeroes_vacated_witness:
  "\<exists>r r'. ring_inv r \<and> pop r = Some (r', zeroCallback, True) \<and> ring_elems r' = []"
proof -
  obtain r where "ring_inv r" "ring_elems r = [zeroCallback]" using ring_one by blast
  with pop_zeroes_vacated [of r zeroCallback "[]"] show ?thesis by blast
qed

end
