(* ===== verification/Worker_Pool.thy ===== *)
theory Worker_Pool
  imports Go_Types "HOL-Library.Multiset"
begin

text \<open>
  \<open>workerpool.go\<close>: the bounded pool of workers. The methods are functions on the pool's state;
  because a submission can be in progress while \<open>Stop\<close> runs, the pool is also modelled as a
  transition system whose steps are the atomic sections of the methods and of the workers. It is
  shown that no submission ever sends on the closed queue, that the queue stays bounded, that no
  accepted task is lost, and that \<open>Stop\<close> can always complete.
\<close>

section \<open>The source's type and methods\<close>

text \<open>
  A task (\<open>func()\<close>) is a value of type \<open>'t\<close>. \<open>wp_cancelled\<close> is the state of the pool's context,
  \<open>wp_closed\<close> that of the channel \<open>taskQueue\<close>, whose contents and capacity are
  \<open>wp_taskQueue\<close> and \<open>wp_cap\<close>.
\<close>

record 't WorkerPool =
  wp_taskQueue :: "'t list"
  wp_cap :: nat
  wp_workers :: nat
  wp_cancelled :: bool
  wp_closed :: bool
  wp_started :: bool
  wp_stopped :: bool

definition NewWorkerPool :: "nat \<Rightarrow> int \<Rightarrow> int \<Rightarrow> 't WorkerPool" where
  "NewWorkerPool numCPU workers queueSize =
     (let workers' = (if workers \<le> 0 then numCPU * 2 else nat workers);
          queueSize' = (if queueSize \<le> 0 then 10000 else nat queueSize)
      in \<lparr>wp_taskQueue = [], wp_cap = queueSize', wp_workers = workers', wp_cancelled = False,
          wp_closed = False, wp_started = False, wp_stopped = False\<rparr>)"

text \<open>\<open>Start\<close> returns the number of worker goroutines it starts.\<close>

definition Start :: "'t WorkerPool \<Rightarrow> 't WorkerPool \<times> nat" where
  "Start wp = (if wp_started wp then (wp, 0) else (wp\<lparr>wp_started := True\<rparr>, wp_workers wp))"

text \<open>
  A submission first checks the contexts and then selects between sending and being cancelled.
  Sending on a closed channel panics; a send case of \<open>select\<close> is ready when the channel is closed
  or has room.
\<close>

datatype 't submit_result = Submitted "'t WorkerPool" | NotSubmitted | Blocks | SendPanics

definition send_ready :: "'t WorkerPool \<Rightarrow> bool" where
  "send_ready wp \<longleftrightarrow> wp_closed wp \<or> length (wp_taskQueue wp) < wp_cap wp"

definition send_task :: "'t WorkerPool \<Rightarrow> 't \<Rightarrow> 't submit_result" where
  "send_task wp t =
     (if wp_closed wp then SendPanics
      else Submitted (wp\<lparr>wp_taskQueue := wp_taskQueue wp @ [t]\<rparr>))"

text \<open>The first \<open>select\<close> of the three methods: is the pool (or the caller) already cancelled?\<close>

definition pre_check :: "bool \<Rightarrow> 't WorkerPool \<Rightarrow> bool" where
  "pre_check ctxDone wp \<longleftrightarrow> \<not> wp_cancelled wp \<and> \<not> ctxDone"

text \<open>The second \<open>select\<close>, of \<open>Submit\<close> and \<open>SubmitWithContext\<close> (blocking) and of \<open>TrySubmit\<close>.\<close>

definition send_or_wait :: "nat \<Rightarrow> bool \<Rightarrow> 't WorkerPool \<Rightarrow> 't \<Rightarrow> 't submit_result" where
  "send_or_wait pick ctxDone wp t =
     (case go_select pick [(send_ready wp, send_task wp t), (wp_cancelled wp, NotSubmitted),
                           (ctxDone, NotSubmitted)] of
        None \<Rightarrow> Blocks
      | Some r \<Rightarrow> r)"

definition send_or_give_up :: "'t WorkerPool \<Rightarrow> 't \<Rightarrow> 't submit_result" where
  "send_or_give_up wp t = (if send_ready wp then send_task wp t else NotSubmitted)"

definition Submit :: "nat \<Rightarrow> 't WorkerPool \<Rightarrow> 't \<Rightarrow> 't submit_result" where
  "Submit pick wp t =
     (if pre_check False wp then send_or_wait pick False wp t else NotSubmitted)"

definition SubmitWithContext :: "nat \<Rightarrow> bool \<Rightarrow> 't WorkerPool \<Rightarrow> 't \<Rightarrow> 't submit_result" where
  "SubmitWithContext pick ctxDone wp t =
     (if pre_check ctxDone wp then send_or_wait pick ctxDone wp t else NotSubmitted)"

definition TrySubmit :: "'t WorkerPool \<Rightarrow> 't \<Rightarrow> 't submit_result" where
  "TrySubmit wp t = (if pre_check False wp then send_or_give_up wp t else NotSubmitted)"

text \<open>The atomic sections of \<open>Stop\<close>: the guarded flag, the cancellation, the close under the lock.\<close>

definition stop_flag :: "'t WorkerPool \<Rightarrow> 't WorkerPool option" where
  "stop_flag wp = (if \<not> wp_started wp \<or> wp_stopped wp then None else Some (wp\<lparr>wp_stopped := True\<rparr>))"

definition stop_cancel :: "'t WorkerPool \<Rightarrow> 't WorkerPool" where
  "stop_cancel wp = wp\<lparr>wp_cancelled := True\<rparr>"

definition stop_close :: "'t WorkerPool \<Rightarrow> 't WorkerPool" where
  "stop_close wp = wp\<lparr>wp_closed := True\<rparr>"

definition QueueLength :: "'t WorkerPool \<Rightarrow> nat" where
  "QueueLength wp = length (wp_taskQueue wp)"

definition QueueCapacity :: "'t WorkerPool \<Rightarrow> nat" where
  "QueueCapacity wp = wp_cap wp"

definition Workers :: "'t WorkerPool \<Rightarrow> nat" where
  "Workers wp = wp_workers wp"

section \<open>The pool as a transition system\<close>

datatype submit_kind = KSubmit | KSubmitCtx | KTrySubmit

datatype submit_phase = Checking | Sending

datatype stop_pc = NotStopping | Flagged | WantLock | AwaitWorkers | StopDone

text \<open>
  \<open>y_inflight\<close> are the submissions that hold the read lock; \<open>y_idle\<close>, \<open>y_busy\<close> and \<open>y_exited\<close>
  describe the worker goroutines; \<open>y_accepted\<close> and \<open>y_executed\<close> are the histories of accepted and
  of completed tasks; \<open>y_panicked\<close> is set by a send on a closed channel.
\<close>

record 't pool_sys =
  y_pool :: "'t WorkerPool"
  y_inflight :: "(submit_kind \<times> submit_phase \<times> 't) list"
  y_stop :: stop_pc
  y_idle :: nat
  y_busy :: "'t list"
  y_exited :: nat
  y_accepted :: "'t list"
  y_executed :: "'t list"
  y_panicked :: bool

definition sys_init :: "'t pool_sys \<Rightarrow> bool" where
  "sys_init s \<longleftrightarrow> (\<exists>numCPU w q. numCPU > 0 \<and> s = \<lparr>y_pool = NewWorkerPool numCPU w q, y_inflight = [],
     y_stop = NotStopping, y_idle = 0, y_busy = [], y_exited = 0, y_accepted = [], y_executed = [],
     y_panicked = False\<rparr>)"

text \<open>The effect of a submission's send on the system.\<close>

definition after_send :: "'t submit_result \<Rightarrow> 't \<Rightarrow> 't pool_sys \<Rightarrow> 't pool_sys" where
  "after_send r t s = (case r of
       Submitted wp \<Rightarrow> s\<lparr>y_pool := wp, y_accepted := y_accepted s @ [t]\<rparr>
     | SendPanics \<Rightarrow> s\<lparr>y_panicked := True\<rparr>
     | _ \<Rightarrow> s)"

inductive sys_step :: "'t pool_sys \<Rightarrow> 't pool_sys \<Rightarrow> bool" where
  start: "Start (y_pool s) = (wp, n) \<Longrightarrow>
     sys_step s (s\<lparr>y_pool := wp, y_idle := y_idle s + n\<rparr>)"
| submit_begin: "y_stop s \<noteq> WantLock \<Longrightarrow>
     sys_step s (s\<lparr>y_inflight := (k, Checking, t) # y_inflight s\<rparr>)"
| submit_refused: "y_inflight s = a @ (k, Checking, t) # b \<Longrightarrow> ctxDone = (k = KSubmitCtx \<and> cd) \<Longrightarrow>
     \<not> pre_check ctxDone (y_pool s) \<Longrightarrow> sys_step s (s\<lparr>y_inflight := a @ b\<rparr>)"
| submit_checked: "y_inflight s = a @ (k, Checking, t) # b \<Longrightarrow> pre_check False (y_pool s) \<Longrightarrow>
     sys_step s (s\<lparr>y_inflight := a @ (k, Sending, t) # b\<rparr>)"
| submit_select: "y_inflight s = a @ (k, Sending, t) # b \<Longrightarrow> k \<noteq> KTrySubmit \<Longrightarrow>
     ctxDone = (k = KSubmitCtx \<and> cd) \<Longrightarrow> r = send_or_wait pick ctxDone (y_pool s) t \<Longrightarrow> r \<noteq> Blocks \<Longrightarrow>
     sys_step s (after_send r t (s\<lparr>y_inflight := a @ b\<rparr>))"
| try_select: "y_inflight s = a @ (KTrySubmit, Sending, t) # b \<Longrightarrow>
     r = send_or_give_up (y_pool s) t \<Longrightarrow> sys_step s (after_send r t (s\<lparr>y_inflight := a @ b\<rparr>))"
| stop_called: "y_stop s = NotStopping \<Longrightarrow> stop_flag (y_pool s) = Some wp \<Longrightarrow>
     sys_step s (s\<lparr>y_pool := wp, y_stop := Flagged\<rparr>)"
| stop_cancels: "y_stop s = Flagged \<Longrightarrow>
     sys_step s (s\<lparr>y_pool := stop_cancel (y_pool s), y_stop := WantLock\<rparr>)"
| stop_closes: "y_stop s = WantLock \<Longrightarrow> y_inflight s = [] \<Longrightarrow>
     sys_step s (s\<lparr>y_pool := stop_close (y_pool s), y_stop := AwaitWorkers\<rparr>)"
| stop_returns: "y_stop s = AwaitWorkers \<Longrightarrow> y_idle s = 0 \<Longrightarrow> y_busy s = [] \<Longrightarrow>
     sys_step s (s\<lparr>y_stop := StopDone\<rparr>)"
| worker_takes: "y_idle s = Suc n \<Longrightarrow> wp_taskQueue (y_pool s) = t # ts \<Longrightarrow>
     sys_step s (s\<lparr>y_pool := (y_pool s)\<lparr>wp_taskQueue := ts\<rparr>, y_idle := n, y_busy := t # y_busy s\<rparr>)"
| worker_finishes: "y_busy s = a @ t # b \<Longrightarrow>
     sys_step s (s\<lparr>y_busy := a @ b, y_idle := Suc (y_idle s), y_executed := y_executed s @ [t]\<rparr>)"
| worker_exits: "y_idle s = Suc n \<Longrightarrow> wp_taskQueue (y_pool s) = [] \<Longrightarrow> wp_closed (y_pool s) \<Longrightarrow>
     sys_step s (s\<lparr>y_idle := n, y_exited := Suc (y_exited s)\<rparr>)"

section \<open>The invariant\<close>

definition no_sending :: "'t pool_sys \<Rightarrow> bool" where
  "no_sending s \<longleftrightarrow> (\<forall>(k, p, t) \<in> set (y_inflight s). p = Checking)"

definition stop_agrees :: "'t pool_sys \<Rightarrow> bool" where
  "stop_agrees s \<longleftrightarrow>
     (wp_stopped (y_pool s) \<longleftrightarrow> y_stop s \<noteq> NotStopping) \<and>
     (wp_cancelled (y_pool s) \<longleftrightarrow> y_stop s \<in> {WantLock, AwaitWorkers, StopDone}) \<and>
     (wp_closed (y_pool s) \<longleftrightarrow> y_stop s \<in> {AwaitWorkers, StopDone}) \<and>
     (wp_stopped (y_pool s) \<longrightarrow> wp_started (y_pool s))"

definition workers_agree :: "'t pool_sys \<Rightarrow> bool" where
  "workers_agree s \<longleftrightarrow> wp_workers (y_pool s) > 0 \<and>
     y_idle s + length (y_busy s) + y_exited s = (if wp_started (y_pool s) then wp_workers (y_pool s) else 0) \<and>
     (y_exited s > 0 \<longrightarrow> wp_closed (y_pool s) \<and> wp_taskQueue (y_pool s) = [])"

definition tasks_agree :: "'t pool_sys \<Rightarrow> bool" where
  "tasks_agree s \<longleftrightarrow>
     mset (y_accepted s) = mset (y_executed s) + mset (y_busy s) + mset (wp_taskQueue (y_pool s))"

definition pool_inv :: "'t pool_sys \<Rightarrow> bool" where
  "pool_inv s \<longleftrightarrow> \<not> y_panicked s \<and> stop_agrees s \<and> (wp_closed (y_pool s) \<longrightarrow> no_sending s)
     \<and> length (wp_taskQueue (y_pool s)) \<le> wp_cap (y_pool s) \<and> wp_cap (y_pool s) > 0
     \<and> workers_agree s \<and> tasks_agree s
     \<and> (y_stop s = StopDone \<longrightarrow> y_idle s = 0 \<and> y_busy s = [])"

lemmas pool_inv_defs = pool_inv_def stop_agrees_def workers_agree_def tasks_agree_def no_sending_def

section \<open>Lemmas\<close>

lemma NewWorkerPool_positive:
  "numCPU > 0 \<Longrightarrow> wp_workers (NewWorkerPool numCPU w q) > 0 \<and> wp_cap (NewWorkerPool numCPU w q) > 0"
  by (simp add: NewWorkerPool_def Let_def)

lemma pool_inv_init: "sys_init s \<Longrightarrow> pool_inv s"
  by (auto simp: sys_init_def pool_inv_defs NewWorkerPool_def Let_def)

lemma send_or_wait_cases:
  "\<not> wp_closed wp \<Longrightarrow> r = send_or_wait pick cd wp t \<Longrightarrow> r \<noteq> Blocks \<Longrightarrow>
   r = NotSubmitted \<or> (length (wp_taskQueue wp) < wp_cap wp
      \<and> r = Submitted (wp\<lparr>wp_taskQueue := wp_taskQueue wp @ [t]\<rparr>))"
  by (auto simp: send_or_wait_def send_ready_def send_task_def split: option.splits dest!: go_select_ready)

lemma send_or_give_up_cases:
  "\<not> wp_closed wp \<Longrightarrow> r = send_or_give_up wp t \<Longrightarrow>
   r = NotSubmitted \<or> (length (wp_taskQueue wp) < wp_cap wp
      \<and> r = Submitted (wp\<lparr>wp_taskQueue := wp_taskQueue wp @ [t]\<rparr>))"
  by (auto simp: send_or_give_up_def send_ready_def send_task_def)

text \<open>A send of an in-flight submission, blocking or not, keeps the invariant.\<close>

lemma pool_inv_send:
  assumes inv: "pool_inv s" and inflight: "y_inflight s = a @ (k, Sending, t) # b"
    and r: "\<not> wp_closed (y_pool s) \<Longrightarrow> r = NotSubmitted \<or>
      (length (wp_taskQueue (y_pool s)) < wp_cap (y_pool s)
       \<and> r = Submitted ((y_pool s)\<lparr>wp_taskQueue := wp_taskQueue (y_pool s) @ [t]\<rparr>))"
  shows "pool_inv (after_send r t (s\<lparr>y_inflight := a @ b\<rparr>))"
proof -
  have open_queue: "\<not> wp_closed (y_pool s)"
    using inv inflight by (auto simp: pool_inv_def no_sending_def)
  from r [OF open_queue] show ?thesis
  proof
    assume "r = NotSubmitted"
    then show ?thesis using inv inflight open_queue
      by (auto simp: after_send_def pool_inv_defs split: if_splits)
  next
    assume "length (wp_taskQueue (y_pool s)) < wp_cap (y_pool s)
      \<and> r = Submitted ((y_pool s)\<lparr>wp_taskQueue := wp_taskQueue (y_pool s) @ [t]\<rparr>)"
    then show ?thesis using inv inflight open_queue
      by (auto simp: after_send_def pool_inv_defs split: if_splits)
  qed
qed

lemma pool_inv_step: "sys_step s t \<Longrightarrow> pool_inv s \<Longrightarrow> pool_inv t"
proof (induction rule: sys_step.induct)
  case (submit_select s a k t b ctxDone cd r pick)
  show ?case
    by (rule pool_inv_send [OF submit_select.prems submit_select.hyps(1)])
       (rule send_or_wait_cases [OF _ submit_select.hyps(4,5)])
next
  case (try_select s a t b r)
  show ?case
    by (rule pool_inv_send [OF try_select.prems try_select.hyps(1)])
       (rule send_or_give_up_cases [OF _ try_select.hyps(2)])
qed (auto simp: Start_def stop_flag_def stop_cancel_def stop_close_def pre_check_def pool_inv_defs split: if_splits)

interpretation wpool: transition_system sys_init sys_step pool_inv
  by unfold_locales (auto intro: pool_inv_init pool_inv_step)

subsection \<open>Stop can complete\<close>

text \<open>Once \<open>Stop\<close> is under way, the work left before it returns.\<close>

definition stop_rank :: "stop_pc \<Rightarrow> nat" where
  "stop_rank p = (case p of NotStopping \<Rightarrow> 4 | Flagged \<Rightarrow> 3 | WantLock \<Rightarrow> 2 | AwaitWorkers \<Rightarrow> 1 | StopDone \<Rightarrow> 0)"

definition work_left :: "'t pool_sys \<Rightarrow> nat" where
  "work_left s = stop_rank (y_stop s) + 4 * length (y_inflight s)
     + 3 * length (wp_taskQueue (y_pool s)) + 2 * length (y_busy s) + y_idle s"

definition stopping :: "'t pool_sys \<Rightarrow> bool" where
  "stopping s \<longleftrightarrow> y_stop s \<in> {Flagged, WantLock, AwaitWorkers}"

lemma progressI:
  "sys_step s s' \<Longrightarrow> work_left s' < work_left s \<Longrightarrow> Q s' \<Longrightarrow>
   \<exists>s'. sys_step s s' \<and> work_left s' < work_left s \<and> Q s'"
  by blast

lemma inflight_leaves:
  assumes "pool_inv s" and "y_stop s = WantLock" and "y_inflight s = (k, p, t) # b"
  shows "\<exists>s'. sys_step s s' \<and> work_left s' < work_left s \<and> y_stop s' = WantLock"
proof -
  have c: "wp_cancelled (y_pool s)" and o: "\<not> wp_closed (y_pool s)"
    using assms by (auto simp: pool_inv_def stop_agrees_def)
  consider (check) "p = Checking" | (wait) "p = Sending" "k \<noteq> KTrySubmit" | (give_up) "p = Sending" "k = KTrySubmit"
    by (cases p) auto
  then show ?thesis
  proof cases
    case check
    have "sys_step s (s\<lparr>y_inflight := [] @ b\<rparr>)"
      using assms(3) check c by (intro sys_step.submit_refused [where k = k and t = t and cd = False])
        (auto simp: pre_check_def)
    then show ?thesis by (rule progressI) (simp_all add: assms work_left_def)
  next
    case wait
    let ?cs = "[(send_ready (y_pool s), send_task (y_pool s) t), (wp_cancelled (y_pool s), NotSubmitted),
      (k = KSubmitCtx \<and> False, NotSubmitted)]"
    have "(True, NotSubmitted) \<in> set ?cs" using c by simp
    from go_select_can_pick [OF this] obtain pick where "go_select pick ?cs = Some NotSubmitted" ..
    then have r: "send_or_wait pick (k = KSubmitCtx \<and> False) (y_pool s) t = NotSubmitted"
      unfolding send_or_wait_def by (simp only: option.simps)
    have "sys_step s (after_send NotSubmitted t (s\<lparr>y_inflight := [] @ b\<rparr>))"
      using assms(3) wait r
      by (intro sys_step.submit_select [where k = k and cd = False and pick = pick]) auto
    then show ?thesis by (rule progressI) (simp_all add: assms work_left_def after_send_def)
  next
    case give_up
    let ?r = "send_or_give_up (y_pool s) t"
    have "sys_step s (after_send ?r t (s\<lparr>y_inflight := [] @ b\<rparr>))"
      using assms(3) give_up by (intro sys_step.try_select) auto
    then show ?thesis
      using send_or_give_up_cases [OF o refl, of t]
      by (elim progressI) (auto simp: assms work_left_def after_send_def)
  qed
qed

lemma workers_leave:
  assumes "wp_closed (y_pool s)" and await: "y_stop s = AwaitWorkers"
  shows "\<exists>s'. sys_step s s' \<and> work_left s' < work_left s \<and> (stopping s' \<or> y_stop s' = StopDone)"
proof -
  consider (gone) "y_idle s = 0" "y_busy s = []" | (busy) t b where "y_busy s = [] @ t # b"
    | (leaves) n where "y_idle s = Suc n" "wp_taskQueue (y_pool s) = []"
    | (takes) n t ts where "y_idle s = Suc n" "wp_taskQueue (y_pool s) = t # ts"
    by (cases "y_busy s"; cases "y_idle s"; cases "wp_taskQueue (y_pool s)") auto
  then show ?thesis
  proof cases
    case gone
    then show ?thesis
      by (intro progressI [OF sys_step.stop_returns [OF await gone]]) (auto simp: await work_left_def stop_rank_def)
  next
    case busy
    then show ?thesis
      by (intro progressI [OF sys_step.worker_finishes [OF busy]]) (auto simp: await work_left_def stopping_def)
  next
    case leaves
    then show ?thesis
      by (intro progressI [OF sys_step.worker_exits [OF leaves assms(1)]]) (auto simp: await work_left_def stopping_def)
  next
    case takes
    then show ?thesis
      by (intro progressI [OF sys_step.worker_takes [OF takes]]) (auto simp: await work_left_def stopping_def)
  qed
qed

lemma stop_progress:
  assumes "pool_inv s" and "stopping s"
  shows "\<exists>s'. sys_step s s' \<and> work_left s' < work_left s \<and> (stopping s' \<or> y_stop s' = StopDone)"
proof -
  consider (cancel) "y_stop s = Flagged" | (lock) "y_stop s = WantLock" | (await) "y_stop s = AwaitWorkers"
    using assms(2) by (auto simp: stopping_def)
  then show ?thesis
  proof cases
    case cancel
    then show ?thesis
      by (intro progressI [OF sys_step.stop_cancels [OF cancel]]) (auto simp: cancel work_left_def stop_rank_def stopping_def stop_cancel_def)
  next
    case lock
    show ?thesis
    proof (cases "y_inflight s")
      case Nil
      then show ?thesis
        by (intro progressI [OF sys_step.stop_closes [OF lock Nil]]) (auto simp: lock work_left_def stop_rank_def stopping_def stop_close_def)
    next
      case (Cons x b)
      then show ?thesis using inflight_leaves [OF assms(1) lock] by (cases x) (auto simp: stopping_def)
    qed
  next
    case await
    with assms(1) have "wp_closed (y_pool s)" by (simp add: pool_inv_def stop_agrees_def)
    then show ?thesis using await by (rule workers_leave)
  qed
qed

lemma stop_completes:
  "pool_inv s \<Longrightarrow> stopping s \<or> y_stop s = StopDone \<Longrightarrow> \<exists>t. sys_step\<^sup>*\<^sup>* s t \<and> y_stop t = StopDone"
proof (induction "work_left s" arbitrary: s rule: less_induct)
  case less
  show ?case
  proof (cases "y_stop s = StopDone")
    case True
    then show ?thesis by blast
  next
    case False
    with less.prems(2) have "stopping s" by simp
    from stop_progress [OF less.prems(1) this] obtain s' where
      s': "sys_step s s'" "work_left s' < work_left s" "stopping s' \<or> y_stop s' = StopDone" by blast
    from less.hyps [OF s'(2) pool_inv_step [OF s'(1) less.prems(1)] s'(3)] s'(1) show ?thesis
      by (meson converse_rtranclp_into_rtranclp)
  qed
qed

section \<open>Properties\<close>

text \<open>C24. No submission ever sends on the closed task queue: in every reachable state of the pool,
  under every interleaving of submissions with \<open>Stop\<close>, no goroutine has panicked, and once the queue
  is closed no submission is past its cancellation check.\<close>

theorem no_send_on_closed_queue:
  assumes "sys_init s0" and "sys_step\<^sup>*\<^sup>* s0 s"
  shows "\<not> y_panicked s \<and> (wp_closed (y_pool s) \<longrightarrow> no_sending s)"
  using wpool.inv_reachable [OF assms] by (simp add: pool_inv_def)

text \<open>A concrete run: a pool is created, started, a task is submitted, and the pool is stopped.\<close>

definition sys0 :: "nat pool_sys" where
  "sys0 = \<lparr>y_pool = NewWorkerPool 1 1 1, y_inflight = [], y_stop = NotStopping, y_idle = 0,
     y_busy = [], y_exited = 0, y_accepted = [], y_executed = [], y_panicked = False\<rparr>"

definition sys_run :: "nat pool_sys" where
  "sys_run = sys0\<lparr>y_pool := (NewWorkerPool 1 1 1)\<lparr>wp_started := True, wp_stopped := True,
     wp_taskQueue := [7]\<rparr>, y_idle := 1, y_accepted := [7], y_stop := Flagged\<rparr>"

lemma sys0_init: "sys_init sys0"
  unfolding sys_init_def sys0_def by (intro exI [of _ 1] exI [of _ "1::int"]) simp

lemmas sys0_simps = sys0_def sys_run_def NewWorkerPool_def Let_def

lemma sys_run_reachable: "sys_step\<^sup>*\<^sup>* sys0 sys_run"
proof -
  let ?wp = "(NewWorkerPool 1 1 1 :: nat WorkerPool)\<lparr>wp_started := True\<rparr>"
  let ?s1 = "sys0\<lparr>y_pool := ?wp, y_idle := 1\<rparr>"
  let ?s2 = "?s1\<lparr>y_inflight := [(KTrySubmit, Checking, 7)]\<rparr>"
  let ?s3 = "?s1\<lparr>y_inflight := [(KTrySubmit, Sending, 7)]\<rparr>"
  let ?s4 = "?s1\<lparr>y_pool := ?wp\<lparr>wp_taskQueue := [7]\<rparr>, y_accepted := [7]\<rparr>"
  have "sys_step sys0 ?s1"
    using sys_step.start [of sys0 ?wp 1] by (simp add: Start_def sys0_simps)
  moreover have "sys_step ?s1 ?s2"
    using sys_step.submit_begin [of ?s1 KTrySubmit 7] by (simp add: sys0_simps)
  moreover have "sys_step ?s2 ?s3"
    using sys_step.submit_checked [of ?s2 "[]" KTrySubmit 7 "[]"] by (simp add: sys0_simps pre_check_def)
  moreover have "sys_step ?s3 ?s4"
    using sys_step.try_select [of ?s3 "[]" 7 "[]"]
    by (simp add: sys0_simps send_or_give_up_def send_ready_def send_task_def after_send_def)
  moreover have "sys_step ?s4 sys_run"
    using sys_step.stop_called [of ?s4 "?wp\<lparr>wp_taskQueue := [7], wp_stopped := True\<rparr>"]
    by (simp add: sys0_simps stop_flag_def)
  ultimately show ?thesis
    by (meson converse_rtranclp_into_rtranclp rtranclp.rtrancl_refl)
qed

theorem no_send_on_closed_queue_witness:
  "sys_step\<^sup>*\<^sup>* sys0 sys_run \<and> \<not> y_panicked sys_run"
  using no_send_on_closed_queue [OF sys0_init sys_run_reachable] sys_run_reachable by blast

text \<open>The queue never exceeds its capacity and no accepted task is lost or run twice: at every
  moment the accepted tasks are exactly the executed, the running and the queued ones.\<close>

theorem pool_bounded_no_loss:
  assumes "sys_init s0" and "sys_step\<^sup>*\<^sup>* s0 s"
  shows "QueueLength (y_pool s) \<le> QueueCapacity (y_pool s) \<and>
    mset (y_accepted s) = mset (y_executed s) + mset (y_busy s) + mset (wp_taskQueue (y_pool s))"
  using wpool.inv_reachable [OF assms]
  by (simp add: pool_inv_def tasks_agree_def QueueLength_def QueueCapacity_def)

theorem pool_bounded_no_loss_witness: "QueueLength (y_pool sys_run) \<le> QueueCapacity (y_pool sys_run)"
  using pool_bounded_no_loss [OF sys0_init sys_run_reachable] by blast

text \<open>C25. \<open>Stop\<close> never deadlocks: from every reachable state in which it is under way, with
  submissions blocked on the full queue, tasks queued and workers busy, it can run to its return, and
  whenever it has returned every task the pool ever accepted has been executed.\<close>

theorem stop_drains:
  assumes "sys_init s0" and "sys_step\<^sup>*\<^sup>* s0 s" and "y_stop s \<noteq> NotStopping"
  shows "(\<exists>t. sys_step\<^sup>*\<^sup>* s t \<and> y_stop t = StopDone) \<and>
    (y_stop s = StopDone \<longrightarrow> mset (y_executed s) = mset (y_accepted s))"
proof
  have inv: "pool_inv s" by (rule wpool.inv_reachable [OF assms(1,2)])
  from assms(3) have "stopping s \<or> y_stop s = StopDone"
    by (cases "y_stop s") (simp_all add: stopping_def)
  with inv show "\<exists>t. sys_step\<^sup>*\<^sup>* s t \<and> y_stop t = StopDone" by (rule stop_completes)
  show "y_stop s = StopDone \<longrightarrow> mset (y_executed s) = mset (y_accepted s)"
    using inv by (auto simp: pool_inv_defs split: if_splits)
qed

theorem stop_drains_witness:
  "\<exists>t. sys_step\<^sup>*\<^sup>* sys_run t \<and> y_stop t = StopDone"
  using stop_drains [OF sys0_init sys_run_reachable] by (simp add: sys_run_def)

text \<open>Once the pool's context is cancelled every submission method refuses the task at once; before
  that, \<open>TrySubmit\<close> accepts exactly when the queue has room and \<open>Submit\<close> blocks exactly when it does
  not.\<close>

theorem submit_outcomes:
  assumes "\<not> wp_closed wp"
  shows "if wp_cancelled wp
     then Submit pick wp t = NotSubmitted \<and> TrySubmit wp t = NotSubmitted
        \<and> SubmitWithContext pick cd wp t = NotSubmitted
     else if QueueLength wp < QueueCapacity wp
     then Submit pick wp t = Submitted (wp\<lparr>wp_taskQueue := wp_taskQueue wp @ [t]\<rparr>)
        \<and> TrySubmit wp t = Submitted (wp\<lparr>wp_taskQueue := wp_taskQueue wp @ [t]\<rparr>)
     else Submit pick wp t = Blocks \<and> TrySubmit wp t = NotSubmitted"
  using assms
  by (auto simp: Submit_def TrySubmit_def SubmitWithContext_def pre_check_def send_or_wait_def
      send_or_give_up_def send_ready_def send_task_def go_select_def QueueLength_def QueueCapacity_def)

theorem submit_outcomes_witness:
  "Submit 0 ((NewWorkerPool 1 1 1)\<lparr>wp_taskQueue := [7 :: nat]\<rparr>) 8 = Blocks"
  using submit_outcomes [of "(NewWorkerPool 1 1 1)\<lparr>wp_taskQueue := [7 :: nat]\<rparr>" 0 8]
  by (simp add: NewWorkerPool_def QueueLength_def QueueCapacity_def)

end
