(* ===== verification/Metrics.thy ===== *)
theory Metrics
  imports Go_Types Complex_Main
begin

text \<open>
  \<open>metrics.go\<close>, \<open>metrics_otel.go\<close>: the metrics recorder. The interface \<open>metricsRecorder\<close> is one
  value per recording method; the components emit such values in order. The two recorders, no-op and
  OpenTelemetry, turn each value into the data points they record. The OpenTelemetry library decides
  which instruments can be created; that decision is a parameter.
\<close>

section \<open>The recorder interface\<close>

text \<open>One constructor per counter and histogram method of the interface; durations in nanoseconds.\<close>

datatype metric =
    MessageReceived string string
  | CallbackInvocation string
  | CallbackPanic string
  | SubscriptionAttempt string bool
  | ConnectionCreated string
  | ConnectionFailed string string
  | MigrationStarted
  | MigrationCompleted
  | MigrationStalled
  | MigrationTimeout
  | TopologyRefresh bool
  | WorkerPoolSubmission bool
  | WorkerPoolDropped
  | SubscriptionQueueDropped
  | CallbackLatency string int
  | MessageLatency string int
  | MigrationDuration int
  | TopologyRefreshLatency int
  | WorkerPoolQueueWait int
  | SubscriptionQueueDepth int

datatype attr_value = AString string | ABool bool

text \<open>A data point: the instrument, the value added or recorded, and the attributes.\<close>

datatype point_value = Add int | Record rat

record point =
  p_instrument :: string
  p_value :: point_value
  p_attrs :: "(string \<times> attr_value) list"

section \<open>The no-op recorder\<close>

definition noop_record :: "metric \<Rightarrow> point list" where
  "noop_record m = []"

section \<open>The OpenTelemetry recorder\<close>

definition counterNames :: "string list" where
  "counterNames =
     [''submux.messages.received'', ''submux.callbacks.invoked'', ''submux.callbacks.panics'',
      ''submux.subscriptions.attempts'', ''submux.connections.created'', ''submux.connections.failed'',
      ''submux.migrations.started'', ''submux.migrations.completed'', ''submux.migrations.stalled'',
      ''submux.migrations.timeout'', ''submux.topology.refreshes'', ''submux.workerpool.submissions'',
      ''submux.workerpool.dropped'', ''submux.subscriptions.queue_dropped'']"

definition histogramNames :: "string list" where
  "histogramNames =
     [''submux.callbacks.latency'', ''submux.messages.latency'', ''submux.migrations.duration'',
      ''submux.topology.refresh_latency'', ''submux.workerpool.queue_wait'',
      ''submux.subscriptions.queue_depth'']"

text \<open>
  \<open>newOtelMetrics\<close> keeps the instruments the meter could create; the field of any other instrument
  stays nil and its recording method does nothing.
\<close>

definition newOtelMetrics :: "(string \<Rightarrow> bool) \<Rightarrow> string list" where
  "newOtelMetrics creates = filter creates (counterNames @ histogramNames)"

text \<open>\<open>duration.Seconds() * 1000\<close>, and \<open>float64(duration.Microseconds()) / 1000.0\<close>, which truncates
  to whole microseconds first. Floating-point rounding is not modelled.\<close>

definition seconds_ms :: "int \<Rightarrow> rat" where
  "seconds_ms ns = of_int ns / 1000000"

definition microseconds_ms :: "int \<Rightarrow> rat" where
  "microseconds_ms ns = of_int (sgn ns * (\<bar>ns\<bar> div 1000)) / 1000"

definition subType_attr :: "string \<Rightarrow> string \<times> attr_value" where
  "subType_attr st = (''subscription_type'', AString st)"

definition node_attr :: "string \<Rightarrow> string \<times> attr_value" where
  "node_attr n = (''node_address'', AString n)"

fun otel_point :: "metric \<Rightarrow> point" where
  "otel_point (MessageReceived st n) =
     \<lparr>p_instrument = ''submux.messages.received'', p_value = Add 1, p_attrs = [subType_attr st, node_attr n]\<rparr>"
| "otel_point (CallbackInvocation st) =
     \<lparr>p_instrument = ''submux.callbacks.invoked'', p_value = Add 1, p_attrs = [subType_attr st]\<rparr>"
| "otel_point (CallbackPanic st) =
     \<lparr>p_instrument = ''submux.callbacks.panics'', p_value = Add 1, p_attrs = [subType_attr st]\<rparr>"
| "otel_point (SubscriptionAttempt st ok) =
     \<lparr>p_instrument = ''submux.subscriptions.attempts'', p_value = Add 1,
      p_attrs = [subType_attr st, (''success'', ABool ok)]\<rparr>"
| "otel_point (ConnectionCreated n) =
     \<lparr>p_instrument = ''submux.connections.created'', p_value = Add 1, p_attrs = [node_attr n]\<rparr>"
| "otel_point (ConnectionFailed n e) =
     \<lparr>p_instrument = ''submux.connections.failed'', p_value = Add 1,
      p_attrs = [node_attr n, (''error_type'', AString e)]\<rparr>"
| "otel_point MigrationStarted =
     \<lparr>p_instrument = ''submux.migrations.started'', p_value = Add 1, p_attrs = []\<rparr>"
| "otel_point MigrationCompleted =
     \<lparr>p_instrument = ''submux.migrations.completed'', p_value = Add 1, p_attrs = []\<rparr>"
| "otel_point MigrationStalled =
     \<lparr>p_instrument = ''submux.migrations.stalled'', p_value = Add 1, p_attrs = []\<rparr>"
| "otel_point MigrationTimeout =
     \<lparr>p_instrument = ''submux.migrations.timeout'', p_value = Add 1, p_attrs = []\<rparr>"
| "otel_point (TopologyRefresh ok) =
     \<lparr>p_instrument = ''submux.topology.refreshes'', p_value = Add 1, p_attrs = [(''success'', ABool ok)]\<rparr>"
| "otel_point (WorkerPoolSubmission b) =
     \<lparr>p_instrument = ''submux.workerpool.submissions'', p_value = Add 1, p_attrs = [(''blocked'', ABool b)]\<rparr>"
| "otel_point WorkerPoolDropped =
     \<lparr>p_instrument = ''submux.workerpool.dropped'', p_value = Add 1, p_attrs = []\<rparr>"
| "otel_point SubscriptionQueueDropped =
     \<lparr>p_instrument = ''submux.subscriptions.queue_dropped'', p_value = Add 1, p_attrs = []\<rparr>"
| "otel_point (CallbackLatency st d) =
     \<lparr>p_instrument = ''submux.callbacks.latency'', p_value = Record (seconds_ms d), p_attrs = [subType_attr st]\<rparr>"
| "otel_point (MessageLatency st d) =
     \<lparr>p_instrument = ''submux.messages.latency'', p_value = Record (seconds_ms d), p_attrs = [subType_attr st]\<rparr>"
| "otel_point (MigrationDuration d) =
     \<lparr>p_instrument = ''submux.migrations.duration'', p_value = Record (seconds_ms d), p_attrs = []\<rparr>"
| "otel_point (TopologyRefreshLatency d) =
     \<lparr>p_instrument = ''submux.topology.refresh_latency'', p_value = Record (seconds_ms d), p_attrs = []\<rparr>"
| "otel_point (WorkerPoolQueueWait d) =
     \<lparr>p_instrument = ''submux.workerpool.queue_wait'', p_value = Record (microseconds_ms d), p_attrs = []\<rparr>"
| "otel_point (SubscriptionQueueDepth n) =
     \<lparr>p_instrument = ''submux.subscriptions.queue_depth'', p_value = Record (of_int n), p_attrs = []\<rparr>"

definition otel_record :: "string list \<Rightarrow> metric \<Rightarrow> point list" where
  "otel_record created m =
     (let p = otel_point m in if p_instrument p \<in> set created then [p] else [])"

text \<open>\<open>newMetricsRecorder\<close>: the no-op recorder without a provider, OpenTelemetry with one.\<close>

definition newMetricsRecorder :: "(string \<Rightarrow> bool) option \<Rightarrow> metric \<Rightarrow> point list" where
  "newMetricsRecorder provider =
     (case provider of None \<Rightarrow> noop_record | Some creates \<Rightarrow> otel_record (newOtelMetrics creates))"

section \<open>The contract of a recorder\<close>

text \<open>The attribute keys that are allowed: none of them can carry a channel name, a pattern or a hashslot.\<close>

definition allowedKeys :: "string list" where
  "allowedKeys = [''subscription_type'', ''node_address'', ''success'', ''error_type'', ''blocked'']"

definition safe_point :: "point \<Rightarrow> bool" where
  "safe_point p \<longleftrightarrow> set (map fst (p_attrs p)) \<subseteq> set allowedKeys"

text \<open>A counter adds one, a histogram records a value, and the instrument is one of the twenty.\<close>

definition well_typed_point :: "point \<Rightarrow> bool" where
  "well_typed_point p \<longleftrightarrow> (case p_value p of
       Add n \<Rightarrow> n = 1 \<and> p_instrument p \<in> set counterNames
     | Record _ \<Rightarrow> p_instrument p \<in> set histogramNames)"

locale metricsRecorder =
  fixes rec :: "metric \<Rightarrow> point list"
  assumes one_point: "length (rec m) \<le> 1"
    and points_safe: "p \<in> set (rec m) \<Longrightarrow> safe_point p \<and> well_typed_point p"
begin

text \<open>Recording a whole trace: at most one point per event, every point safe and well typed.\<close>

lemma trace_points: "length (concat (map rec ms)) \<le> length ms"
proof (induction ms)
  case (Cons m ms)
  then show ?case using one_point [of m] by simp
qed simp

lemma trace_safe: "p \<in> set (concat (map rec ms)) \<Longrightarrow> safe_point p \<and> well_typed_point p"
  using points_safe by auto

end

section \<open>Lemmas\<close>

lemma otel_point_safe: "safe_point (otel_point m)"
  by (cases m) (simp_all add: safe_point_def allowedKeys_def subType_attr_def node_attr_def)

lemma otel_point_well_typed: "well_typed_point (otel_point m)"
  by (cases m) (simp_all add: well_typed_point_def counterNames_def histogramNames_def)

interpretation noop: metricsRecorder noop_record
  by unfold_locales (simp_all add: noop_record_def)

interpretation otel: metricsRecorder "otel_record created" for created
  by unfold_locales
     (auto simp: otel_record_def Let_def otel_point_safe otel_point_well_typed split: if_splits)

section \<open>Properties\<close>

text \<open>Whatever the configured provider, a trace of recorded events yields at most one data point per
  event, and every data point uses only low-cardinality attribute keys (no channel, pattern or hashslot)
  and the right kind of instrument.\<close>

theorem recorder_cardinality_safe:
  "length (concat (map (newMetricsRecorder provider) ms)) \<le> length ms \<and>
   list_all (\<lambda>p. safe_point p \<and> well_typed_point p) (concat (map (newMetricsRecorder provider) ms))"
proof (cases provider)
  case None
  then show ?thesis
    using noop.trace_points noop.trace_safe unfolding newMetricsRecorder_def list_all_iff by auto
next
  case (Some creates)
  then show ?thesis
    using otel.trace_points [of "newOtelMetrics creates" ms] otel.trace_safe [of _ "newOtelMetrics creates" ms]
    unfolding newMetricsRecorder_def list_all_iff by auto
qed

end
