(* ===== verification/Callback.thy ===== *)
theory Callback
  imports Metrics
begin

text \<open>
  \<open>callback.go\<close>: running one callback with metrics and panic recovery. The user's callback is a
  parameter that returns or panics; clock readings are parameters.
\<close>

datatype callback_outcome = Returns | Panics string

definition callback_subType :: "Message option \<Rightarrow> string" where
  "callback_subType msg =
     (case msg of None \<Rightarrow> ''unknown'' | Some m \<Rightarrow> String_subType (msg_SubscriptionType m))"

text \<open>
  The result is the sequence of recorded metrics, with the invocation of the callback between the
  message latency and the callback latency; the deferred function records the latency and then, after
  recovering from a panic, the panic. The function itself always returns.
\<close>

definition executeCallback ::
  "(Message option \<Rightarrow> callback_outcome) \<Rightarrow> int \<Rightarrow> int \<Rightarrow> int \<Rightarrow> Message option \<Rightarrow> metric list" where
  "executeCallback callback start invoked finished msg =
     (let subType = callback_subType msg;
          latency = (case msg of
                       None \<Rightarrow> []
                     | Some m \<Rightarrow> if msg_Timestamp m \<noteq> 0
                                then [MessageLatency subType (invoked - msg_Timestamp m)] else [])
      in [CallbackInvocation subType] @ latency @ [CallbackLatency subType (finished - start)]
         @ (case callback msg of Returns \<Rightarrow> [] | Panics _ \<Rightarrow> [CallbackPanic subType]))"

section \<open>Properties\<close>

text \<open>A panicking callback is contained: \<open>executeCallback\<close> returns in every case, records exactly one
  invocation and one latency, and records one panic exactly when the callback panicked.\<close>

theorem executeCallback_metrics:
  "let ms = executeCallback callback start invoked finished msg; st = callback_subType msg in
   filter (\<lambda>m. m = CallbackInvocation st) ms = [CallbackInvocation st] \<and>
   filter (\<lambda>m. m = CallbackLatency st (finished - start)) ms = [CallbackLatency st (finished - start)] \<and>
   (CallbackPanic st \<in> set ms \<longleftrightarrow> (\<exists>e. callback msg = Panics e)) \<and>
   length (filter (\<lambda>m. m = CallbackPanic st) ms) \<le> 1"
  by (cases "callback msg") (auto simp: executeCallback_def Let_def split: option.splits)

end
