(* ===== verification/Sequencer.thy ===== *)
theory Sequencer
  imports Ring_Buffer Worker_Pool Callback
begin

text \<open>
  \<open>sequencer.go\<close>: ordered, one-at-a-time callback delivery for one subscription on top of the shared
  worker pool. \<open>enqueue_locked\<close> and \<open>drain_locked\<close> are the critical sections of \<open>enqueue\<close> and of the
  drain loop; \<open>enqueue\<close> adds the hand-over of the drain task to the pool. The interleavings of any
  number of enqueuing goroutines with drain tasks are a transition system over these sections.
\<close>

section \<open>The source's type and methods\<close>

record callbackSequencer =
  s_queue :: pendingCallbackRing
  s_active :: bool
  s_maxQueueSize :: int
  s_overflowing :: bool
  s_dropCount :: int

definition newSequencer :: "int \<Rightarrow> callbackSequencer" where
  "newSequencer limit = \<lparr>s_queue = zeroRing, s_active = False, s_maxQueueSize = limit,
     s_overflowing = False, s_dropCount = 0\<rparr>"

definition overflowSignal :: "int \<Rightarrow> Message \<Rightarrow> int \<Rightarrow> Message" where
  "overflowSignal now msg droppedSoFar =
     \<lparr>msg_Type = MessageTypeSignal, msg_Channel = msg_Channel msg, msg_Payload = [], msg_Pattern = [],
      msg_Signal = Some \<lparr>sig_EventType = EventQueueOverflow, sig_Hashslot = 0, sig_OldNode = [],
        sig_NewNode = [], sig_Details = ''subscription queue full, messages being dropped'',
        sig_DroppedCount = droppedSoFar\<rparr>,
      msg_Timestamp = now, msg_SubscriptionType = msg_SubscriptionType msg\<rparr>"

text \<open>What the critical section of \<open>enqueue\<close> decides: drop (with the overflow signal, if one is to be
  sent), leave the message to the running drain task, or start a drain task.\<close>

datatype enqueue_decision = Drop "Message option" | Queued | StartDrain

definition enqueue_locked ::
  "int \<Rightarrow> Message \<Rightarrow> callbackSequencer \<Rightarrow> (callbackSequencer \<times> enqueue_decision \<times> metric list) option" where
  "enqueue_locked now msg s =
     (let s0 = (if r_buf (s_queue s) = []
                then s\<lparr>s_queue := initRing (s_maxQueueSize s) (s_queue s)\<rparr> else s);
          depth = len_ring (s_queue s0);
          m0 = [SubscriptionQueueDepth (int depth)]
      in if s_maxQueueSize s0 > 0 \<and> int depth \<ge> s_maxQueueSize s0
         then (let droppedSoFar = s_dropCount s0 + 1;
                   signal = (if s_overflowing s0 then None else Some (overflowSignal now msg droppedSoFar))
               in Some (s0\<lparr>s_dropCount := droppedSoFar, s_overflowing := True\<rparr>, Drop signal,
                        m0 @ [SubscriptionQueueDropped]))
         else (let s1 = (if s_overflowing s0 then s0\<lparr>s_overflowing := False, s_dropCount := 0\<rparr> else s0)
               in case push \<lparr>pc_msg = Some msg, pc_enqueuedAt = now\<rparr> (s_queue s1) of
                    None \<Rightarrow> None
                  | Some (q, _) \<Rightarrow>
                      (let s2 = s1\<lparr>s_queue := q\<rparr>
                       in if s_active s2 then Some (s2, Queued, m0)
                          else Some (s2\<lparr>s_active := True\<rparr>, StartDrain, m0))))"

text \<open>How the drain task got started: queued without blocking, queued after \<open>Submit\<close>, run in a fallback
  goroutine, or still blocked in \<open>Submit\<close>.\<close>

datatype drain_start = ByTrySubmit | BySubmit | ByGoroutine | BlockedInSubmit

definition start_drain ::
  "nat \<Rightarrow> 't WorkerPool option \<Rightarrow> 't \<Rightarrow> ('t WorkerPool option \<times> drain_start \<times> metric list) option" where
  "start_drain pick pool drainFn =
     (case pool of
        None \<Rightarrow> Some (None, ByGoroutine, [])
      | Some wp \<Rightarrow>
          (case TrySubmit wp drainFn of
             Submitted wp' \<Rightarrow> Some (Some wp', ByTrySubmit, [WorkerPoolSubmission False])
           | SendPanics \<Rightarrow> None
           | _ \<Rightarrow>
               (case Submit pick wp drainFn of
                  Submitted wp' \<Rightarrow> Some (Some wp', BySubmit, [WorkerPoolSubmission True])
                | NotSubmitted \<Rightarrow> Some (Some wp, ByGoroutine, [WorkerPoolDropped])
                | Blocks \<Rightarrow> Some (Some wp, BlockedInSubmit, [])
                | SendPanics \<Rightarrow> None)))"

text \<open>The whole method: the new sequencer and pool, the overflow signal to deliver in its own goroutine,
  the way a drain task was started (if one was), the metrics, and the additions to \<open>callbackWg\<close>.\<close>

record 't enqueue_result =
  e_seq :: callbackSequencer
  e_pool :: "'t WorkerPool option"
  e_signal :: "Message option"
  e_drain :: "drain_start option"
  e_metrics :: "metric list"
  e_wgAdds :: nat

definition enqueue ::
  "nat \<Rightarrow> int \<Rightarrow> 't WorkerPool option \<Rightarrow> 't \<Rightarrow> Message \<Rightarrow> callbackSequencer \<Rightarrow> 't enqueue_result option" where
  "enqueue pick now pool drainFn msg s =
     (case enqueue_locked now msg s of
        None \<Rightarrow> None
      | Some (s', Drop signal, ms) \<Rightarrow>
          Some \<lparr>e_seq = s', e_pool = pool, e_signal = signal, e_drain = None, e_metrics = ms,
                e_wgAdds = (if signal = None then 0 else 1)\<rparr>
      | Some (s', Queued, ms) \<Rightarrow>
          Some \<lparr>e_seq = s', e_pool = pool, e_signal = None, e_drain = None, e_metrics = ms, e_wgAdds = 0\<rparr>
      | Some (s', StartDrain, ms) \<Rightarrow>
          (case start_drain pick pool drainFn of
             None \<Rightarrow> None
           | Some (pool', how, ms') \<Rightarrow>
               Some \<lparr>e_seq = s', e_pool = pool', e_signal = None, e_drain = Some how,
                     e_metrics = ms @ ms', e_wgAdds = (if how = ByGoroutine then 1 else 0)\<rparr>))"

text \<open>The critical section of the drain loop: take the next item, or clear \<open>active\<close> and return.\<close>

definition drain_locked ::
  "callbackSequencer \<Rightarrow> (callbackSequencer \<times> pendingCallback option) option" where
  "drain_locked s =
     (if len_ring (s_queue s) = 0 then Some (s\<lparr>s_active := False\<rparr>, None)
      else (case pop (s_queue s) of
              None \<Rightarrow> None
            | Some (q, item, _) \<Rightarrow> Some (s\<lparr>s_queue := q\<rparr>, Some item)))"

lemma drain_locked_decreases:
  "drain_locked s = Some (s', Some item) \<Longrightarrow> r_count (s_queue s') < r_count (s_queue s)"
  by (auto simp: drain_locked_def pop_def len_ring_def split: if_splits)

text \<open>The drain function when no message arrives meanwhile: the items whose callbacks it executes.\<close>

function drainFn :: "callbackSequencer \<Rightarrow> (callbackSequencer \<times> pendingCallback list) option" where
  "drainFn s =
     (case drain_locked s of
        None \<Rightarrow> None
      | Some (s', None) \<Rightarrow> Some (s', [])
      | Some (s', Some item) \<Rightarrow> map_option (\<lambda>(s'', items). (s'', item # items)) (drainFn s'))"
  by pat_completeness auto
termination
  by (relation "measure (\<lambda>s. r_count (s_queue s))") (auto dest: drain_locked_decreases)

declare drainFn.simps [simp del]

section \<open>The sequencer as a transition system\<close>

text \<open>A drain task is about to enter the loop's critical section or executes one callback.\<close>

datatype drain_task = AtLock | Executing pendingCallback

record seq_sys =
  q_seq :: callbackSequencer
  q_drains :: "drain_task list"
  q_accepted :: "pendingCallback list"
  q_delivered :: "pendingCallback list"
  q_dropped :: nat
  q_signals :: "Message list"

definition seq_init :: "seq_sys \<Rightarrow> bool" where
  "seq_init s \<longleftrightarrow> (\<exists>limit. s = \<lparr>q_seq = newSequencer limit, q_drains = [], q_accepted = [],
     q_delivered = [], q_dropped = 0, q_signals = []\<rparr>)"

inductive seq_step :: "seq_sys \<Rightarrow> seq_sys \<Rightarrow> bool" where
  enq_drop: "enqueue_locked now msg (q_seq s) = Some (sq, Drop signal, ms) \<Longrightarrow>
     seq_step s (s\<lparr>q_seq := sq, q_dropped := Suc (q_dropped s),
       q_signals := q_signals s @ (case signal of None \<Rightarrow> [] | Some m \<Rightarrow> [m])\<rparr>)"
| enq_queued: "enqueue_locked now msg (q_seq s) = Some (sq, Queued, ms) \<Longrightarrow>
     seq_step s (s\<lparr>q_seq := sq, q_accepted := q_accepted s @ [\<lparr>pc_msg = Some msg, pc_enqueuedAt = now\<rparr>]\<rparr>)"
| enq_start: "enqueue_locked now msg (q_seq s) = Some (sq, StartDrain, ms) \<Longrightarrow>
     seq_step s (s\<lparr>q_seq := sq, q_drains := q_drains s @ [AtLock],
       q_accepted := q_accepted s @ [\<lparr>pc_msg = Some msg, pc_enqueuedAt = now\<rparr>]\<rparr>)"
| drain_take: "q_drains s = a @ AtLock # b \<Longrightarrow> drain_locked (q_seq s) = Some (sq, Some item) \<Longrightarrow>
     seq_step s (s\<lparr>q_seq := sq, q_drains := a @ Executing item # b\<rparr>)"
| drain_return: "q_drains s = a @ AtLock # b \<Longrightarrow> drain_locked (q_seq s) = Some (sq, None) \<Longrightarrow>
     seq_step s (s\<lparr>q_seq := sq, q_drains := a @ b\<rparr>)"
| callback_done: "q_drains s = a @ Executing item # b \<Longrightarrow>
     seq_step s (s\<lparr>q_drains := a @ AtLock # b, q_delivered := q_delivered s @ [item]\<rparr>)"

section \<open>The invariants\<close>

definition queue_ok :: "callbackSequencer \<Rightarrow> bool" where
  "queue_ok s \<longleftrightarrow> s_queue s = zeroRing \<or>
     (ring_inv (s_queue s) \<and> (r_fixed (s_queue s) \<longleftrightarrow> s_maxQueueSize s > 0) \<and>
      (s_maxQueueSize s > 0 \<longrightarrow> int (length (r_buf (s_queue s))) = s_maxQueueSize s))"

definition seq_ok :: "callbackSequencer \<Rightarrow> bool" where
  "seq_ok s \<longleftrightarrow> queue_ok s \<and> (s_overflowing s \<or> s_dropCount s = 0) \<and> s_dropCount s \<ge> 0"

definition executing :: "seq_sys \<Rightarrow> pendingCallback list" where
  "executing s = concat (map (\<lambda>d. case d of AtLock \<Rightarrow> [] | Executing i \<Rightarrow> [i]) (q_drains s))"

definition seq_inv :: "seq_sys \<Rightarrow> bool" where
  "seq_inv s \<longleftrightarrow> seq_ok (q_seq s)
     \<and> length (q_drains s) = (if s_active (q_seq s) then 1 else 0)
     \<and> (ring_elems (s_queue (q_seq s)) \<noteq> [] \<longrightarrow> s_active (q_seq s))
     \<and> q_accepted s = q_delivered s @ executing s @ ring_elems (s_queue (q_seq s))"

section \<open>Lemmas\<close>

subsection \<open>One critical section\<close>

lemma ring_elems_zeroRing [simp]: "ring_elems zeroRing = []"
  by (simp add: ring_elems_def zeroRing_def)

lemma ring_elems_Nil: "ring_elems r = [] \<longleftrightarrow> r_count r = 0"
  by (simp add: ring_elems_def)

lemma seq_ok_newSequencer: "seq_ok (newSequencer limit)"
  by (simp add: seq_ok_def queue_ok_def newSequencer_def)

text \<open>The lazily initialised queue: what the critical section works on.\<close>

definition ready :: "callbackSequencer \<Rightarrow> callbackSequencer" where
  "ready s = (if r_buf (s_queue s) = [] then s\<lparr>s_queue := initRing (s_maxQueueSize s) (s_queue s)\<rparr> else s)"

lemma ready_ok:
  assumes "queue_ok s"
  shows "ring_inv (s_queue (ready s)) \<and> ring_elems (s_queue (ready s)) = ring_elems (s_queue s)
    \<and> (r_fixed (s_queue (ready s)) \<longleftrightarrow> s_maxQueueSize s > 0)
    \<and> (s_maxQueueSize s > 0 \<longrightarrow> int (length (r_buf (s_queue (ready s)))) = s_maxQueueSize s)"
proof (cases "s_queue s = zeroRing")
  case True
  then show ?thesis
    by (simp add: ready_def ring_inv_initRing ring_elems_initRing) (simp add: zeroRing_def)
next
  case False
  then show ?thesis using assms by (auto simp: ready_def queue_ok_def ring_inv_def)
qed

lemma ready_frame [simp]:
  "s_active (ready s) = s_active s" "s_maxQueueSize (ready s) = s_maxQueueSize s"
  "s_overflowing (ready s) = s_overflowing s" "s_dropCount (ready s) = s_dropCount s"
  by (simp_all add: ready_def)

lemma ready_count: "queue_ok s \<Longrightarrow> r_count (s_queue (ready s)) = r_count (s_queue s)"
  using ready_ok [of s] by (metis length_ring_elems)

lemma ready_queue_ok: "queue_ok s \<Longrightarrow> queue_ok (ready s)"
  using ready_ok [of s] by (auto simp: queue_ok_def)

definition full :: "callbackSequencer \<Rightarrow> bool" where
  "full s \<longleftrightarrow> s_maxQueueSize s > 0 \<and> int (length (ring_elems (s_queue s))) \<ge> s_maxQueueSize s"

lemma enqueue_locked_full:
  assumes "seq_ok s" and "full s"
  shows "enqueue_locked now msg s =
    Some ((ready s)\<lparr>s_dropCount := s_dropCount s + 1, s_overflowing := True\<rparr>,
      Drop (if s_overflowing s then None else Some (overflowSignal now msg (s_dropCount s + 1))),
      [SubscriptionQueueDepth (int (length (ring_elems (s_queue s)))), SubscriptionQueueDropped])"
  using assms ready_ok [of s]
  by (simp add: enqueue_locked_def ready_def [symmetric] full_def seq_ok_def ring.len_elems Let_def)

lemma enqueue_locked_room:
  assumes "seq_ok s" and "\<not> full s"
  shows "\<exists>q. enqueue_locked now msg s =
    Some (s\<lparr>s_queue := q, s_active := True, s_overflowing := False, s_dropCount := 0\<rparr>,
      if s_active s then Queued else StartDrain,
      [SubscriptionQueueDepth (int (length (ring_elems (s_queue s))))])
    \<and> queue_ok (s\<lparr>s_queue := q\<rparr>)
    \<and> ring_elems q = ring_elems (s_queue s) @ [\<lparr>pc_msg = Some msg, pc_enqueuedAt = now\<rparr>]"
proof -
  let ?x = "\<lparr>pc_msg = Some msg, pc_enqueuedAt = now\<rparr>" and ?q = "s_queue (ready s)"
  have ok: "ring_inv ?q" "ring_elems ?q = ring_elems (s_queue s)" "r_fixed ?q \<longleftrightarrow> s_maxQueueSize s > 0"
    "s_maxQueueSize s > 0 \<longrightarrow> int (length (r_buf ?q)) = s_maxQueueSize s"
    using ready_ok assms(1) by (auto simp: seq_ok_def)
  have len: "len_ring ?q = length (ring_elems (s_queue s))"
    using ring.len_elems [OF ok(1)] unfolding ok(2) .
  have room: "ring_room ?q"
    using assms(2) ok len by (auto simp: ring_room_def full_def len_ring_def)
  obtain q where q: "push ?x ?q = Some (q, True)" "ring_inv q" "ring_elems q = ring_elems ?q @ [?x]"
    "r_fixed q = r_fixed ?q" using push_ok [OF ok(1) room] by blast
  have cap: "s_maxQueueSize s > 0 \<longrightarrow> length (r_buf q) = length (r_buf ?q)"
    using ring_bounded_buf [OF ok(1) _ q(1)] ok(3) by blast
  have drop0: "s_overflowing s \<or> s_dropCount s = 0" using assms(1) by (simp add: seq_ok_def)
  have "enqueue_locked now msg s = Some (s\<lparr>s_queue := q, s_active := True, s_overflowing := False,
      s_dropCount := 0\<rparr>, if s_active s then Queued else StartDrain,
      [SubscriptionQueueDepth (int (length (ring_elems (s_queue s))))])"
    using assms(2) q(1) len drop0
    by (auto simp: enqueue_locked_def ready_def [symmetric] full_def Let_def)
  moreover have "queue_ok (s\<lparr>s_queue := q\<rparr>)"
    using q ok cap by (auto simp: queue_ok_def)
  ultimately show ?thesis using q(3) ok(2) by auto
qed

lemma drain_locked_empty:
  "seq_ok s \<Longrightarrow> ring_elems (s_queue s) = [] \<Longrightarrow> drain_locked s = Some (s\<lparr>s_active := False\<rparr>, None)"
  by (simp add: drain_locked_def len_ring_def ring_elems_Nil)

lemma drain_locked_item:
  assumes "seq_ok s" and "ring_elems (s_queue s) = x # xs"
  shows "\<exists>q. drain_locked s = Some (s\<lparr>s_queue := q\<rparr>, Some x) \<and> queue_ok (s\<lparr>s_queue := q\<rparr>)
    \<and> ring_elems q = xs"
proof -
  have inv: "ring_inv (s_queue s)" and fx: "r_fixed (s_queue s) \<longleftrightarrow> s_maxQueueSize s > 0"
    and cap: "s_maxQueueSize s > 0 \<longrightarrow> int (length (r_buf (s_queue s))) = s_maxQueueSize s"
    using assms by (auto simp: seq_ok_def queue_ok_def)
  have "len_ring (s_queue s) \<noteq> 0" using ring.len_elems [OF inv] assms(2) by simp
  then show ?thesis using pop_ok [OF inv assms(2)] fx cap
    by (auto simp: drain_locked_def queue_ok_def)
qed

lemma drain_locked_cases:
  assumes "seq_ok s" and "drain_locked s = Some (s', r)"
  obtains (empty) "ring_elems (s_queue s) = []" "r = None" "s' = s\<lparr>s_active := False\<rparr>"
    | (item) x xs q where "ring_elems (s_queue s) = x # xs" "r = Some x" "s' = s\<lparr>s_queue := q\<rparr>"
        "queue_ok (s\<lparr>s_queue := q\<rparr>)" "ring_elems q = xs"
  using assms drain_locked_empty drain_locked_item
  by (cases "ring_elems (s_queue s)") (fastforce)+

subsection \<open>Executing items\<close>

lemma executing_simps [simp]:
  "executing (s\<lparr>q_drains := []\<rparr>) = []"
  "q_drains s = [AtLock] \<Longrightarrow> executing s = []"
  "q_drains s = [] \<Longrightarrow> executing s = []"
  "q_drains s = [Executing i] \<Longrightarrow> executing s = [i]"
  by (simp_all add: executing_def)

lemma executing_cong: "q_drains s = q_drains t \<Longrightarrow> executing s = executing t"
  by (simp add: executing_def)

lemma executing_append_AtLock [simp]: "executing (s\<lparr>q_drains := ds @ [AtLock]\<rparr>) = executing (s\<lparr>q_drains := ds\<rparr>)"
  by (simp add: executing_def)

subsection \<open>The invariant is kept\<close>

lemma seq_inv_init: "seq_init s \<Longrightarrow> seq_inv s"
  by (auto simp: seq_init_def seq_inv_def seq_ok_newSequencer executing_def) (simp_all add: newSequencer_def)

lemma seq_inv_drop:
  assumes "seq_inv s" and "enqueue_locked now msg (q_seq s) = Some (sq, Drop signal, ms)"
  shows "seq_inv (s\<lparr>q_seq := sq, q_dropped := d, q_signals := g\<rparr>)"
proof -
  have ok: "seq_ok (q_seq s)" using assms(1) by (simp add: seq_inv_def)
  have f: "full (q_seq s)"
  proof (rule ccontr)
    assume "\<not> full (q_seq s)"
    from enqueue_locked_room [OF ok this, of now msg] assms(2) show False by (auto split: if_splits)
  qed
  have sq: "sq = (ready (q_seq s))\<lparr>s_dropCount := s_dropCount (q_seq s) + 1, s_overflowing := True\<rparr>"
    using enqueue_locked_full [OF ok f, of now msg] assms(2) by simp
  have r: "ring_elems (s_queue (ready (q_seq s))) = ring_elems (s_queue (q_seq s))" "queue_ok (ready (q_seq s))"
    using ready_ok [of "q_seq s"] ok by (auto simp: seq_ok_def queue_ok_def)
  show ?thesis using assms(1) ok r
    by (auto simp: seq_inv_def seq_ok_def queue_ok_def sq executing_def)
qed

lemma seq_inv_accept:
  assumes "seq_inv s" and "enqueue_locked now msg (q_seq s) = Some (sq, d, ms)"
    and "d = (if s_active (q_seq s) then Queued else StartDrain)"
  shows "seq_inv (s\<lparr>q_seq := sq, q_drains := q_drains s @ (if s_active (q_seq s) then [] else [AtLock]),
      q_accepted := q_accepted s @ [\<lparr>pc_msg = Some msg, pc_enqueuedAt = now\<rparr>]\<rparr>)"
proof -
  have ok: "seq_ok (q_seq s)" using assms(1) by (simp add: seq_inv_def)
  have nf: "\<not> full (q_seq s)"
  proof
    assume "full (q_seq s)"
    from enqueue_locked_full [OF ok this, of now msg] assms(2,3) show False by (auto split: if_splits)
  qed
  from enqueue_locked_room [OF ok nf, of now msg] assms(2) obtain q where
    sq: "sq = (q_seq s)\<lparr>s_queue := q, s_active := True, s_overflowing := False, s_dropCount := 0\<rparr>"
    and q: "queue_ok ((q_seq s)\<lparr>s_queue := q\<rparr>)"
    "ring_elems q = ring_elems (s_queue (q_seq s)) @ [\<lparr>pc_msg = Some msg, pc_enqueuedAt = now\<rparr>]"
    by auto
  show ?thesis using assms(1) q
    by (auto simp: seq_inv_def seq_ok_def queue_ok_def sq executing_def)
qed

lemma accept_decision:
  "seq_ok s \<Longrightarrow> enqueue_locked now msg s = Some (sq, d, ms) \<Longrightarrow> \<forall>g. d \<noteq> Drop g \<Longrightarrow>
   d = (if s_active s then Queued else StartDrain)"
  using enqueue_locked_full [of s now msg] enqueue_locked_room [of s now msg]
  by (cases "full s") auto

lemma one_drain:
  assumes "seq_inv s" and "q_drains s = a @ x # b"
  shows "a = [] \<and> b = [] \<and> s_active (q_seq s)"
  using assms by (auto simp: seq_inv_def split: if_splits)

lemma seq_inv_step: "seq_step s t \<Longrightarrow> seq_inv s \<Longrightarrow> seq_inv t"
proof (induction rule: seq_step.induct)
  case (enq_drop now msg s sq signal ms)
  then show ?case by (intro seq_inv_drop)
next
  case (enq_queued now msg s sq ms)
  then have "Queued = (if s_active (q_seq s) then Queued else StartDrain)"
    by (intro accept_decision) (auto simp: seq_inv_def)
  then show ?case using seq_inv_accept [OF enq_queued(2,1)] by (auto split: if_splits)
next
  case (enq_start now msg s sq ms)
  then have "StartDrain = (if s_active (q_seq s) then Queued else StartDrain)"
    by (intro accept_decision) (auto simp: seq_inv_def)
  then show ?case using seq_inv_accept [OF enq_start(2,1)] by (auto split: if_splits)
next
  case (drain_take s a b sq item)
  have ok: "seq_ok (q_seq s)" using drain_take.prems by (simp add: seq_inv_def)
  from one_drain [OF drain_take.prems drain_take.hyps(1)] drain_take.hyps(1)
  have d: "q_drains s = [AtLock]" "a = []" "b = []" "s_active (q_seq s)" by auto
  from ok drain_take.hyps(2) show ?case
    by (rule drain_locked_cases)
       (use drain_take.prems d in \<open>auto simp: seq_inv_def seq_ok_def executing_def queue_ok_def\<close>)
next
  case (drain_return s a b sq)
  have ok: "seq_ok (q_seq s)" using drain_return.prems by (simp add: seq_inv_def)
  from one_drain [OF drain_return.prems drain_return.hyps(1)] drain_return.hyps(1)
  have d: "q_drains s = [AtLock]" "a = []" "b = []" "s_active (q_seq s)" by auto
  from ok drain_return.hyps(2) show ?case
    by (rule drain_locked_cases)
       (use drain_return.prems d in \<open>auto simp: seq_inv_def seq_ok_def executing_def queue_ok_def\<close>)
next
  case (callback_done s a item b)
  from one_drain [OF callback_done.prems callback_done.hyps] callback_done.prems callback_done.hyps
  show ?case by (auto simp: seq_inv_def executing_def)
qed

interpretation seqr: transition_system seq_init seq_step seq_inv
  by unfold_locales (auto intro: seq_inv_init seq_inv_step)

subsection \<open>A drain task empties the queue\<close>

lemma drainFn_all:
  "seq_ok s \<Longrightarrow> \<exists>s'. drainFn s = Some (s', ring_elems (s_queue s)) \<and> seq_ok s' \<and> \<not> s_active s'
     \<and> ring_elems (s_queue s') = []"
proof (induction "ring_elems (s_queue s)" arbitrary: s)
  case Nil
  then show ?case
    by (subst drainFn.simps) (auto simp: drain_locked_empty seq_ok_def queue_ok_def)
next
  case (Cons x xs)
  from drain_locked_item [OF Cons.prems Cons.hyps(2) [symmetric]] obtain q where
    q: "drain_locked s = Some (s\<lparr>s_queue := q\<rparr>, Some x)" "queue_ok (s\<lparr>s_queue := q\<rparr>)" "ring_elems q = xs"
    by blast
  then have "seq_ok (s\<lparr>s_queue := q\<rparr>)" using Cons.prems by (simp add: seq_ok_def)
  from Cons.hyps(1) [OF _ this] q Cons.hyps(2) show ?case
    by (subst drainFn.simps) auto
qed

text \<open>From any state that satisfies the invariant the sequencer can come to rest.\<close>

lemma seq_comes_to_rest:
  "seq_inv s \<Longrightarrow> \<exists>t. seq_step\<^sup>*\<^sup>* s t \<and> q_accepted t = q_accepted s \<and> q_delivered t = q_accepted s
     \<and> \<not> s_active (q_seq t)"
proof (induction "2 * length (ring_elems (s_queue (q_seq s))) + 2 * length (q_drains s)
    + length (executing s)" arbitrary: s rule: less_induct)
  case less
  have ok: "seq_ok (q_seq s)" using less.prems by (simp add: seq_inv_def)
  have step: ?case if "seq_step s s'" "q_accepted s' = q_accepted s"
    "2 * length (ring_elems (s_queue (q_seq s'))) + 2 * length (q_drains s') + length (executing s')
     < 2 * length (ring_elems (s_queue (q_seq s))) + 2 * length (q_drains s) + length (executing s)" for s'
    using less.hyps [OF that(3) seq_inv_step [OF that(1) less.prems]] that(1,2)
    by (metis converse_rtranclp_into_rtranclp)
  consider (rest) "q_drains s = []" | (lock) "q_drains s = [] @ AtLock # []"
    | (exec) i where "q_drains s = [] @ Executing i # []"
    using less.prems by (cases "q_drains s"; cases "hd (q_drains s)") (auto simp: seq_inv_def split: if_splits)
  then show ?case
  proof cases
    case rest
    then show ?thesis using less.prems by (intro exI [of _ s]) (auto simp: seq_inv_def split: if_splits)
  next
    case lock
    show ?thesis
    proof (cases "ring_elems (s_queue (q_seq s))")
      case Nil
      from seq_step.drain_return [OF lock drain_locked_empty [OF ok Nil]] show ?thesis
        by (rule step) (simp_all add: lock executing_def)
    next
      case (Cons x xs)
      from drain_locked_item [OF ok Cons] obtain q where
        q: "drain_locked (q_seq s) = Some ((q_seq s)\<lparr>s_queue := q\<rparr>, Some x)" "ring_elems q = xs" by blast
      from seq_step.drain_take [OF lock q(1)] show ?thesis
        by (rule step) (use q Cons lock in \<open>simp_all add: executing_def flip: length_ring_elems\<close>)
    qed
  next
    case exec
    from seq_step.callback_done [OF exec] show ?thesis
      by (rule step) (simp_all add: exec executing_def)
  qed
qed

section \<open>Properties\<close>

text \<open>C10. Ordered, sequential delivery: in every reachable state, under every interleaving of enqueuing
  goroutines and drain tasks, the messages delivered so far, followed by the one being delivered and
  those queued, are exactly the accepted messages in the order of acceptance, and at most one callback
  of the subscription runs at a time.\<close>

theorem seq_ordered_delivery:
  assumes "seq_init s0" and "seq_step\<^sup>*\<^sup>* s0 s"
  shows "q_accepted s = q_delivered s @ executing s @ ring_elems (s_queue (q_seq s))
    \<and> length (q_drains s) \<le> 1 \<and> length (executing s) \<le> 1"
proof -
  have "seq_inv s" by (rule seqr.inv_reachable [OF assms])
  then show ?thesis
    by (cases "q_drains s"; cases "hd (q_drains s)") (auto simp: seq_inv_def executing_def split: if_splits)
qed

text \<open>A concrete run: a bounded sequencer of size 1 accepts a message, starts a drain task, and drops the
  second message with an overflow signal.\<close>

definition msg0 :: Message where
  "msg0 = \<lparr>msg_Type = MessageTypeMessage, msg_Channel = ''c'', msg_Payload = ''p'', msg_Pattern = [],
     msg_Signal = None, msg_Timestamp = 5, msg_SubscriptionType = subTypeSubscribe\<rparr>"

definition seq0 :: seq_sys where
  "seq0 = \<lparr>q_seq = newSequencer 1, q_drains = [], q_accepted = [], q_delivered = [], q_dropped = 0,
     q_signals = []\<rparr>"

definition seq1 :: callbackSequencer where
  "seq1 = \<lparr>s_queue = \<lparr>r_buf = [\<lparr>pc_msg = Some msg0, pc_enqueuedAt = 6\<rparr>], r_head = 0, r_tail = 0,
     r_count = 1, r_fixed = True\<rparr>, s_active = True, s_maxQueueSize = 1, s_overflowing = False,
     s_dropCount = 0\<rparr>"

lemma seq0_init: "seq_init seq0"
  by (auto simp: seq_init_def seq0_def)

lemma seq1_enqueue:
  "enqueue_locked 6 msg0 (newSequencer 1) = Some (seq1, StartDrain, [SubscriptionQueueDepth 0])"
  by (simp add: enqueue_locked_def newSequencer_def zeroRing_def initRing_def len_ring_def push_def
      Let_def seq1_def)

lemma seq1_reachable:
  "seq_step\<^sup>*\<^sup>* seq0 (seq0\<lparr>q_seq := seq1, q_drains := [AtLock],
     q_accepted := [\<lparr>pc_msg = Some msg0, pc_enqueuedAt = 6\<rparr>]\<rparr>)"
  using seq_step.enq_start [of 6 msg0 seq0 seq1] seq1_enqueue by (auto simp: seq0_def)

theorem seq_ordered_delivery_witness:
  "\<exists>s. seq_step\<^sup>*\<^sup>* seq0 s \<and> q_accepted s \<noteq> [] \<and> q_accepted s = q_delivered s @ executing s
     @ ring_elems (s_queue (q_seq s))"
  using seq_ordered_delivery [OF seq0_init seq1_reachable] seq1_reachable by (intro exI conjI) auto

text \<open>No accepted message is stranded: in every reachable state a non-empty queue has a live drain
  task, and the sequencer can always run on, with no further help from the enqueuers, until every
  accepted message has been delivered in order and no drain task is left.\<close>

theorem seq_no_message_stranded:
  assumes "seq_init s0" and "seq_step\<^sup>*\<^sup>* s0 s"
  shows "(ring_elems (s_queue (q_seq s)) \<noteq> [] \<longrightarrow> q_drains s \<noteq> []) \<and>
    (\<exists>t. seq_step\<^sup>*\<^sup>* s t \<and> q_accepted t = q_accepted s \<and> q_delivered t = q_accepted s
       \<and> \<not> s_active (q_seq t))"
proof -
  have inv: "seq_inv s" by (rule seqr.inv_reachable [OF assms])
  then have "ring_elems (s_queue (q_seq s)) \<noteq> [] \<longrightarrow> q_drains s \<noteq> []"
    by (auto simp: seq_inv_def split: if_splits)
  with seq_comes_to_rest [OF inv] show ?thesis by blast
qed

theorem seq_no_message_stranded_witness:
  "\<exists>s t. seq_step\<^sup>*\<^sup>* seq0 s \<and> seq_step\<^sup>*\<^sup>* s t \<and> q_delivered t = [\<lparr>pc_msg = Some msg0, pc_enqueuedAt = 6\<rparr>]"
  using seq_no_message_stranded [OF seq0_init seq1_reachable] seq1_reachable by fastforce

text \<open>\<open>enqueue\<close> on every branch, for every state of the pool that \<open>Stop\<close> allows: it never panics (the
  discarded result of \<open>push\<close> is always true); a full queue drops the message and leaves the queue as it
  was; otherwise the message goes to the end of the queue, a drain task is started exactly when none is
  active, and a bounded queue stays within its limit.\<close>

theorem enqueue_spec:
  assumes "seq_ok s" and "\<forall>wp. pool = Some wp \<longrightarrow> wp_closed wp \<longrightarrow> wp_cancelled wp"
  shows "\<exists>r. enqueue pick now pool task msg s = Some r \<and> seq_ok (e_seq r)
    \<and> (if full s
       then ring_elems (s_queue (e_seq r)) = ring_elems (s_queue s) \<and> e_drain r = None
          \<and> SubscriptionQueueDropped \<in> set (e_metrics r)
       else ring_elems (s_queue (e_seq r)) = ring_elems (s_queue s) @ [\<lparr>pc_msg = Some msg, pc_enqueuedAt = now\<rparr>]
          \<and> (e_drain r = None \<longleftrightarrow> s_active s) \<and> s_active (e_seq r) \<and> e_signal r = None)
    \<and> (s_maxQueueSize s > 0 \<longrightarrow> int (length (ring_elems (s_queue (e_seq r)))) \<le> s_maxQueueSize s)"
proof (cases "full s")
  case True
  have ok: "queue_ok s" using assms(1) by (simp add: seq_ok_def)
  have q: "ring_elems (s_queue (ready s)) = ring_elems (s_queue s)" "queue_ok (ready s)"
    "r_count (s_queue (ready s)) = r_count (s_queue s)"
    using ready_ok [OF ok] ready_queue_ok [OF ok] ready_count [OF ok] by auto
  have b: "s_maxQueueSize s > 0 \<longrightarrow> int (r_count (s_queue s)) \<le> s_maxQueueSize s"
    using ok by (auto simp: queue_ok_def ring_inv_def zeroRing_def)
  have ok': "queue_ok ((ready s)\<lparr>s_dropCount := d, s_overflowing := True\<rparr>)" for d
    using q(2) by (simp add: queue_ok_def)
  show ?thesis using True q(1,3) b ok' assms(1)
    by (simp add: enqueue_def enqueue_locked_full [OF assms(1) True] seq_ok_def)
next
  case False
  from enqueue_locked_room [OF assms(1) False, of now msg] obtain q where
    q: "enqueue_locked now msg s = Some (s\<lparr>s_queue := q, s_active := True, s_overflowing := False, s_dropCount := 0\<rparr>,
      if s_active s then Queued else StartDrain, [SubscriptionQueueDepth (int (length (ring_elems (s_queue s))))])"
    "queue_ok (s\<lparr>s_queue := q\<rparr>)" "ring_elems q = ring_elems (s_queue s) @ [\<lparr>pc_msg = Some msg, pc_enqueuedAt = now\<rparr>]"
    by blast
  have sd: "\<exists>p how ms. start_drain pick pool task = Some (p, how, ms)"
    using assms(2) by (auto simp: start_drain_def TrySubmit_def Submit_def pre_check_def send_or_give_up_def
        send_or_wait_def send_ready_def send_task_def go_select_def split: option.splits)
  have "r_count q = Suc (r_count (s_queue s))" using arg_cong [OF q(3), of length] by simp
  then have "int (r_count q) \<le> s_maxQueueSize s" if "s_maxQueueSize s > 0"
    using False that by (simp add: full_def)
  with False q sd show ?thesis by (auto simp: enqueue_def seq_ok_def queue_ok_def)
qed

theorem enqueue_spec_witness:
  "\<exists>r. enqueue 0 6 (None :: nat WorkerPool option) 0 msg0 (newSequencer 1) = Some r
     \<and> ring_elems (s_queue (e_seq r)) = [\<lparr>pc_msg = Some msg0, pc_enqueuedAt = 6\<rparr>]"
  using enqueue_spec [OF seq_ok_newSequencer, of "None :: nat WorkerPool option" 0 6 0 msg0 1]
  by (auto simp: full_def newSequencer_def)

text \<open>Overflow signals are coalesced: the drop that begins an overflow episode sends one signal, later
  drops of the episode send none, and an accepted message ends the episode. The signal's
  \<open>DroppedCount\<close> is always 1.\<close>

theorem overflow_signal_once:
  assumes "seq_ok s"
  shows "if full s
    then \<exists>s' g ms. enqueue_locked now msg s = Some (s', Drop g, ms) \<and> s_overflowing s' \<and> full s'
       \<and> (g = None \<longleftrightarrow> s_overflowing s)
       \<and> (\<forall>m. g = Some m \<longrightarrow> m = overflowSignal now msg 1)
    else \<exists>s' d ms. enqueue_locked now msg s = Some (s', d, ms) \<and> \<not> s_overflowing s' \<and> s_dropCount s' = 0"
proof (cases "full s")
  case True
  have "r_count (s_queue (ready s)) = r_count (s_queue s)" using assms by (simp add: seq_ok_def ready_count)
  with True assms show ?thesis
    by (simp add: enqueue_locked_full [OF assms True] full_def) (auto simp: seq_ok_def)
next
  case False
  with enqueue_locked_room [OF assms False, of now msg] show ?thesis by auto
qed

theorem overflow_signal_once_witness:
  "\<exists>s' ms. enqueue_locked 7 msg0 seq1 = Some (s', Drop (Some (overflowSignal 7 msg0 1)), ms)"
proof -
  have "seq_ok seq1" by (auto simp: seq_ok_def queue_ok_def seq1_def ring_inv_def slot_def)
  moreover have "full seq1" by (simp add: full_def seq1_def ring_elems_def)
  ultimately show ?thesis using overflow_signal_once [of seq1 7 msg0] by (auto simp: seq1_def)
qed

text \<open>A drain task that runs without interference terminates, executes the callbacks of all queued
  messages in queue order, and clears the active flag only with the queue empty.\<close>

theorem drainFn_terminates_in_order:
  assumes "seq_ok s"
  shows "\<exists>s'. drainFn s = Some (s', ring_elems (s_queue s)) \<and> \<not> s_active s' \<and> ring_elems (s_queue s') = []"
  using drainFn_all [OF assms] by blast

theorem drainFn_terminates_in_order_witness:
  "\<exists>s'. drainFn seq1 = Some (s', [\<lparr>pc_msg = Some msg0, pc_enqueuedAt = 6\<rparr>]) \<and> \<not> s_active s'"
proof -
  have "seq_ok seq1" by (auto simp: seq_ok_def queue_ok_def seq1_def ring_inv_def slot_def)
  moreover have "ring_elems (s_queue seq1) = [\<lparr>pc_msg = Some msg0, pc_enqueuedAt = 6\<rparr>]"
    by (simp add: seq1_def ring_elems_def slot_def)
  ultimately show ?thesis using drainFn_terminates_in_order by fastforce
qed

end
