(* ===== verification/Subscription_State.thy ===== *)
theory Subscription_State
  imports Sequencer
begin

text \<open>
  \<open>subscription.go\<close>: one subscription, its state and the two ways to wait for its confirmation. The
  methods are functions on the record; \<open>waitForActive\<close> is split at the point where it blocks. A
  transition system interleaves the methods of any number of goroutines.
\<close>

section \<open>The source's type and methods\<close>

datatype subscriptionState = subStatePending | subStateActive | subStateFailed | subStateClosed

text \<open>
  \<open>sub_confirmCh\<close> is the buffered channel of capacity 1 (\<open>None\<close>: nil); its elements are the errors
  sent, \<open>None\<close> the nil error. \<open>sub_doneCh\<close> names the current broadcast channel by a number (\<open>None\<close>:
  nil), \<open>sub_nextCh\<close> is the next fresh number, and \<open>sub_closes\<close> lists every \<open>close\<close> call made on a
  broadcast channel: a number that occurs twice is a double close, which panics.
\<close>

record subscription =
  sub_channel :: string
  sub_subType :: subscriptionType
  sub_pubsub :: "ps_ref option"
  sub_callback :: callback_ref
  sub_state :: subscriptionState
  sub_confirmCh :: "goerror option list option"
  sub_doneCh :: "nat option"
  sub_doneChClosed :: bool
  sub_confirmErr :: "goerror option"
  sub_hashslot :: int
  sub_sequencer :: callbackSequencer
  sub_closes :: "nat list"
  sub_nextCh :: nat

text \<open>The composite literal of \<open>subscribeToChannel\<close>.\<close>

definition newSubscription ::
  "string \<Rightarrow> subscriptionType \<Rightarrow> ps_ref option \<Rightarrow> callback_ref \<Rightarrow> int \<Rightarrow> int \<Rightarrow> subscription" where
  "newSubscription channel subType pubsub callback hashslot queueLimit =
     \<lparr>sub_channel = channel, sub_subType = subType, sub_pubsub = pubsub, sub_callback = callback,
      sub_state = subStatePending, sub_confirmCh = Some [], sub_doneCh = Some 0,
      sub_doneChClosed = False, sub_confirmErr = None, sub_hashslot = hashslot,
      sub_sequencer = newSequencer queueLimit, sub_closes = [], sub_nextCh = 1\<rparr>"

definition getPubSub :: "subscription \<Rightarrow> ps_ref option" where
  "getPubSub s = sub_pubsub s"

definition setPubSub :: "ps_ref option \<Rightarrow> subscription \<Rightarrow> subscription" where
  "setPubSub ps s = s\<lparr>sub_pubsub := ps\<rparr>"

text \<open>A non-blocking send on a channel of capacity 1.\<close>

definition offer :: "'a \<Rightarrow> 'a list \<Rightarrow> 'a list" where
  "offer x buf = (if length buf < 1 then buf @ [x] else buf)"

definition setState :: "subscriptionState \<Rightarrow> goerror option \<Rightarrow> subscription \<Rightarrow> subscription" where
  "setState newState err s =
     (let oldState = sub_state s;
          s1 = s\<lparr>sub_state := newState\<rparr>;
          s2 = (case sub_confirmCh s1 of
                  None \<Rightarrow> s1
                | Some buf \<Rightarrow> if oldState = subStatePending then s1\<lparr>sub_confirmCh := Some (offer err buf)\<rparr> else s1)
      in case sub_doneCh s2 of
           None \<Rightarrow> s2
         | Some ch \<Rightarrow>
             if oldState = subStatePending \<and> newState \<noteq> subStatePending \<and> \<not> sub_doneChClosed s2
             then s2\<lparr>sub_confirmErr := err, sub_doneChClosed := True, sub_closes := sub_closes s2 @ [ch]\<rparr>
             else s2)"

definition resetConfirmation :: "subscription \<Rightarrow> subscription" where
  "resetConfirmation s =
     (let s1 = (case sub_confirmCh s of None \<Rightarrow> s | Some buf \<Rightarrow> s\<lparr>sub_confirmCh := Some (tl buf)\<rparr>)
      in s1\<lparr>sub_doneCh := Some (sub_nextCh s1), sub_nextCh := Suc (sub_nextCh s1),
            sub_doneChClosed := False, sub_confirmErr := None\<rparr>)"

definition getState :: "subscription \<Rightarrow> subscriptionState" where
  "getState s = sub_state s"

text \<open>The context of a wait is its error once it is done. A result \<open>None\<close> means the wait blocks.\<close>

definition waitForConfirmation ::
  "nat \<Rightarrow> goerror option \<Rightarrow> subscription \<Rightarrow> (subscription \<times> goerror option) option" where
  "waitForConfirmation pick ctxErr s =
     (case sub_confirmCh s of
        None \<Rightarrow> Some (s, None)
      | Some buf \<Rightarrow>
          go_select pick [(buf \<noteq> [], (s\<lparr>sub_confirmCh := Some (tl buf)\<rparr>, hd buf)),
                          (ctxErr \<noteq> None, (s, ctxErr))])"

text \<open>The first part returns at once (\<open>Inl\<close>) or yields the broadcast channel to wait on (\<open>Inr\<close>).\<close>

definition waitForActive_enter :: "subscription \<Rightarrow> goerror option + nat" where
  "waitForActive_enter s =
     (if sub_state s \<noteq> subStatePending then Inl (sub_confirmErr s)
      else (case sub_doneCh s of None \<Rightarrow> Inl None | Some ch \<Rightarrow> Inr ch))"

definition waitForActive_wait ::
  "nat \<Rightarrow> goerror option \<Rightarrow> nat \<Rightarrow> subscription \<Rightarrow> goerror option option" where
  "waitForActive_wait pick ctxErr ch s =
     go_select pick [(ch \<in> set (sub_closes s), sub_confirmErr s), (ctxErr \<noteq> None, ctxErr)]"

section \<open>The subscription as a transition system\<close>

inductive sub_step :: "subscription \<Rightarrow> subscription \<Rightarrow> bool" where
  set_state: "sub_step s (setState st err s)"
| set_pubsub: "sub_step s (setPubSub ps s)"
| reset: "sub_step s (resetConfirmation s)"
| confirmed: "waitForConfirmation pick ctxErr s = Some (s', r) \<Longrightarrow> sub_step s s'"

definition sub_init :: "subscription \<Rightarrow> bool" where
  "sub_init s \<longleftrightarrow> (\<exists>ch ty ps cb hs limit. s = newSubscription ch ty ps cb hs limit)"

definition sub_inv :: "subscription \<Rightarrow> bool" where
  "sub_inv s \<longleftrightarrow> distinct (sub_closes s) \<and> (\<forall>c \<in> set (sub_closes s). c < sub_nextCh s)
     \<and> (\<exists>ch. sub_doneCh s = Some ch \<and> ch < sub_nextCh s \<and> (sub_doneChClosed s \<longleftrightarrow> ch \<in> set (sub_closes s)))
     \<and> (\<exists>buf. sub_confirmCh s = Some buf \<and> length buf \<le> 1)"

section \<open>Lemmas\<close>

lemma sub_inv_new: "sub_inv (newSubscription ch ty ps cb hs limit)"
  by (simp add: sub_inv_def newSubscription_def)

lemma sub_inv_setState [inv_intros]: "sub_inv s \<Longrightarrow> sub_inv (setState st err s)"
proof -
  assume inv: "sub_inv s"
  then obtain ch buf where c: "sub_doneCh s = Some ch" "sub_confirmCh s = Some buf" "length buf \<le> 1"
    by (auto simp: sub_inv_def)
  show ?thesis
  proof (cases "sub_state s = subStatePending")
    case True
    with c inv show ?thesis
      by (cases "st \<noteq> subStatePending \<and> \<not> sub_doneChClosed s")
         (auto simp: sub_inv_def setState_def offer_def Let_def)
  next
    case False
    with c inv show ?thesis by (simp add: sub_inv_def setState_def Let_def)
  qed
qed

lemma sub_inv_reset [inv_intros]: "sub_inv s \<Longrightarrow> sub_inv (resetConfirmation s)"
  by (auto simp: sub_inv_def resetConfirmation_def Let_def less_Suc_eq)

lemma sub_inv_setPubSub [inv_intros]: "sub_inv s \<Longrightarrow> sub_inv (setPubSub ps s)"
  by (simp add: sub_inv_def setPubSub_def)

lemma sub_inv_confirmed:
  "waitForConfirmation pick ctxErr s = Some (s', r) \<Longrightarrow> sub_inv s \<Longrightarrow> sub_inv s'"
  by (auto simp: sub_inv_def waitForConfirmation_def dest!: go_select_ready)

lemma sub_inv_step: "sub_step s t \<Longrightarrow> sub_inv s \<Longrightarrow> sub_inv t"
  by (induction rule: sub_step.induct) (auto intro: inv_intros sub_inv_confirmed)

interpretation subsys: transition_system sub_init sub_step sub_inv
  by unfold_locales (auto simp: sub_init_def intro: sub_inv_new sub_inv_step)

lemma setState_frame [simp]:
  "sub_channel (setState st err s) = sub_channel s" "sub_subType (setState st err s) = sub_subType s"
  "sub_pubsub (setState st err s) = sub_pubsub s" "sub_hashslot (setState st err s) = sub_hashslot s"
  "sub_sequencer (setState st err s) = sub_sequencer s" "sub_state (setState st err s) = st"
  "sub_callback (setState st err s) = sub_callback s" "sub_doneCh (setState st err s) = sub_doneCh s"
  by (simp_all add: setState_def Let_def split: option.split)

lemma resetConfirmation_frame [simp]:
  "sub_channel (resetConfirmation s) = sub_channel s" "sub_subType (resetConfirmation s) = sub_subType s"
  "sub_pubsub (resetConfirmation s) = sub_pubsub s" "sub_hashslot (resetConfirmation s) = sub_hashslot s"
  "sub_sequencer (resetConfirmation s) = sub_sequencer s" "sub_state (resetConfirmation s) = sub_state s"
  by (simp_all add: resetConfirmation_def Let_def split: option.split)

lemma setPubSub_frame [simp]:
  "sub_channel (setPubSub ps s) = sub_channel s" "sub_subType (setPubSub ps s) = sub_subType s"
  "sub_pubsub (setPubSub ps s) = ps" "sub_hashslot (setPubSub ps s) = sub_hashslot s"
  "sub_sequencer (setPubSub ps s) = sub_sequencer s" "sub_state (setPubSub ps s) = sub_state s"
  by (simp_all add: setPubSub_def)

text \<open>Once a subscription has left \<open>Pending\<close>, later states that are not \<open>Pending\<close> change nothing but
  the state itself.\<close>

lemma setState_settled:
  "sub_state s \<noteq> subStatePending \<Longrightarrow> setState st err s = s\<lparr>sub_state := st\<rparr>"
  by (simp add: setState_def Let_def split: option.split)

definition setStates :: "(subscriptionState \<times> goerror option) list \<Rightarrow> subscription \<Rightarrow> subscription" where
  "setStates ups s = fold (\<lambda>(st, err). setState st err) ups s"

lemma setStates_settled:
  "sub_state s \<noteq> subStatePending \<Longrightarrow> \<forall>(st, err) \<in> set ups. st \<noteq> subStatePending \<Longrightarrow>
   \<exists>st'. st' \<noteq> subStatePending \<and> setStates ups s = s\<lparr>sub_state := st'\<rparr>"
proof (induction ups arbitrary: s)
  case Nil
  then show ?case by (intro exI [of _ "sub_state s"]) (simp add: setStates_def)
next
  case (Cons u ups)
  obtain st err where u: "u = (st, err)" by (cases u)
  have "setStates (u # ups) s = setStates ups (s\<lparr>sub_state := st\<rparr>)"
    by (simp add: setStates_def u setState_settled [OF Cons.prems(1)])
  with Cons.IH [of "s\<lparr>sub_state := st\<rparr>"] Cons.prems(2) u show ?case by auto
qed

lemma setState_leaves_pending:
  assumes "sub_state s = subStatePending" and "st \<noteq> subStatePending"
    and "sub_doneCh s = Some ch" and "\<not> sub_doneChClosed s" and "sub_confirmCh s = Some []"
  shows "setState st err s = s\<lparr>sub_state := st, sub_confirmCh := Some [err], sub_confirmErr := err,
    sub_doneChClosed := True, sub_closes := sub_closes s @ [ch]\<rparr>"
  using assms by (simp add: setState_def Let_def offer_def)

lemma reset_pending_blocks:
  assumes "sub_inv s" and "sub_state s \<noteq> subStatePending"
  shows "let s' = setState subStatePending None (resetConfirmation s)
    in sub_state s' = subStatePending \<and> \<not> sub_doneChClosed s' \<and> sub_confirmCh s' = Some []
       \<and> waitForConfirmation pick None s' = None
       \<and> (\<exists>ch. waitForActive_enter s' = Inr ch \<and> waitForActive_wait pick None ch s' = None)"
proof -
  obtain buf where buf: "sub_confirmCh s = Some buf" "length buf \<le> 1" using assms(1) by (auto simp: sub_inv_def)
  have fresh: "sub_nextCh s \<notin> set (sub_closes s)" using assms(1) by (auto simp: sub_inv_def)
  have "tl buf = []" using buf(2) by (cases buf) auto
  with buf assms(2) fresh show ?thesis
    by (simp add: setState_settled resetConfirmation_def waitForConfirmation_def waitForActive_enter_def
        waitForActive_wait_def go_select_def Let_def)
qed

section \<open>Properties\<close>

text \<open>Under every interleaving of the methods of a subscription, no broadcast channel is ever closed
  twice (which would panic), the confirmation channel never holds more than one value, and the flag
  \<open>doneChClosed\<close> says exactly whether the current broadcast channel is closed.\<close>

theorem subscription_no_double_close:
  assumes "sub_init s0" and "sub_step\<^sup>*\<^sup>* s0 s"
  shows "distinct (sub_closes s) \<and> (\<exists>buf. sub_confirmCh s = Some buf \<and> length buf \<le> 1)
    \<and> (\<exists>ch. sub_doneCh s = Some ch \<and> (sub_doneChClosed s \<longleftrightarrow> ch \<in> set (sub_closes s)))"
  using subsys.inv_reachable [OF assms] by (auto simp: sub_inv_def)

definition sub0 :: subscription where
  "sub0 = newSubscription ''c'' subTypeSubscribe (Some 0) 0 7 100"

lemma sub0_init: "sub_init sub0"
  unfolding sub_init_def sub0_def by blast

theorem subscription_no_double_close_witness:
  "distinct (sub_closes (setState subStateClosed None (setState subStateActive None sub0)))"
proof -
  have "sub_step\<^sup>*\<^sup>* sub0 (setState subStateClosed None (setState subStateActive None sub0))"
    by (meson converse_rtranclp_into_rtranclp r_into_rtranclp set_state)
  from subscription_no_double_close [OF sub0_init this] show ?thesis by simp
qed

text \<open>C31. The first outcome wins and everybody sees it: when a pending subscription leaves \<open>Pending\<close> with
  an error value (nil or not), the goroutine in \<open>waitForConfirmation\<close> and every goroutine that entered
  \<open>waitForActive\<close> while it was pending get exactly that value, whatever states it is set to later.\<close>

theorem first_outcome_wins:
  assumes "sub_inv s" and "sub_state s = subStatePending" and "\<not> sub_doneChClosed s"
    and "sub_confirmCh s = Some []" and "waitForActive_enter s = Inr ch"
    and "st \<noteq> subStatePending" and "\<forall>(st', err') \<in> set later. st' \<noteq> subStatePending"
  shows "let s' = setStates ((st, err) # later) s
    in waitForActive_wait pick None ch s' = Some err
       \<and> (\<exists>s''. waitForConfirmation pick None s' = Some (s'', err) \<and> sub_confirmCh s'' = Some [])
       \<and> waitForActive_enter s' = Inl err"
proof -
  have ch: "sub_doneCh s = Some ch" using assms(2,5) by (auto simp: waitForActive_enter_def split: option.splits)
  let ?s1 = "s\<lparr>sub_state := st, sub_confirmCh := Some [err], sub_confirmErr := err,
    sub_doneChClosed := True, sub_closes := sub_closes s @ [ch]\<rparr>"
  have one: "setState st err s = ?s1"
    using setState_leaves_pending [OF assms(2,6) ch assms(3,4)] .
  obtain st' where "st' \<noteq> subStatePending" "setStates later ?s1 = ?s1\<lparr>sub_state := st'\<rparr>"
    using setStates_settled [of ?s1 later] assms(6,7) by auto
  moreover have "setStates ((st, err) # later) s = setStates later ?s1"
    by (simp add: setStates_def one)
  ultimately show ?thesis
    by (simp add: waitForActive_wait_def waitForConfirmation_def waitForActive_enter_def go_select_def)
qed

theorem first_outcome_wins_witness:
  "waitForActive_wait 3 None 0 (setStates [(subStateFailed, Some ErrConnectionFailed), (subStateClosed, None)] sub0)
     = Some (Some ErrConnectionFailed)"
  using first_outcome_wins [of sub0 0 subStateFailed "[(subStateClosed, None)]" "Some ErrConnectionFailed" 3]
    sub_inv_new
  by (simp add: sub0_def waitForActive_enter_def Let_def) (simp add: newSubscription_def)

text \<open>A resubscription cycle is not fooled by the previous one: after \<open>resetConfirmation\<close> and the
  transition to \<open>Pending\<close> of a subscription that was not pending, both waits block until the
  subscription is given a new outcome or the caller's context is done.\<close>

theorem reset_discards_stale:
  assumes "sub_inv s" and "sub_state s \<noteq> subStatePending"
  shows "let s' = setState subStatePending None (resetConfirmation s)
    in sub_state s' = subStatePending \<and> \<not> sub_doneChClosed s' \<and> sub_confirmCh s' = Some []
       \<and> waitForConfirmation pick None s' = None
       \<and> (\<exists>ch. waitForActive_enter s' = Inr ch \<and> waitForActive_wait pick None ch s' = None)"
  using reset_pending_blocks [OF assms] .

theorem reset_discards_stale_witness:
  "waitForConfirmation 0 None
     (setState subStatePending None (resetConfirmation (setState subStateActive None sub0))) = None"
  using reset_discards_stale [of "setState subStateActive None sub0" 0] sub_inv_setState sub_inv_new
  by (simp add: sub0_def Let_def)

text \<open>Setting \<open>Pending\<close> on a subscription that is already pending delivers a confirmation: the guard of
  \<open>setState\<close> tests the old state only, so the waiter in \<open>waitForConfirmation\<close> is told the outcome
  although the subscription has not left \<open>Pending\<close>.\<close>

theorem setState_pending_confirms:
  assumes "sub_state s = subStatePending" and "sub_confirmCh s = Some []"
  shows "\<exists>s'. waitForConfirmation pick None (setState subStatePending err s) = Some (s', err)
    \<and> sub_state s' = subStatePending"
  using assms
  by (auto simp: setState_def Let_def offer_def waitForConfirmation_def go_select_def split: option.split)

theorem setState_pending_confirms_witness:
  "\<exists>s'. waitForConfirmation 0 None (setState subStatePending None sub0) = Some (s', None)"
  using setState_pending_confirms [of sub0 0 None] by (auto simp: sub0_def newSubscription_def)

end
