(* ===== verification/Connection.thy ===== *)
theory Connection
  imports Registry_Spec Subscription_State
begin

text \<open>
  \<open>pool.go\<close>, first half: \<open>pubSubMetadata\<close>, the state of one PubSub connection. It keeps the
  subscriptions of the connection by channel, which of them waits for a confirmation, the connection's
  state, the command channel to its event loop and the two shutdown channels. Subscriptions are held by
  reference; where a method reads \<open>sub.channel\<close>, which never changes, the channel is an argument.
\<close>

section \<open>The source's types and methods\<close>

datatype connectionState = connStateActive | connStateFailed | connStateClosed

text \<open>A context is named by a number; \<open>None\<close> is the background context, which is never done.\<close>

type_synonym ctx_ref = nat

record command =
  c_ctx :: "ctx_ref option"
  c_cmd :: string
  c_args :: "string list"
  c_sub :: "sub_ref option"
  c_response :: "resp_ref option"

text \<open>\<open>m_doneCloses\<close> and \<open>m_loopDoneCloses\<close> count the \<open>close\<close> calls on the channels \<open>done\<close> and \<open>loopDone\<close>
  (more than one panics); \<open>m_clientCloses\<close> counts those on the direct client.\<close>

record pubSubMetadata =
  m_nodeAddr :: string
  m_directClient :: bool
  m_subscriptions :: "(string, sub_ref list) gomap"
  m_pendingSubscriptions :: "(string, sub_ref) gomap"
  m_state :: connectionState
  m_cmdCh :: "command list"
  m_doneCloses :: nat
  m_loopDoneCloses :: nat
  m_clientCloses :: nat

definition cmdChCap :: nat where "cmdChCap = 100"

text \<open>The composite literal of \<open>createPubSubToNode\<close>.\<close>

definition newMetadata :: "string \<Rightarrow> pubSubMetadata" where
  "newMetadata nodeAddr = \<lparr>m_nodeAddr = nodeAddr, m_directClient = True, m_subscriptions = [],
     m_pendingSubscriptions = [], m_state = connStateActive, m_cmdCh = [], m_doneCloses = 0,
     m_loopDoneCloses = 0, m_clientCloses = 0\<rparr>"

text \<open>A freshly made slice of pointers holds nil, written \<open>nil_sub\<close>; all of it is overwritten.\<close>

definition nil_sub :: sub_ref where "nil_sub = 0"

text \<open>The copy-on-write append: \<open>make\<close>, \<open>copy\<close> and the store to the last index.\<close>

definition cow_append :: "sub_ref list \<Rightarrow> sub_ref \<Rightarrow> sub_ref list" where
  "cow_append old sub =
     (let newSubs = go_copy (replicate (length old + 1) nil_sub) old in newSubs[length old := sub])"

text \<open>The copy-on-write removal of the element at \<open>idx\<close>: \<open>make\<close> and two copies.\<close>

definition cow_remove :: "sub_ref list \<Rightarrow> nat \<Rightarrow> sub_ref list" where
  "cow_remove old idx =
     (let newSubs = go_copy (replicate (length old - 1) nil_sub) (take idx old)
      in take idx newSubs @ go_copy (drop idx newSubs) (drop (idx + 1) old))"

definition addSubscription :: "string \<Rightarrow> sub_ref \<Rightarrow> pubSubMetadata \<Rightarrow> pubSubMetadata" where
  "addSubscription channel sub m =
     (let old = slice_at (m_subscriptions m) channel
      in if sub \<in> set old then m
         else m\<lparr>m_subscriptions := AList.update channel (cow_append old sub) (m_subscriptions m)\<rparr>)"

text \<open>Returns the metadata, \<open>needsSubscribe\<close> and \<open>existingPending\<close>.\<close>

definition addSubscriptionAndCheckFirst ::
  "sub_ref \<Rightarrow> string \<Rightarrow> pubSubMetadata \<Rightarrow> pubSubMetadata \<times> bool \<times> sub_ref option" where
  "addSubscriptionAndCheckFirst sub channel m =
     (let newSubs = cow_append (slice_at (m_subscriptions m) channel) sub;
          m1 = m\<lparr>m_subscriptions := AList.update channel newSubs (m_subscriptions m)\<rparr>
      in case map_of (m_pendingSubscriptions m1) channel of
           Some pending \<Rightarrow> (m1, False, Some pending)
         | None \<Rightarrow>
             if length newSubs = 1
             then (m1\<lparr>m_pendingSubscriptions := AList.update channel sub (m_pendingSubscriptions m1)\<rparr>, True, None)
             else (m1, False, None))"

definition removeSubscription :: "string \<Rightarrow> sub_ref \<Rightarrow> pubSubMetadata \<Rightarrow> pubSubMetadata" where
  "removeSubscription channel sub m =
     (let old = slice_at (m_subscriptions m) channel;
          m1 = (case slice_index sub old of
                  None \<Rightarrow> m
                | Some idx \<Rightarrow> m\<lparr>m_subscriptions := store_slice channel (cow_remove old idx) (m_subscriptions m)\<rparr>)
      in if map_of (m_pendingSubscriptions m1) channel = Some sub
         then m1\<lparr>m_pendingSubscriptions := AList.delete channel (m_pendingSubscriptions m1)\<rparr>
         else m1)"

definition addPendingSubscription :: "string \<Rightarrow> sub_ref \<Rightarrow> pubSubMetadata \<Rightarrow> pubSubMetadata" where
  "addPendingSubscription channel sub m =
     m\<lparr>m_pendingSubscriptions := AList.update channel sub (m_pendingSubscriptions m)\<rparr>"

definition getPendingSubscription :: "string \<Rightarrow> pubSubMetadata \<Rightarrow> sub_ref option" where
  "getPendingSubscription channel m = map_of (m_pendingSubscriptions m) channel"

definition removePendingSubscription :: "string \<Rightarrow> pubSubMetadata \<Rightarrow> pubSubMetadata" where
  "removePendingSubscription channel m =
     m\<lparr>m_pendingSubscriptions := AList.delete channel (m_pendingSubscriptions m)\<rparr>"

definition getSubscriptions :: "string \<Rightarrow> pubSubMetadata \<Rightarrow> sub_ref list" where
  "getSubscriptions channel m = slice_at (m_subscriptions m) channel"

definition getAllSubscriptions :: "pubSubMetadata \<Rightarrow> sub_ref list" where
  "getAllSubscriptions m = fold (\<lambda>(_, subList) subs. subs @ subList) (m_subscriptions m) []"

definition meta_subscriptionCount :: "pubSubMetadata \<Rightarrow> nat" where
  "meta_subscriptionCount m = fold (\<lambda>(_, subs) count. count + length subs) (m_subscriptions m) 0"

definition meta_setState :: "connectionState \<Rightarrow> pubSubMetadata \<Rightarrow> pubSubMetadata" where
  "meta_setState newState m = m\<lparr>m_state := newState\<rparr>"

definition meta_getState :: "pubSubMetadata \<Rightarrow> connectionState" where
  "meta_getState m = m_state m"

text \<open>The two atomic sections of \<open>close\<close>, before and after it waits for the event loop. The first returns
  whether the method goes on.\<close>

definition close_locked :: "pubSubMetadata \<Rightarrow> pubSubMetadata \<times> bool" where
  "close_locked m =
     (if m_state m = connStateClosed then (m, False)
      else (m\<lparr>m_state := connStateClosed, m_doneCloses := Suc (m_doneCloses m)\<rparr>, True))"

definition close_client :: "pubSubMetadata \<Rightarrow> pubSubMetadata" where
  "close_client m = (if m_directClient m then m\<lparr>m_clientCloses := Suc (m_clientCloses m)\<rparr> else m)"

definition errEventLoopStopped :: goerror where
  "errEventLoopStopped = Wrapf ''pubsub event loop stopped: '' ErrEventLoopStopped"

text \<open>\<open>None\<close>: the call blocks (the command channel is full and no shutdown is under way).\<close>

definition sendCommand ::
  "nat \<Rightarrow> goerror option \<Rightarrow> command \<Rightarrow> pubSubMetadata \<Rightarrow> (pubSubMetadata \<times> goerror option) option" where
  "sendCommand pick ctxErr cmd m =
     go_select pick
       [(length (m_cmdCh m) < cmdChCap, (m\<lparr>m_cmdCh := m_cmdCh m @ [cmd]\<rparr>, None)),
        (m_loopDoneCloses m > 0, (m, Some errEventLoopStopped)),
        (m_doneCloses m > 0, (m, Some (Errorf ''pubsub closed''))),
        (ctxErr \<noteq> None, (m, ctxErr))]"

section \<open>Invariant\<close>

text \<open>The registrations: the pending subscription of a channel is registered under it, no subscription is
  registered twice, no empty slice is stored.\<close>

definition regs_inv :: "pubSubMetadata \<Rightarrow> bool" where
  "regs_inv m \<longleftrightarrow> wf_gomap (m_subscriptions m) \<and> no_empty (m_subscriptions m)
     \<and> wf_gomap (m_pendingSubscriptions m)
     \<and> (\<forall>ch. distinct (slice_at (m_subscriptions m) ch))
     \<and> (\<forall>ch p. map_of (m_pendingSubscriptions m) ch = Some p \<longrightarrow> p \<in> set (slice_at (m_subscriptions m) ch))"

text \<open>A connection that no failure has overtaken while it was closed: in addition \<open>done\<close> is closed at most
  once and exactly when the state is closed.\<close>

definition meta_inv :: "pubSubMetadata \<Rightarrow> bool" where
  "meta_inv m \<longleftrightarrow> wf_gomap (m_subscriptions m) \<and> no_empty (m_subscriptions m)
     \<and> wf_gomap (m_pendingSubscriptions m)
     \<and> (\<forall>ch. distinct (slice_at (m_subscriptions m) ch))
     \<and> (\<forall>ch p. map_of (m_pendingSubscriptions m) ch = Some p \<longrightarrow> p \<in> set (slice_at (m_subscriptions m) ch))
     \<and> m_doneCloses m = (if m_state m = connStateClosed then 1 else 0)"

definition reg_ok :: "pubSubMetadata \<Rightarrow> bool" where
  "reg_ok m \<longleftrightarrow> wf_gomap (m_subscriptions m)"

section \<open>Lemmas\<close>

lemma cow_append_eq [simp]: "cow_append old sub = old @ [sub]"
  using go_copy_append [of old 1 nil_sub] by (simp add: cow_append_def list_update_append)

lemma cow_remove_eq: "idx < length old \<Longrightarrow> cow_remove old idx = slices_Delete old idx (idx + 1)"
proof -
  assume i: "idx < length old"
  then have "go_copy (replicate (length old - 1) nil_sub) (take idx old) =
      take idx old @ replicate (length old - 1 - idx) nil_sub"
    by (cases "idx = length old - 1") (auto simp: go_copy_def min_def)
  with i show ?thesis
    by (simp add: cow_remove_def Let_def slices_Delete_def go_copy_def min_def)
qed

lemma slice_index_cow_remove: "slice_index x xs = Some i \<Longrightarrow> cow_remove xs i = remove1 x xs"
  using slice_index_remove1 [of x xs i] cow_remove_eq [of i xs] by simp

lemma removeSubscription_subs:
  "slice_at (m_subscriptions (removeSubscription ch x m)) ch' =
     (if ch' = ch then remove1 x (slice_at (m_subscriptions m) ch) else slice_at (m_subscriptions m) ch')"
  by (auto simp: removeSubscription_def Let_def slice_simps slice_index_cow_remove slice_index_None
      remove1_idem split: option.splits)

lemma removeSubscription_pending:
  "wf_gomap (m_pendingSubscriptions m) \<Longrightarrow>
   map_of (m_pendingSubscriptions (removeSubscription ch x m)) =
     (if map_of (m_pendingSubscriptions m) ch = Some x then (map_of (m_pendingSubscriptions m))(ch := None)
      else map_of (m_pendingSubscriptions m))"
  by (auto simp: removeSubscription_def Let_def delete_conv' split: option.splits)

lemma removeSubscription_frame [simp]:
  "m_state (removeSubscription ch x m) = m_state m" "m_doneCloses (removeSubscription ch x m) = m_doneCloses m"
  "m_loopDoneCloses (removeSubscription ch x m) = m_loopDoneCloses m"
  "m_cmdCh (removeSubscription ch x m) = m_cmdCh m" "m_nodeAddr (removeSubscription ch x m) = m_nodeAddr m"
  by (simp_all add: removeSubscription_def Let_def split: option.split)

lemma removeSubscription_wf:
  "wf_gomap (m_subscriptions m) \<Longrightarrow> wf_gomap (m_subscriptions (removeSubscription ch x m))"
  "wf_gomap (m_subscriptions m) \<Longrightarrow> no_empty (m_subscriptions m) \<Longrightarrow>
     no_empty (m_subscriptions (removeSubscription ch x m))"
  "wf_gomap (m_pendingSubscriptions m) \<Longrightarrow> wf_gomap (m_pendingSubscriptions (removeSubscription ch x m))"
  by (auto simp: removeSubscription_def Let_def intro: inv_intros split: option.split)

lemma addCheckFirst_subs:
  "slice_at (m_subscriptions (fst (addSubscriptionAndCheckFirst x ch m))) ch' =
     (if ch' = ch then slice_at (m_subscriptions m) ch @ [x] else slice_at (m_subscriptions m) ch')"
  by (auto simp: addSubscriptionAndCheckFirst_def Let_def slice_simps split: option.split)

lemma addCheckFirst_wf:
  "wf_gomap (m_subscriptions m) \<Longrightarrow> wf_gomap (m_subscriptions (fst (addSubscriptionAndCheckFirst x ch m)))"
  by (auto simp: addSubscriptionAndCheckFirst_def Let_def intro: inv_intros split: option.split)

text \<open>The connection's map, filled by \<open>addSubscriptionAndCheckFirst\<close>, is a registry that keeps all.\<close>

interpretation mreg: sub_registry "\<lambda>m ch. slice_at (m_subscriptions m) ch"
  "\<lambda>ch x m. fst (addSubscriptionAndCheckFirst x ch m)" removeSubscription "\<lambda>_. True" reg_ok
  by unfold_locales
     (auto simp: reg_ok_def addCheckFirst_subs addCheckFirst_wf removeSubscription_wf removeSubscription_subs)

lemma meta_inv_iff: "meta_inv m \<longleftrightarrow> regs_inv m \<and> m_doneCloses m = (if m_state m = connStateClosed then 1 else 0)"
  by (simp add: meta_inv_def regs_inv_def)

lemma addCheckFirst_frame [simp]:
  "m_state (fst (addSubscriptionAndCheckFirst x ch m)) = m_state m"
  "m_doneCloses (fst (addSubscriptionAndCheckFirst x ch m)) = m_doneCloses m"
  "m_nodeAddr (fst (addSubscriptionAndCheckFirst x ch m)) = m_nodeAddr m"
  by (simp_all add: addSubscriptionAndCheckFirst_def Let_def split: option.split)

lemma regs_inv_cong:
  "m_subscriptions m' = m_subscriptions m \<Longrightarrow> m_pendingSubscriptions m' = m_pendingSubscriptions m \<Longrightarrow> regs_inv m' = regs_inv m"
  by (simp add: regs_inv_def)

lemma regs_inv_new: "regs_inv (newMetadata addr)"
  by (simp add: regs_inv_def newMetadata_def)

lemma regs_inv_addCheckFirst:
  assumes "regs_inv m" and "x \<notin> set (slice_at (m_subscriptions m) ch)"
  shows "regs_inv (fst (addSubscriptionAndCheckFirst x ch m))"
proof (cases "map_of (m_pendingSubscriptions m) ch")
  case None
  then show ?thesis using assms
    by (auto simp: regs_inv_def addSubscriptionAndCheckFirst_def Let_def slice_simps update_conv'
        intro: inv_intros split: if_splits)
next
  case (Some p)
  then have "p \<in> set (slice_at (m_subscriptions m) ch)" using assms(1) by (simp add: regs_inv_def)
  with Some assms show ?thesis
    by (auto simp: regs_inv_def addSubscriptionAndCheckFirst_def Let_def slice_simps intro: inv_intros)
qed

lemma regs_inv_addSubscription: "regs_inv m \<Longrightarrow> regs_inv (addSubscription ch x m)"
  by (auto simp: regs_inv_def addSubscription_def Let_def slice_simps intro: inv_intros)

lemma regs_inv_remove: "regs_inv m \<Longrightarrow> regs_inv (removeSubscription ch x m)"
  unfolding regs_inv_def
  by (auto simp: removeSubscription_wf removeSubscription_subs removeSubscription_pending split: if_splits)

lemma regs_inv_removePending: "regs_inv m \<Longrightarrow> regs_inv (removePendingSubscription ch m)"
  by (auto simp: regs_inv_def removePendingSubscription_def delete_conv' intro: inv_intros split: if_splits)

lemma regs_inv_addPending:
  "regs_inv m \<Longrightarrow> x \<in> set (slice_at (m_subscriptions m) ch) \<Longrightarrow> regs_inv (addPendingSubscription ch x m)"
  by (auto simp: regs_inv_def addPendingSubscription_def update_conv' intro: inv_intros split: if_splits)

lemma regs_inv_close [simp]: "regs_inv (fst (close_locked m)) = regs_inv m" "regs_inv (close_client m) = regs_inv m"
  by (simp_all add: regs_inv_def close_locked_def close_client_def)

lemma regs_inv_setState [simp]: "regs_inv (meta_setState st m) = regs_inv m"
  by (simp add: regs_inv_def meta_setState_def)

lemma meta_inv_new: "meta_inv (newMetadata addr)"
  by (simp add: meta_inv_def newMetadata_def)

lemma meta_inv_addCheckFirst:
  "meta_inv m \<Longrightarrow> x \<notin> set (slice_at (m_subscriptions m) ch) \<Longrightarrow> meta_inv (fst (addSubscriptionAndCheckFirst x ch m))"
  by (simp add: meta_inv_iff regs_inv_addCheckFirst)

lemma meta_inv_remove: "meta_inv m \<Longrightarrow> meta_inv (removeSubscription ch x m)"
  by (simp add: meta_inv_iff regs_inv_remove)

lemma meta_inv_removePending: "meta_inv m \<Longrightarrow> meta_inv (removePendingSubscription ch m)"
  unfolding meta_inv_iff by (simp add: regs_inv_removePending) (simp add: removePendingSubscription_def)

lemma meta_inv_close: "meta_inv m \<Longrightarrow> meta_inv (fst (close_locked m))"
  unfolding meta_inv_iff by (simp, simp add: close_locked_def)

lemma getAllSubscriptions_eq: "getAllSubscriptions m = all_slices (m_subscriptions m)"
  by (simp add: getAllSubscriptions_def fold_collect)

lemma meta_subscriptionCount_eq: "meta_subscriptionCount m = length (getAllSubscriptions m)"
  by (simp add: meta_subscriptionCount_def getAllSubscriptions_eq fold_count)

section \<open>Concurrent subscribers as a transition system\<close>

text \<open>
  The critical sections that subscribers, unsubscribers and the event loop run on one connection, in any
  order. \<open>k_grants ch\<close> counts how often \<open>needsSubscribe\<close> was granted for the channel since it last had
  no registered subscription.
\<close>

record conn_sys =
  k_meta :: pubSubMetadata
  k_grants :: "string \<Rightarrow> nat"

definition conn_init :: "conn_sys \<Rightarrow> bool" where
  "conn_init s \<longleftrightarrow> (\<exists>addr. s = \<lparr>k_meta = newMetadata addr, k_grants = (\<lambda>_. 0)\<rparr>)"

text \<open>The channel's count starts anew when its last subscription is gone.\<close>

definition settle :: "conn_sys \<Rightarrow> conn_sys" where
  "settle s = s\<lparr>k_grants := (\<lambda>ch. if slice_at (m_subscriptions (k_meta s)) ch = [] then 0 else k_grants s ch)\<rparr>"

inductive conn_step :: "conn_sys \<Rightarrow> conn_sys \<Rightarrow> bool" where
  subscribe: "x \<notin> set (getSubscriptions ch (k_meta s)) \<Longrightarrow>
     addSubscriptionAndCheckFirst x ch (k_meta s) = (m, needs, ex) \<Longrightarrow>
     conn_step s (s\<lparr>k_meta := m, k_grants := (k_grants s)(ch := k_grants s ch + (if needs then 1 else 0))\<rparr>)"
| unsubscribe: "conn_step s (settle (s\<lparr>k_meta := removeSubscription ch x (k_meta s)\<rparr>))"
| confirmation: "conn_step s (s\<lparr>k_meta := removePendingSubscription ch (k_meta s)\<rparr>)"
| failure: "conn_step s (s\<lparr>k_meta := meta_setState connStateFailed (k_meta s)\<rparr>)"
| closing: "conn_step s (s\<lparr>k_meta := fst (close_locked (k_meta s))\<rparr>)"

definition conn_inv :: "conn_sys \<Rightarrow> bool" where
  "conn_inv s \<longleftrightarrow> regs_inv (k_meta s) \<and>
     (\<forall>ch. k_grants s ch = (if getSubscriptions ch (k_meta s) = [] then 0 else 1))"

lemma regs_inv_no_pending:
  "regs_inv m \<Longrightarrow> slice_at (m_subscriptions m) ch = [] \<Longrightarrow> map_of (m_pendingSubscriptions m) ch = None"
  unfolding regs_inv_def by (metis empty_iff list.set(1) not_None_eq)

lemma meta_inv_no_pending:
  "meta_inv m \<Longrightarrow> slice_at (m_subscriptions m) ch = [] \<Longrightarrow> map_of (m_pendingSubscriptions m) ch = None"
  by (simp add: meta_inv_iff regs_inv_no_pending)

lemma addCheckFirst_cases:
  assumes "regs_inv m"
  shows "addSubscriptionAndCheckFirst x ch m =
    (let m1 = m\<lparr>m_subscriptions := AList.update ch (getSubscriptions ch m @ [x]) (m_subscriptions m)\<rparr>
     in if getSubscriptions ch m = []
        then (m1\<lparr>m_pendingSubscriptions := AList.update ch x (m_pendingSubscriptions m)\<rparr>, True, None)
        else (m1, False, getPendingSubscription ch m))"
proof -
  have "map_of (m_pendingSubscriptions m) ch = None" if "slice_at (m_subscriptions m) ch = []"
    using assms that by (rule regs_inv_no_pending)
  then show ?thesis
    by (auto simp: addSubscriptionAndCheckFirst_def getSubscriptions_def getPendingSubscription_def Let_def
        split: option.split)
qed

lemma conn_inv_init: "conn_init s \<Longrightarrow> conn_inv s"
  by (auto simp: conn_init_def conn_inv_def regs_inv_new) (simp add: newMetadata_def getSubscriptions_def)

lemma conn_inv_step: "conn_step s t \<Longrightarrow> conn_inv s \<Longrightarrow> conn_inv t"
proof (induction rule: conn_step.induct)
  case (subscribe x ch s m needs ex)
  have mi: "regs_inv (k_meta s)" using subscribe.prems by (simp add: conn_inv_def)
  have "m = fst (addSubscriptionAndCheckFirst x ch (k_meta s))" by (simp add: subscribe.hyps(2))
  then have "regs_inv m" using regs_inv_addCheckFirst [OF mi, of x ch] subscribe.hyps(1)
    by (simp add: getSubscriptions_def)
  then show ?case using subscribe.prems subscribe.hyps(2) addCheckFirst_cases [OF mi, of x ch]
    by (auto simp: conn_inv_def getSubscriptions_def slice_simps Let_def split: if_splits)
next
  case (unsubscribe s ch x)
  then show ?case
    by (auto simp: conn_inv_def settle_def getSubscriptions_def removeSubscription_subs intro: regs_inv_remove)
next
  case (confirmation s ch)
  then show ?case
    by (auto simp: conn_inv_def intro: regs_inv_removePending)
       (auto simp: removePendingSubscription_def getSubscriptions_def)
next
  case (failure s)
  then show ?case
    by (auto simp: conn_inv_def) (auto simp: meta_setState_def getSubscriptions_def)
next
  case (closing s)
  then show ?case
    by (auto simp: conn_inv_def) (auto simp: close_locked_def getSubscriptions_def split: if_splits)
qed

interpretation connsys: transition_system conn_init conn_step conn_inv
  by unfold_locales (auto intro: conn_inv_init conn_inv_step)

section \<open>Properties\<close>


definition conn0 :: conn_sys where
  "conn0 = \<lparr>k_meta = newMetadata ''n:1'', k_grants = (\<lambda>_. 0)\<rparr>"

lemma conn0_init: "conn_init conn0"
  unfolding conn_init_def conn0_def by blast

definition conn1 :: conn_sys where
  "conn1 = conn0\<lparr>k_meta := (newMetadata ''n:1'')\<lparr>m_subscriptions := [(''c'', [4])],
     m_pendingSubscriptions := [(''c'', 4)]\<rparr>, k_grants := (\<lambda>_. 0)(''c'' := 1)\<rparr>"

lemma conn1_step: "conn_step conn0 conn1"
proof -
  have "addSubscriptionAndCheckFirst 4 ''c'' (k_meta conn0) = (k_meta conn1, True, None)"
    by (simp add: addSubscriptionAndCheckFirst_def conn0_def conn1_def newMetadata_def)
  from conn_step.subscribe [of 4 "''c''" conn0, OF _ this] show ?thesis
    by (simp add: conn0_def conn1_def getSubscriptions_def newMetadata_def)
qed

lemma conn1_reachable: "conn_step\<^sup>*\<^sup>* conn0 conn1"
  using conn1_step by (rule r_into_rtranclp)


text \<open>Registering and removing a subscription are inverse: for a subscription not yet registered, the
  removal after \<open>addSubscriptionAndCheckFirst\<close> restores the subscriptions of every channel and the
  pending entries, so a failed subscriber leaves no trace on the connection.\<close>

theorem register_remove_roundtrip:
  assumes "regs_inv m" and "x \<notin> set (getSubscriptions ch m)"
  shows "let m' = removeSubscription ch x (fst (addSubscriptionAndCheckFirst x ch m))
    in getSubscriptions ch' m' = getSubscriptions ch' m
       \<and> getPendingSubscription ch' m' = getPendingSubscription ch' m \<and> regs_inv m'"
proof -
  let ?m1 = "fst (addSubscriptionAndCheckFirst x ch m)"
  have wf: "wf_gomap (m_pendingSubscriptions m)" "reg_ok m" using assms(1) by (auto simp: regs_inv_def reg_ok_def)
  have inv: "regs_inv ?m1" using regs_inv_addCheckFirst assms by (simp add: getSubscriptions_def)
  have sub: "getSubscriptions ch' (removeSubscription ch x ?m1) = getSubscriptions ch' m"
    using mreg.add_del [OF wf(2), of x ch ch'] assms(2) by (simp add: getSubscriptions_def)
  have np: "map_of (m_pendingSubscriptions m) ch \<noteq> Some x"
    using assms by (auto simp: regs_inv_def getSubscriptions_def)
  have no: "map_of (m_pendingSubscriptions m) ch = None" if "getSubscriptions ch m = []"
    using regs_inv_no_pending [OF assms(1)] that by (simp add: getSubscriptions_def)
  have "map_of (m_pendingSubscriptions (removeSubscription ch x ?m1)) ch' = map_of (m_pendingSubscriptions m) ch'"
    using removeSubscription_pending [of ?m1 ch x] addCheckFirst_cases [OF assms(1), of x ch] inv np no
    by (auto simp: Let_def regs_inv_def update_conv' getPendingSubscription_def split: if_splits)
  with sub regs_inv_remove [OF inv] show ?thesis by (simp add: getPendingSubscription_def Let_def)
qed

theorem register_remove_roundtrip_witness:
  "getSubscriptions ''c'' (removeSubscription ''c'' 5 (fst (addSubscriptionAndCheckFirst 5 ''c'' (k_meta conn1)))) = [4]"
proof -
  have "regs_inv (k_meta conn1)"
    using connsys.inv_reachable [OF conn0_init conn1_reachable] by (simp add: conn_inv_def)
  moreover have "getSubscriptions ''c'' (k_meta conn1) = [4]" by (simp add: conn1_def getSubscriptions_def slice_at_def)
  ultimately show ?thesis using register_remove_roundtrip [of "k_meta conn1" 5 "''c''" "''c''"] by (simp add: Let_def)
qed

text \<open>\<open>sendCommand\<close> on every branch: a nil result means that the command was appended to the command
  channel, which never holds more than 100 commands; an error leaves the connection unchanged; and the
  call blocks only while the channel is full, the connection is open, its loop runs and the context is
  not done, so it never blocks on a connection that has been shut down.\<close>

theorem sendCommand_spec:
  assumes "length (m_cmdCh m) \<le> cmdChCap"
  shows "case sendCommand pick ctxErr cmd m of
      None \<Rightarrow> length (m_cmdCh m) = cmdChCap \<and> m_loopDoneCloses m = 0 \<and> m_doneCloses m = 0 \<and> ctxErr = None
    | Some (m', None) \<Rightarrow> m' = m\<lparr>m_cmdCh := m_cmdCh m @ [cmd]\<rparr> \<and> length (m_cmdCh m') \<le> cmdChCap
    | Some (m', Some e) \<Rightarrow> m' = m \<and>
        (e = errEventLoopStopped \<and> m_loopDoneCloses m > 0 \<or> e = Errorf ''pubsub closed'' \<and> m_doneCloses m > 0
         \<or> ctxErr = Some e)"
  using assms
  by (auto simp: sendCommand_def go_select_None dest!: go_select_ready split: option.split)

theorem sendCommand_spec_witness:
  "\<exists>m'. sendCommand 0 None \<lparr>c_ctx = None, c_cmd = cmdSubscribe, c_args = [''c''], c_sub = Some 4, c_response = Some 0\<rparr>
      (newMetadata ''n:1'') = Some (m', None) \<and> length (m_cmdCh m') \<le> 100"
proof -
  let ?c = "\<lparr>c_ctx = None, c_cmd = cmdSubscribe, c_args = [''c''], c_sub = Some 4, c_response = Some 0\<rparr>"
  have "sendCommand 0 None ?c (newMetadata ''n:1'') = Some ((newMetadata ''n:1'')\<lparr>m_cmdCh := [?c]\<rparr>, None)"
    by (simp add: sendCommand_def go_select_def newMetadata_def cmdChCap_def)
  then show ?thesis using sendCommand_spec [where m = "newMetadata ''n:1''" and pick = 0 and ctxErr = None and cmd = ?c]
    by (simp add: newMetadata_def cmdChCap_def)
qed

text \<open>A command can be accepted by a connection whose event loop is gone: the select of \<open>sendCommand\<close>
  may choose the buffered command channel although \<open>loopDone\<close> is closed, and nobody will read it.\<close>

theorem sendCommand_after_exit:
  assumes "m_loopDoneCloses m > 0" and "length (m_cmdCh m) < cmdChCap"
  shows "\<exists>pick. sendCommand pick ctxErr cmd m = Some (m\<lparr>m_cmdCh := m_cmdCh m @ [cmd]\<rparr>, None)"
  unfolding sendCommand_def by (rule go_select_can_pick) (simp add: assms)

theorem sendCommand_after_exit_witness:
  "\<exists>pick m'. sendCommand pick None \<lparr>c_ctx = None, c_cmd = [], c_args = [], c_sub = None, c_response = None\<rparr>
     ((newMetadata ''n:1'')\<lparr>m_loopDoneCloses := 1\<rparr>) = Some (m', None)"
  using sendCommand_after_exit [where m = "(newMetadata ''n:1'')\<lparr>m_loopDoneCloses := 1\<rparr>" and ctxErr = None
    and cmd = "\<lparr>c_ctx = None, c_cmd = [], c_args = [], c_sub = None, c_response = None\<rparr>"]
  by (auto simp: newMetadata_def cmdChCap_def)

end
