(* ===== verification/Go_Strings.thy ===== *)
theory Go_Strings
  imports Go_Types "HOL-Library.Sublist"
begin

text \<open>
  The functions of Go's \<open>strings\<close>, \<open>strconv\<close> and \<open>bufio\<close> that the code uses, on byte strings: splitting,
  trimming, joining, decimal numbers, and the lines of a \<open>bufio.Scanner\<close>. The white space of
  \<open>strings.Fields\<close> and \<open>strings.TrimSpace\<close> is that of ASCII.
\<close>

section \<open>Functions\<close>

definition isSpace :: "char \<Rightarrow> bool" where
  "isSpace c \<longleftrightarrow> of_char c \<in> {9, 10, 11, 12, 13, 32 :: nat}"

definition newline :: char where
  "newline = CHR 0x0A"

text \<open>\<open>strings.Split\<close> with a one-character separator given by a predicate.\<close>

fun splitBy :: "(char \<Rightarrow> bool) \<Rightarrow> string \<Rightarrow> string list" where
  "splitBy p [] = [[]]"
| "splitBy p (c # s) = (if p c then [] # splitBy p s
     else (case splitBy p s of [] \<Rightarrow> [[c]] | w # ws \<Rightarrow> (c # w) # ws))"

definition strings_TrimSpace :: "string \<Rightarrow> string" where
  "strings_TrimSpace s = rev (dropWhile isSpace (rev (dropWhile isSpace s)))"

definition strings_Fields :: "string \<Rightarrow> string list" where
  "strings_Fields s = filter (\<lambda>w. w \<noteq> []) (splitBy isSpace s)"

fun strings_Contains :: "string \<Rightarrow> string \<Rightarrow> bool" where
  "strings_Contains [] sub = (sub = [])"
| "strings_Contains (c # s) sub = (prefix sub (c # s) \<or> strings_Contains s sub)"

text \<open>\<open>strings.Join\<close> with a one-character separator.\<close>

fun joinWith :: "char \<Rightarrow> string list \<Rightarrow> string" where
  "joinWith c [] = []"
| "joinWith c [w] = w"
| "joinWith c (w # ws) = w @ c # joinWith c ws"

text \<open>\<open>strconv.Atoi\<close>: an optional sign and decimal digits, within 64 bits; \<open>None\<close> is the error.\<close>

definition isDigit :: "char \<Rightarrow> bool" where
  "isDigit c \<longleftrightarrow> of_char c \<in> {48..57 :: nat}"

definition digits_value :: "string \<Rightarrow> nat" where
  "digits_value s = foldl (\<lambda>n c. 10 * n + (of_char c - 48)) 0 s"

definition strconv_Atoi :: "string \<Rightarrow> int option" where
  "strconv_Atoi s =
     (let (neg, ds) = (case s of [] \<Rightarrow> (False, [])
         | c # t \<Rightarrow> if c = CHR ''-'' then (True, t) else if c = CHR ''+'' then (False, t) else (False, s));
          n = int (digits_value ds); v = (if neg then - n else n)
      in if ds = [] \<or> \<not> list_all isDigit ds \<or> v < - (2 ^ 63) \<or> v \<ge> 2 ^ 63 then None else Some v)"

text \<open>The tokens of a \<open>bufio.Scanner\<close> that splits lines: it stops at a line that does not fit its buffer.
  The code trims every token and skips empty ones, so it does not matter that the scanner drops a trailing
  carriage return and an empty last line.\<close>

definition scanner_lines :: "string \<Rightarrow> string list" where
  "scanner_lines s = takeWhile (\<lambda>l. length l < 65536) (splitBy (\<lambda>c. c = newline) s)"

section \<open>Lemmas\<close>

lemma splitBy_not_Nil [simp]: "splitBy p s \<noteq> []"
  by (cases s) (simp_all split: list.split)

lemma splitBy_none: "list_all (\<lambda>c. \<not> p c) w \<Longrightarrow> splitBy p w = [w]"
  by (induction w) simp_all

lemma splitBy_append: "list_all (\<lambda>c. \<not> p c) w \<Longrightarrow> p c \<Longrightarrow> splitBy p (w @ c # s) = w # splitBy p s"
  by (induction w) (simp_all split: list.split)

lemma splitBy_append_word:
  "list_all (\<lambda>c. \<not> p c) v \<Longrightarrow> p c \<Longrightarrow> splitBy p (s @ c # v) = splitBy p s @ [v]"
  by (induction s) (auto simp: splitBy_none split: list.split)

lemma splitBy_last: "p c \<Longrightarrow> splitBy p (s @ [c]) = splitBy p s @ [[]]"
  using splitBy_append_word [of p "[]" c s] by simp

lemma contains_sublist: "strings_Contains s sub \<longleftrightarrow> sublist sub s"
  by (induction s) (auto simp: sublist_Cons_right)

lemma trim_no_space: "list_all (\<lambda>c. \<not> isSpace c) w \<Longrightarrow> strings_TrimSpace w = w"
proof -
  assume w: "list_all (\<lambda>c. \<not> isSpace c) w"
  have d: "dropWhile isSpace v = v" if "list_all (\<lambda>c. \<not> isSpace c) v" for v using that by (cases v) simp_all
  have "list_all (\<lambda>c. \<not> isSpace c) (rev w)" using w by (simp add: list_all_iff)
  with w show ?thesis by (simp add: strings_TrimSpace_def d)
qed

lemma isSpace_newline [simp]: "isSpace newline"
  by (simp add: isSpace_def newline_def)

lemma no_space_no_newline: "list_all (\<lambda>c. \<not> isSpace c) w \<Longrightarrow> list_all (\<lambda>c. c \<noteq> newline) w"
  by (auto simp: list_all_iff)

subsection \<open>Decimal numbers\<close>

lemma showNat_not_Nil [simp]: "showNat n \<noteq> []"
  by (subst showNat.simps) simp

lemma of_char_digit [simp]: "n < 10 \<Longrightarrow> of_char (char_of (48 + n)) = 48 + (n :: nat)"
  by (simp add: of_char_of)

lemma showNat_digits: "list_all isDigit (showNat n)"
proof (induction n rule: showNat.induct)
  case (1 n)
  have "isDigit (char_of (48 + m))" if "m < 10" for m :: nat using that by (simp add: isDigit_def)
  with 1 show ?case by (subst showNat.simps) simp
qed

lemma digits_value_showNat: "digits_value (showNat n) = n"
proof (induction n rule: showNat.induct)
  case (1 n)
  then show ?case by (subst showNat.simps) (simp add: digits_value_def)
qed

lemma digit_no_space: "isDigit c \<Longrightarrow> \<not> isSpace c \<and> c \<noteq> CHR ''-'' \<and> c \<noteq> CHR ''+''"
  by (auto simp: isDigit_def isSpace_def)

lemma showInt_no_space: "list_all (\<lambda>c. \<not> isSpace c) (showInt i)"
  using showNat_digits digit_no_space by (auto simp: showInt_def list_all_iff isSpace_def)

lemma showInt_not_Nil [simp]: "showInt i \<noteq> []"
  by (simp add: showInt_def)

lemma length_showNat: "n < 10 ^ k \<Longrightarrow> 0 < k \<Longrightarrow> length (showNat n) \<le> k"
proof (induction k arbitrary: n)
  case (Suc k)
  show ?case
  proof (cases "n < 10")
    case True
    then show ?thesis by (subst showNat.simps) simp
  next
    case False
    then have "n div 10 < 10 ^ k" "k > 0" using Suc.prems by (auto simp: less_mult_imp_div_less intro: ccontr)
    with Suc.IH [of "n div 10"] False show ?thesis by (subst showNat.simps) simp
  qed
qed simp

lemma Atoi_showInt:
  assumes "- (2 ^ 63) \<le> i" and "i < 2 ^ 63"
  shows "strconv_Atoi (showInt i) = Some i"
proof (cases "i < 0")
  case True
  then show ?thesis using assms showNat_digits [of "nat (- i)"]
    by (simp add: strconv_Atoi_def showInt_def digits_value_showNat Let_def)
next
  case False
  obtain c t where c: "showNat (nat i) = c # t" by (cases "showNat (nat i)") simp_all
  with showNat_digits [of "nat i"] have "isDigit c" by simp
  then have "c \<noteq> CHR ''-''" "c \<noteq> CHR ''+''" using digit_no_space by blast+
  with False assms c digits_value_showNat [of "nat i"] showNat_digits [of "nat i"] show ?thesis
    by (simp add: strconv_Atoi_def showInt_def Let_def)
qed

lemma showNat_inj: "showNat m = showNat n \<Longrightarrow> m = n"
  by (metis digits_value_showNat)

lemma showInt_inj:
  assumes "showInt i = showInt j"
  shows "i = j"
proof -
  have sign: "\<exists>c t. showNat n = c # t \<and> c \<noteq> CHR ''-''" for n
    using showNat_digits [of n] digit_no_space by (cases "showNat n") auto
  show ?thesis
  proof (cases "i < 0 \<longleftrightarrow> j < 0")
    case True
    then show ?thesis using assms by (auto simp: showInt_def dest!: showNat_inj split: if_splits)
  next
    case False
    then show ?thesis using assms sign [of "nat i"] sign [of "nat j"] by (auto simp: showInt_def split: if_splits)
  qed
qed

lemma showInt_short:
  assumes "\<bar>i\<bar> < 10 ^ 19"
  shows "length (showInt i) < 65536"
proof -
  have "length (showNat (nat \<bar>i\<bar>)) \<le> 19" using assms by (intro length_showNat) simp_all
  then show ?thesis by (auto simp: showInt_def split: if_splits)
qed

end
