(* ===== verification/Topology.thy ===== *)
theory Topology
  imports Go_Strings
begin

text \<open>
  \<open>topology.go\<close>, first part: the snapshot of the cluster's topology, how it is built from
  \<open>CLUSTER SLOTS\<close> and enriched from the text of \<open>CLUSTER NODES\<close>, how a node is selected for a
  hashslot, and how two snapshots are compared. Addresses are byte strings.
\<close>

section \<open>The source's types and methods\<close>

text \<open>\<open>redis.ClusterSlot\<close>: a range of slots and the addresses of its nodes, master first.\<close>

record ClusterSlot =
  slot_Start :: int
  slot_End :: int
  slot_Nodes :: "string list"

record topologyState =
  ts_hashslotToNode :: "(int, string) gomap"
  ts_hashslotToNodes :: "(int, string list) gomap"
  ts_nodeToHashslots :: "(string, int list) gomap"

definition newTopologyState :: topologyState where
  "newTopologyState = \<lparr>ts_hashslotToNode = [], ts_hashslotToNodes = [], ts_nodeToHashslots = []\<rparr>"

text \<open>The body of the inner loop of \<open>update\<close>, for one hashslot.\<close>

definition map_slot :: "string list \<Rightarrow> int \<Rightarrow> topologyState \<Rightarrow> topologyState" where
  "map_slot allNodeAddrs hashslot ts =
     ts\<lparr>ts_hashslotToNode := AList.update hashslot (hd allNodeAddrs) (ts_hashslotToNode ts),
        ts_hashslotToNodes := AList.update hashslot allNodeAddrs (ts_hashslotToNodes ts),
        ts_nodeToHashslots := append_at (hd allNodeAddrs) hashslot (ts_nodeToHashslots ts)\<rparr>"

definition update_range :: "ClusterSlot \<Rightarrow> topologyState \<Rightarrow> topologyState" where
  "update_range slot ts =
     (if slot_Nodes slot = [] then ts
      else fold (map_slot (slot_Nodes slot)) [slot_Start slot..slot_End slot] ts)"

definition update_topology :: "ClusterSlot list \<Rightarrow> topologyState \<Rightarrow> topologyState" where
  "update_topology slots ts = fold update_range slots newTopologyState"

subsection \<open>The text of CLUSTER NODES\<close>

text \<open>What the loop body of \<open>enrichWithReplicaInfo\<close> makes of a line: a master (id, address), a healthy
  replica (address, master id), or nothing.\<close>

datatype nodes_line = MasterLine string string | ReplicaLine string string | OtherLine

definition parse_line :: "string \<Rightarrow> nodes_line" where
  "parse_line rawLine =
     (let line = strings_TrimSpace rawLine in
      if line = [] then OtherLine
      else (let fields = strings_Fields line in
        if length fields < 8 then OtherLine
        else (let nodeID = fields ! 0;
                  addr = splitBy (\<lambda>c. c = CHR ''@'') (fields ! 1) ! 0;
                  flags = fields ! 2;
                  masterID = fields ! 3
              in if strings_Contains flags ''master'' then MasterLine nodeID addr
                 else if strings_Contains flags ''slave'' \<or> strings_Contains flags ''replica''
                 then (if \<not> strings_Contains flags ''fail'' then ReplicaLine addr masterID else OtherLine)
                 else OtherLine)))"

fun collect_line :: "nodes_line \<Rightarrow> (string, string) gomap \<times> (string \<times> string) list \<Rightarrow>
    (string, string) gomap \<times> (string \<times> string) list" where
  "collect_line (MasterLine nodeID addr) (masters, replicas) = (AList.update nodeID addr masters, replicas)"
| "collect_line (ReplicaLine addr masterID) (masters, replicas) = (masters, replicas @ [(addr, masterID)])"
| "collect_line OtherLine acc = acc"

text \<open>The maps built from the whole text: master ids to addresses with the replicas in order, and then
  master addresses to replica addresses.\<close>

definition parse_nodes :: "string \<Rightarrow> (string, string) gomap \<times> (string \<times> string) list" where
  "parse_nodes out =
     fold (\<lambda>line. collect_line (parse_line line)) (splitBy (\<lambda>c. c = CHR 0x0A) out) ([], [])"

definition masterReplicas :: "(string, string) gomap \<Rightarrow> (string \<times> string) list \<Rightarrow> (string, string list) gomap" where
  "masterReplicas masterIDToAddr replicas =
     fold (\<lambda>(addr, masterID) mr.
             case map_of masterIDToAddr masterID of
               None \<Rightarrow> mr
             | Some masterAddr \<Rightarrow> append_at masterAddr addr mr) replicas []"

definition enrich_entry :: "(string, string list) gomap \<Rightarrow> string list \<Rightarrow> string list" where
  "enrich_entry mr nodes =
     (case nodes of
        [] \<Rightarrow> nodes
      | masterAddr # _ \<Rightarrow>
          (case map_of mr masterAddr of
             None \<Rightarrow> nodes
           | Some replicaAddrs \<Rightarrow>
               if replicaAddrs = [] then nodes
               else if length nodes = 1 then nodes @ replicaAddrs else nodes))"

definition enrichWithReplicaInfo :: "string \<Rightarrow> topologyState \<Rightarrow> topologyState" where
  "enrichWithReplicaInfo clusterNodesOutput ts =
     (let (masterIDToAddr, replicas) = parse_nodes clusterNodesOutput;
          mr = masterReplicas masterIDToAddr replicas
      in ts\<lparr>ts_hashslotToNodes := map (\<lambda>(hs, nodes). (hs, enrich_entry mr nodes)) (ts_hashslotToNodes ts)\<rparr>)"

subsection \<open>Lookups and selection\<close>

definition ts_getNodeForHashslot :: "int \<Rightarrow> topologyState \<Rightarrow> string option" where
  "ts_getNodeForHashslot hashslot ts = map_of (ts_hashslotToNode ts) hashslot"

definition ts_getNodesForHashslot :: "int \<Rightarrow> topologyState \<Rightarrow> string list option" where
  "ts_getNodesForHashslot hashslot ts =
     (case map_of (ts_hashslotToNodes ts) hashslot of
        None \<Rightarrow> None
      | Some nodes \<Rightarrow> Some (go_copy (replicate (length nodes) []) nodes))"

text \<open>\<open>rnd\<close> is the value drawn by \<open>rand.Intn\<close> before its reduction.\<close>

definition selectNodeForHashslot :: "nat \<Rightarrow> int \<Rightarrow> NodePreference \<Rightarrow> topologyState \<Rightarrow> string option" where
  "selectNodeForHashslot rnd hashslot preference ts =
     (case ts_getNodesForHashslot hashslot ts of
        None \<Rightarrow> None
      | Some nodes \<Rightarrow>
          if nodes = [] then None
          else (case preference of
                  PreferMasters \<Rightarrow> Some (nodes ! 0)
                | PreferReplicas \<Rightarrow>
                    if length nodes > 1 then Some (nodes ! (1 + rnd mod (length nodes - 1)))
                    else Some (nodes ! 0)
                | BalancedAll \<Rightarrow> Some (nodes ! 0)
                | OtherPreference _ \<Rightarrow> Some (nodes ! 0)))"

definition ts_getAnySlotForNode :: "string \<Rightarrow> topologyState \<Rightarrow> int option" where
  "ts_getAnySlotForNode nodeAddr ts =
     (case map_of (ts_nodeToHashslots ts) nodeAddr of
        None \<Rightarrow> None
      | Some slots \<Rightarrow> if slots = [] then None else Some (slots ! 0))"

subsection \<open>Comparison\<close>

record hashslotMigration =
  mig_hashslot :: int
  mig_oldNode :: string
  mig_newNode :: string

definition compareAndDetectChanges :: "topologyState \<Rightarrow> topologyState \<Rightarrow> hashslotMigration list" where
  "compareAndDetectChanges ts previous =
     (let modified = fold (\<lambda>(hs, currentNode) ms.
            case map_of (ts_hashslotToNode previous) hs of
              None \<Rightarrow> ms @ [\<lparr>mig_hashslot = hs, mig_oldNode = [], mig_newNode = currentNode\<rparr>]
            | Some previousNode \<Rightarrow>
                if previousNode \<noteq> currentNode
                then ms @ [\<lparr>mig_hashslot = hs, mig_oldNode = previousNode, mig_newNode = currentNode\<rparr>]
                else ms) (ts_hashslotToNode ts) []
      in fold (\<lambda>(hs, previousNode) ms.
            if map_of (ts_hashslotToNode ts) hs = None
            then ms @ [\<lparr>mig_hashslot = hs, mig_oldNode = previousNode, mig_newNode = []\<rparr>]
            else ms) (ts_hashslotToNode previous) modified)"

section \<open>Invariant\<close>

text \<open>Index 0 of the nodes of a slot is its master, and a slot is listed under its master.\<close>

definition topo_inv :: "topologyState \<Rightarrow> bool" where
  "topo_inv ts \<longleftrightarrow> wf_gomap (ts_hashslotToNode ts) \<and> wf_gomap (ts_hashslotToNodes ts)
     \<and> (\<forall>hs. ts_getNodeForHashslot hs ts = map_option hd (map_of (ts_hashslotToNodes ts) hs))
     \<and> (\<forall>hs ns. map_of (ts_hashslotToNodes ts) hs = Some ns \<longrightarrow> ns \<noteq> [])
     \<and> (\<forall>hs n. ts_getNodeForHashslot hs ts = Some n \<longrightarrow> hs \<in> set (slice_at (ts_nodeToHashslots ts) n))"

section \<open>Lemmas\<close>

lemma topo_inv_new: "topo_inv newTopologyState"
  by (simp add: topo_inv_def newTopologyState_def ts_getNodeForHashslot_def)

lemma topo_inv_map_slot: "ns \<noteq> [] \<Longrightarrow> topo_inv ts \<Longrightarrow> topo_inv (map_slot ns hs ts)"
  by (auto simp: topo_inv_def map_slot_def ts_getNodeForHashslot_def update_conv' slice_simps
      intro: inv_intros)

lemma map_slots_lookup:
  "ts_getNodeForHashslot hs (fold (map_slot ns) xs ts) =
     (if hs \<in> set xs then Some (hd ns) else ts_getNodeForHashslot hs ts)"
  "map_of (ts_hashslotToNodes (fold (map_slot ns) xs ts)) hs =
     (if hs \<in> set xs then Some ns else map_of (ts_hashslotToNodes ts) hs)"
  by (induction xs arbitrary: ts) (auto simp: map_slot_def ts_getNodeForHashslot_def update_conv')

lemma topo_inv_map_slots: "ns \<noteq> [] \<Longrightarrow> topo_inv ts \<Longrightarrow> topo_inv (fold (map_slot ns) xs ts)"
  by (induction xs arbitrary: ts) (auto intro: topo_inv_map_slot)

lemma topo_inv_update_range: "topo_inv ts \<Longrightarrow> topo_inv (update_range slot ts)"
  by (simp add: update_range_def topo_inv_map_slots)

lemma topo_inv_update: "topo_inv (update_topology slots ts)"
proof -
  have "topo_inv ts' \<Longrightarrow> topo_inv (fold update_range slots ts')" for ts'
    by (induction slots arbitrary: ts') (auto intro: topo_inv_update_range)
  then show ?thesis by (simp add: update_topology_def topo_inv_new)
qed

lemma go_copy_full: "go_copy (replicate (length xs) z) xs = xs"
  by (simp add: go_copy_def)

lemma getNodes_eq: "ts_getNodesForHashslot hs ts = map_of (ts_hashslotToNodes ts) hs"
  by (simp add: ts_getNodesForHashslot_def go_copy_full split: option.split)

text \<open>The ranges that contain a slot and have nodes.\<close>

definition covers :: "int \<Rightarrow> ClusterSlot \<Rightarrow> bool" where
  "covers hs slot \<longleftrightarrow> slot_Nodes slot \<noteq> [] \<and> slot_Start slot \<le> hs \<and> hs \<le> slot_End slot"

lemma update_range_lookup:
  "map_of (ts_hashslotToNodes (update_range slot ts)) hs =
     (if covers hs slot then Some (slot_Nodes slot) else map_of (ts_hashslotToNodes ts) hs)"
  by (auto simp: update_range_def covers_def map_slots_lookup)

lemma update_fold_lookup:
  "map_of (ts_hashslotToNodes (fold update_range slots ts)) hs =
     (if filter (covers hs) slots = [] then map_of (ts_hashslotToNodes ts) hs
      else Some (slot_Nodes (last (filter (covers hs) slots))))"
proof (induction slots arbitrary: ts)
  case Nil
  then show ?case by simp
next
  case (Cons slot slots)
  show ?case unfolding fold_simps(2) o_apply Cons.IH by (simp add: update_range_lookup)
qed

lemma enrich_entry_hd: "hd (enrich_entry mr nodes) = hd nodes" "enrich_entry mr nodes = [] \<longleftrightarrow> nodes = []"
  by (auto simp: enrich_entry_def split: list.split option.split)

lemma enrich_entry_idem: "enrich_entry mr (enrich_entry mr nodes) = enrich_entry mr nodes"
  by (auto simp: enrich_entry_def split: list.split option.split)

lemma map_of_map_value: "map_of (map (\<lambda>(k, v). (k, f v)) m) k = map_option f (map_of m k)"
  by (induction m) auto

lemma enrich_nodes:
  "map_of (ts_hashslotToNodes (enrichWithReplicaInfo out ts)) hs =
     map_option (enrich_entry (masterReplicas (fst (parse_nodes out)) (snd (parse_nodes out))))
       (map_of (ts_hashslotToNodes ts) hs)"
  by (simp add: enrichWithReplicaInfo_def map_of_map_value split: prod.split)

lemma enrich_frame [simp]:
  "ts_hashslotToNode (enrichWithReplicaInfo out ts) = ts_hashslotToNode ts"
  "ts_nodeToHashslots (enrichWithReplicaInfo out ts) = ts_nodeToHashslots ts"
  by (simp_all add: enrichWithReplicaInfo_def split: prod.split)

lemma topo_inv_enrich: "topo_inv ts \<Longrightarrow> topo_inv (enrichWithReplicaInfo out ts)"
proof -
  assume inv: "topo_inv ts"
  have "wf_gomap (ts_hashslotToNodes (enrichWithReplicaInfo out ts))"
    using inv by (simp add: enrichWithReplicaInfo_def topo_inv_def wf_gomap_def comp_def case_prod_beta
        split: prod.split)
  with inv show ?thesis
    by (auto simp: topo_inv_def ts_getNodeForHashslot_def enrich_nodes enrich_entry_hd
        option.map_comp comp_def)
qed

text \<open>The replicas of the master at an address, in the order of the text.\<close>

definition replicas_of :: "string \<Rightarrow> string \<Rightarrow> string list" where
  "replicas_of out masterAddr =
     map fst (filter (\<lambda>(addr, masterID). map_of (fst (parse_nodes out)) masterID = Some masterAddr)
       (snd (parse_nodes out)))"

lemma masterReplicas_lookup:
  "slice_at (masterReplicas M rs) a = map fst (filter (\<lambda>(addr, mid). map_of M mid = Some a) rs)"
proof -
  have "slice_at (fold (\<lambda>(addr, masterID) mr. case map_of M masterID of None \<Rightarrow> mr
             | Some masterAddr \<Rightarrow> append_at masterAddr addr mr) rs acc) a =
     slice_at acc a @ map fst (filter (\<lambda>(addr, mid). map_of M mid = Some a) rs)" for acc
    by (induction rs arbitrary: acc) (auto simp: slice_simps split: option.split)
  then show ?thesis by (simp add: masterReplicas_def)
qed

lemma enrich_entry_eq:
  "nodes \<noteq> [] \<Longrightarrow> enrich_entry (masterReplicas (fst (parse_nodes out)) (snd (parse_nodes out))) nodes =
     (if length nodes = 1 then nodes @ replicas_of out (hd nodes) else nodes)"
  using masterReplicas_lookup [of "fst (parse_nodes out)" "snd (parse_nodes out)" "hd nodes"]
  by (cases nodes) (auto simp: enrich_entry_def replicas_of_def slice_at_def split: option.splits)

lemma compare_eq:
  "compareAndDetectChanges ts prev =
     map (\<lambda>(hs, n). \<lparr>mig_hashslot = hs,
            mig_oldNode = (case map_of (ts_hashslotToNode prev) hs of None \<Rightarrow> [] | Some p \<Rightarrow> p), mig_newNode = n\<rparr>)
       (filter (\<lambda>(hs, n). map_of (ts_hashslotToNode prev) hs \<noteq> Some n) (ts_hashslotToNode ts))
     @ map (\<lambda>(hs, p). \<lparr>mig_hashslot = hs, mig_oldNode = p, mig_newNode = []\<rparr>)
       (filter (\<lambda>(hs, p). map_of (ts_hashslotToNode ts) hs = None) (ts_hashslotToNode prev))"
proof -
  have a: "fold (\<lambda>(hs, c) ms. case map_of P hs of
              None \<Rightarrow> ms @ [\<lparr>mig_hashslot = hs, mig_oldNode = [], mig_newNode = c\<rparr>]
            | Some q \<Rightarrow> if q \<noteq> c then ms @ [\<lparr>mig_hashslot = hs, mig_oldNode = q, mig_newNode = c\<rparr>] else ms) xs acc
      = acc @ map (\<lambda>(hs, n). \<lparr>mig_hashslot = hs,
            mig_oldNode = (case map_of P hs of None \<Rightarrow> [] | Some p \<Rightarrow> p), mig_newNode = n\<rparr>)
       (filter (\<lambda>(hs, n). map_of P hs \<noteq> Some n) xs)" for P :: "(int \<times> string) list" and xs acc
    by (induction xs arbitrary: acc) (auto split: option.split)
  have b: "fold (\<lambda>(hs, p) ms. if map_of C hs = None
            then ms @ [\<lparr>mig_hashslot = hs, mig_oldNode = p, mig_newNode = []\<rparr>] else ms) xs acc
      = acc @ map (\<lambda>(hs, p). \<lparr>mig_hashslot = hs, mig_oldNode = p, mig_newNode = []\<rparr>)
       (filter (\<lambda>(hs, p). map_of C hs = None) xs)" for C :: "(int \<times> string) list" and xs acc
    by (induction xs arbitrary: acc) auto
  show ?thesis by (simp add: compareAndDetectChanges_def a b)
qed

definition slot_change :: "topologyState \<Rightarrow> topologyState \<Rightarrow> int \<Rightarrow> hashslotMigration" where
  "slot_change ts prev hs = \<lparr>mig_hashslot = hs,
     mig_oldNode = (case ts_getNodeForHashslot hs prev of None \<Rightarrow> [] | Some n \<Rightarrow> n),
     mig_newNode = (case ts_getNodeForHashslot hs ts of None \<Rightarrow> [] | Some n \<Rightarrow> n)\<rparr>"

lemma compare_set:
  assumes "wf_gomap (ts_hashslotToNode ts)" and "wf_gomap (ts_hashslotToNode prev)"
  shows "set (compareAndDetectChanges ts prev) =
    {slot_change ts prev hs | hs. ts_getNodeForHashslot hs ts \<noteq> ts_getNodeForHashslot hs prev}" (is "?L = ?R")
proof (intro equalityI subsetI)
  fix x assume "x \<in> ?L"
  then show "x \<in> ?R"
    by (force simp: compare_eq wf_gomap_map_of [OF assms(1)] wf_gomap_map_of [OF assms(2)] slot_change_def
        ts_getNodeForHashslot_def)
next
  fix x assume "x \<in> ?R"
  then obtain hs where x: "x = slot_change ts prev hs" "ts_getNodeForHashslot hs ts \<noteq> ts_getNodeForHashslot hs prev"
    by blast
  show "x \<in> ?L"
  proof (cases "ts_getNodeForHashslot hs ts")
    case None
    with x obtain p where "map_of (ts_hashslotToNode prev) hs = Some p"
      by (cases "map_of (ts_hashslotToNode prev) hs") (auto simp: ts_getNodeForHashslot_def)
    with x None show ?thesis
      by (force simp: compare_eq wf_gomap_map_of [OF assms(2)] slot_change_def ts_getNodeForHashslot_def)
  next
    case (Some n)
    with x show ?thesis
      by (force simp: compare_eq wf_gomap_map_of [OF assms(1)] slot_change_def ts_getNodeForHashslot_def)
  qed
qed

lemma compare_distinct:
  assumes "wf_gomap (ts_hashslotToNode ts)" and "wf_gomap (ts_hashslotToNode prev)"
  shows "distinct (map mig_hashslot (compareAndDetectChanges ts prev))"
proof -
  have f: "distinct (map fst (filter P xs))" if "distinct (map fst xs)" for P and xs :: "(int \<times> string) list"
    using that by (rule distinct_map_filter)
  have "map mig_hashslot (compareAndDetectChanges ts prev) =
     map fst (filter (\<lambda>(hs, n). map_of (ts_hashslotToNode prev) hs \<noteq> Some n) (ts_hashslotToNode ts))
     @ map fst (filter (\<lambda>(hs, p). map_of (ts_hashslotToNode ts) hs = None) (ts_hashslotToNode prev))"
    by (simp add: compare_eq comp_def case_prod_beta)
  then show ?thesis using assms f by (auto simp: wf_gomap_def map_of_eq_None_iff intro: rev_image_eqI)
qed

section \<open>Properties\<close>

text \<open>\<open>update\<close> on every slot: a slot gets the nodes of the last range with nodes that contains it, and
  none if there is no such range; the master is the first of its nodes, and the slot is listed under its
  master. The previous contents of the state do not matter.\<close>

theorem update_topology_spec:
  "ts_getNodesForHashslot hs (update_topology slots ts) =
     (if filter (covers hs) slots = [] then None else Some (slot_Nodes (last (filter (covers hs) slots))))
   \<and> topo_inv (update_topology slots ts)"
  using update_fold_lookup [of slots newTopologyState hs] topo_inv_update
  by (simp add: getNodes_eq update_topology_def newTopologyState_def)

text \<open>\<open>enrichWithReplicaInfo\<close> keeps the master of every slot and the invariant, adds to a slot that lists
  only its master exactly the healthy replicas of that master that the text names, in its order, leaves
  slots that already list replicas alone, and changes nothing when applied again.\<close>

theorem enrich_spec:
  assumes "topo_inv ts"
  shows "topo_inv (enrichWithReplicaInfo out ts)
    \<and> ts_getNodeForHashslot hs (enrichWithReplicaInfo out ts) = ts_getNodeForHashslot hs ts
    \<and> ts_getNodesForHashslot hs (enrichWithReplicaInfo out ts) =
        map_option (\<lambda>ns. if length ns = 1 then ns @ replicas_of out (hd ns) else ns) (ts_getNodesForHashslot hs ts)
    \<and> enrichWithReplicaInfo out (enrichWithReplicaInfo out ts) = enrichWithReplicaInfo out ts"
proof -
  have ne: "map_of (ts_hashslotToNodes ts) hs = Some ns \<Longrightarrow> ns \<noteq> []" for ns
    using assms by (simp add: topo_inv_def)
  have "enrichWithReplicaInfo out (enrichWithReplicaInfo out ts) = enrichWithReplicaInfo out ts"
    by (simp add: enrichWithReplicaInfo_def comp_def case_prod_beta enrich_entry_idem split: prod.split)
  with assms ne show ?thesis
    by (auto simp: topo_inv_enrich getNodes_eq enrich_nodes ts_getNodeForHashslot_def enrich_entry_eq
        split: option.split intro: map_option_cong)
qed

definition topo0 :: topologyState where
  "topo0 = update_topology [\<lparr>slot_Start = 5, slot_End = 6, slot_Nodes = [''m:1'']\<rparr>] newTopologyState"

definition nodes0 :: string where
  "nodes0 = ''id1 m:1@9 master - 0 0 1 connected 5-6'' @ [CHR 0x0A] @ ''id2 r:1@9 slave id1 0 0 1 connected''"

theorem enrich_spec_witness:
  "ts_getNodesForHashslot 6 (enrichWithReplicaInfo nodes0 topo0) = Some [''m:1'', ''r:1'']"
proof -
  have "topo_inv topo0" by (simp add: topo0_def topo_inv_update)
  moreover have "ts_getNodesForHashslot 6 topo0 = Some [''m:1'']"
    by code_simp
  moreover have "replicas_of nodes0 ''m:1'' = [''r:1'']"
    by code_simp
  ultimately show ?thesis using enrich_spec [of topo0 nodes0 6] by simp
qed

text \<open>Selection respects the preference: a slot with nodes always gets one of them; \<open>PreferReplicas\<close>
  gives a replica whenever there is one, every other preference the master; a slot without nodes gets
  none. This holds for every value of the random source.\<close>

theorem select_respects_preference:
  "case ts_getNodesForHashslot hs ts of
     None \<Rightarrow> selectNodeForHashslot rnd hs pref ts = None
   | Some [] \<Rightarrow> selectNodeForHashslot rnd hs pref ts = None
   | Some (master # replicas) \<Rightarrow>
       if pref = PreferReplicas \<and> replicas \<noteq> []
       then \<exists>r \<in> set replicas. selectNodeForHashslot rnd hs pref ts = Some r
       else selectNodeForHashslot rnd hs pref ts = Some master"
  by (cases pref) (auto simp: selectNodeForHashslot_def split: option.splits list.splits)

text \<open>C32. \<open>compareAndDetectChanges\<close> is sound and complete: the migrations are exactly the slots whose
  owner differs between the two snapshots (appeared, disappeared or moved), each reported once with its
  old and new owner, where an absent owner reads as the empty string.\<close>

theorem compare_sound_complete:
  assumes "topo_inv ts" and "topo_inv prev"
  shows "set (compareAndDetectChanges ts prev) =
      {slot_change ts prev hs | hs. ts_getNodeForHashslot hs ts \<noteq> ts_getNodeForHashslot hs prev}
    \<and> distinct (map mig_hashslot (compareAndDetectChanges ts prev))"
  using assms compare_set compare_distinct by (simp add: topo_inv_def)

theorem compare_sound_complete_witness:
  "\<lparr>mig_hashslot = 5, mig_oldNode = [], mig_newNode = ''m:1''\<rparr> \<in> set (compareAndDetectChanges topo0 newTopologyState)"
proof -
  have "ts_getNodeForHashslot 5 topo0 = Some ''m:1''" by code_simp
  moreover have "ts_getNodeForHashslot 5 newTopologyState = None" by code_simp
  ultimately show ?thesis
    using compare_sound_complete [of topo0 newTopologyState] topo_inv_new
    by (auto simp: topo0_def topo_inv_update slot_change_def intro!: exI [of _ 5])
qed

text \<open>A healthy replica with the flag \<open>nofailover\<close> is ignored: the test for \<open>fail\<close> is a substring test on
  the whole list of flags, so no line whose flags mention \<open>nofailover\<close> ever counts as a replica.\<close>

theorem nofailover_replica_ignored:
  assumes "strings_Contains (strings_Fields (strings_TrimSpace line) ! 2) ''nofailover''"
  shows "parse_line line \<noteq> ReplicaLine addr masterID"
proof -
  have "sublist ''fail'' ''nofailover''" by (simp add: sublist_Cons_right)
  then have "strings_Contains (strings_Fields (strings_TrimSpace line) ! 2) ''fail''"
    using assms unfolding contains_sublist by (rule sublist_order.order_trans)
  then show ?thesis by (simp add: parse_line_def Let_def)
qed

theorem nofailover_replica_ignored_witness:
  "parse_line ''id2 r:1@9 slave,nofailover id1 0 0 1 connected'' \<noteq> ReplicaLine ''r:1'' ''id1''"
  by (rule nofailover_replica_ignored) code_simp

end
