(* ===== verification/Config_Options.thy ===== *)
theory Config_Options
  imports Worker_Pool Metrics
begin

text \<open>
  \<open>config.go\<close> and \<open>subscribe_option.go\<close>: the configuration of a SubMux, its functional options with
  their clamps, and the per-subscription options with the resolution of the effective queue limit
  (from \<open>submux.go\<close>). Durations are \<open>int64\<close> nanoseconds. The logger and the meter provider are
  opaque: only whether a meter provider is set matters here.
\<close>

section \<open>Configuration\<close>

definition Millisecond :: int where "Millisecond = 1000000"
definition Second :: int where "Second = 1000000000"

record config =
  cfg_autoResubscribe :: bool
  cfg_nodePreference :: NodePreference
  cfg_topologyPollInterval :: int
  cfg_migrationTimeout :: int
  cfg_migrationStallCheck :: int
  cfg_callbackWorkers :: int
  cfg_callbackQueueSize :: int
  cfg_subscriptionQueueLimit :: int
  cfg_logger :: nat
  cfg_meterProvider :: "nat option"

definition defaultConfig :: config where
  "defaultConfig = \<lparr>cfg_autoResubscribe = False, cfg_nodePreference = BalancedAll,
     cfg_topologyPollInterval = 1 * Second, cfg_migrationTimeout = 30 * Second,
     cfg_migrationStallCheck = 2 * Second, cfg_callbackWorkers = 0, cfg_callbackQueueSize = 0,
     cfg_subscriptionQueueLimit = 100, cfg_logger = 0, cfg_meterProvider = None\<rparr>"

definition WithLogger :: "nat \<Rightarrow> config \<Rightarrow> config" where
  "WithLogger logger c = c\<lparr>cfg_logger := logger\<rparr>"

definition WithAutoResubscribe :: "bool \<Rightarrow> config \<Rightarrow> config" where
  "WithAutoResubscribe enabled c = c\<lparr>cfg_autoResubscribe := enabled\<rparr>"

definition WithNodePreference :: "NodePreference \<Rightarrow> config \<Rightarrow> config" where
  "WithNodePreference preference c = c\<lparr>cfg_nodePreference := preference\<rparr>"

definition WithReplicaPreference :: "bool \<Rightarrow> config \<Rightarrow> config" where
  "WithReplicaPreference preferReplicas c =
     (if preferReplicas then c\<lparr>cfg_nodePreference := PreferReplicas\<rparr>
      else c\<lparr>cfg_nodePreference := PreferMasters\<rparr>)"

definition WithTopologyPollInterval :: "int \<Rightarrow> config \<Rightarrow> config" where
  "WithTopologyPollInterval interval c =
     c\<lparr>cfg_topologyPollInterval := (if interval < 100 * Millisecond then 100 * Millisecond else interval)\<rparr>"

definition WithMigrationTimeout :: "int \<Rightarrow> config \<Rightarrow> config" where
  "WithMigrationTimeout timeout c =
     c\<lparr>cfg_migrationTimeout := (if timeout < 1 * Second then 1 * Second else timeout)\<rparr>"

definition WithMigrationStallCheck :: "int \<Rightarrow> config \<Rightarrow> config" where
  "WithMigrationStallCheck interval c =
     c\<lparr>cfg_migrationStallCheck := (if interval < 100 * Millisecond then 100 * Millisecond else interval)\<rparr>"

definition WithMeterProvider :: "nat option \<Rightarrow> config \<Rightarrow> config" where
  "WithMeterProvider provider c = c\<lparr>cfg_meterProvider := provider\<rparr>"

definition WithCallbackWorkers :: "int \<Rightarrow> config \<Rightarrow> config" where
  "WithCallbackWorkers workers c = c\<lparr>cfg_callbackWorkers := (if workers < 1 then 1 else workers)\<rparr>"

definition WithCallbackQueueSize :: "int \<Rightarrow> config \<Rightarrow> config" where
  "WithCallbackQueueSize sz c = c\<lparr>cfg_callbackQueueSize := (if sz < 1 then 1 else sz)\<rparr>"

definition WithSubscriptionQueueLimit :: "int \<Rightarrow> config \<Rightarrow> config" where
  "WithSubscriptionQueueLimit limit c =
     c\<lparr>cfg_subscriptionQueueLimit := (if limit < 0 then 0 else limit)\<rparr>"

text \<open>The loop \<open>for _, opt := range opts { opt(cfg) }\<close> of \<open>New\<close>.\<close>

definition applyOptions :: "(config \<Rightarrow> config) list \<Rightarrow> config" where
  "applyOptions opts = fold (\<lambda>opt c. opt c) opts defaultConfig"

text \<open>The options a caller can build: the source exports no other.\<close>

inductive library_option :: "(config \<Rightarrow> config) \<Rightarrow> bool" where
  "library_option (WithLogger l)"
| "library_option (WithAutoResubscribe b)"
| "library_option (WithNodePreference p)"
| "library_option (WithReplicaPreference b)"
| "library_option (WithTopologyPollInterval i)"
| "library_option (WithMigrationTimeout i)"
| "library_option (WithMigrationStallCheck i)"
| "library_option (WithMeterProvider m)"
| "library_option (WithCallbackWorkers n)"
| "library_option (WithCallbackQueueSize n)"
| "library_option (WithSubscriptionQueueLimit n)"

section \<open>Per-subscription options\<close>

record subscribeConfig =
  sc_queueLimit :: int
  sc_queueLimitSet :: bool

definition zeroSubscribeConfig :: subscribeConfig where
  "zeroSubscribeConfig = \<lparr>sc_queueLimit = 0, sc_queueLimitSet = False\<rparr>"

definition WithQueueLimit :: "int \<Rightarrow> subscribeConfig \<Rightarrow> subscribeConfig" where
  "WithQueueLimit limit c =
     c\<lparr>sc_queueLimit := (if limit < 0 then 0 else limit), sc_queueLimitSet := True\<rparr>"

text \<open>The part of \<open>subscribe\<close> that applies the options and resolves the effective limit.\<close>

definition effectiveQueueLimit :: "config \<Rightarrow> (subscribeConfig \<Rightarrow> subscribeConfig) list \<Rightarrow> int" where
  "effectiveQueueLimit cfg opts =
     (let subCfg = fold (\<lambda>opt c. opt c) opts zeroSubscribeConfig
      in if sc_queueLimitSet subCfg then sc_queueLimit subCfg else cfg_subscriptionQueueLimit cfg)"

section \<open>Lemmas\<close>

lemmas option_defs = WithLogger_def WithAutoResubscribe_def WithNodePreference_def
  WithReplicaPreference_def WithTopologyPollInterval_def WithMigrationTimeout_def
  WithMigrationStallCheck_def WithMeterProvider_def WithCallbackWorkers_def
  WithCallbackQueueSize_def WithSubscriptionQueueLimit_def

definition config_ok :: "config \<Rightarrow> bool" where
  "config_ok c \<longleftrightarrow> cfg_topologyPollInterval c \<ge> 100 * Millisecond
     \<and> cfg_migrationTimeout c \<ge> Second \<and> cfg_migrationStallCheck c \<ge> 100 * Millisecond
     \<and> cfg_callbackWorkers c \<ge> 0 \<and> cfg_callbackQueueSize c \<ge> 0 \<and> cfg_subscriptionQueueLimit c \<ge> 0"

lemma config_ok_default: "config_ok defaultConfig"
  by (simp add: config_ok_def defaultConfig_def Millisecond_def Second_def)

lemma config_ok_option: "library_option opt \<Longrightarrow> config_ok c \<Longrightarrow> config_ok (opt c)"
  by (induction rule: library_option.induct) (auto simp: config_ok_def option_defs)

lemma config_ok_fold:
  "config_ok c \<Longrightarrow> (\<forall>opt \<in> set opts. library_option opt) \<Longrightarrow> config_ok (fold (\<lambda>opt c. opt c) opts c)"
  by (induction opts arbitrary: c) (auto intro: config_ok_option)

lemma fold_queue_limits:
  "fold (\<lambda>opt c. opt c) (map WithQueueLimit ns) c =
     (if ns = [] then c else \<lparr>sc_queueLimit = max 0 (last ns), sc_queueLimitSet = True\<rparr>)"
  by (induction ns arbitrary: c) (auto simp: WithQueueLimit_def)

section \<open>Properties\<close>

text \<open>Whatever options a caller passes, with whatever arguments, the resulting configuration is within
  bounds: the poll and stall-check intervals are at least 100 ms and the migration timeout at least 1 s
  (so no ticker is created with a non-positive interval, which would panic), the queue limit is not
  negative, and the worker pool built from it has at least one worker and a queue of capacity at least
  one.\<close>

theorem options_keep_bounds:
  assumes "\<forall>opt \<in> set opts. library_option opt" and "numCPU > 0"
  shows "config_ok (applyOptions opts)
    \<and> (let wp = NewWorkerPool numCPU (cfg_callbackWorkers (applyOptions opts))
                  (cfg_callbackQueueSize (applyOptions opts))
       in Workers wp \<ge> 1 \<and> QueueCapacity wp \<ge> 1)"
  using config_ok_fold [OF config_ok_default assms(1)] assms(2)
  by (auto simp: applyOptions_def NewWorkerPool_def Workers_def QueueCapacity_def Let_def)

theorem options_keep_bounds_witness:
  "config_ok (applyOptions [WithMigrationTimeout (-5), WithCallbackWorkers 0, WithTopologyPollInterval 0])"
  using options_keep_bounds [of "[WithMigrationTimeout (-5), WithCallbackWorkers 0,
    WithTopologyPollInterval 0]" 1]
  by (auto intro: library_option.intros)

text \<open>The effective queue limit of a subscription is the SubMux-level limit when \<open>WithQueueLimit\<close> is
  not used, and otherwise the argument of its last use, with negative arguments read as 0 (unlimited).\<close>

theorem effectiveQueueLimit_spec:
  "effectiveQueueLimit cfg (map WithQueueLimit ns) =
     (if ns = [] then cfg_subscriptionQueueLimit cfg else max 0 (last ns))"
  by (simp add: effectiveQueueLimit_def fold_queue_limits zeroSubscribeConfig_def)

end
