(* ===== verification/Pool.thy ===== *)
theory Pool
  imports Connection Topology Config_Options
begin

text \<open>
  \<open>pool.go\<close>, second half: the pool of PubSub connections. Connections and the metadata objects they are
  mapped to are references; the metadata live in a store that is an argument of the operations that
  read them. The methods are given by their critical sections under \<open>p.mu\<close>; the creation of a connection,
  which runs outside the lock, separates them. The pending-connection protocol is a transition system.
\<close>

section \<open>The source's types\<close>

type_synonym meta_ref = nat
type_synonym pend_ref = nat

text \<open>\<open>pr_closes\<close> counts the \<open>close\<close> calls on the channel \<open>done\<close> of a pending result.\<close>

record pendingConnectionResult =
  pr_closes :: nat
  pr_pubsub :: "ps_ref option"
  pr_err :: "goerror option"

record pubSubPool =
  pl_nodePubSubs :: "(string, ps_ref list) gomap"
  pl_hashslotPubSubs :: "(int, ps_ref list) gomap"
  pl_pubSubMetadata :: "(ps_ref, meta_ref) gomap"
  pl_pendingConnections :: "(string, pend_ref) gomap"

definition newPubSubPool :: pubSubPool where
  "newPubSubPool = \<lparr>pl_nodePubSubs = [], pl_hashslotPubSubs = [], pl_pubSubMetadata = [],
     pl_pendingConnections = []\<rparr>"

definition newPendingConnectionResult :: pendingConnectionResult where
  "newPendingConnectionResult = \<lparr>pr_closes = 0, pr_pubsub = None, pr_err = None\<rparr>"

definition resolve :: "ps_ref option \<Rightarrow> goerror option \<Rightarrow> pendingConnectionResult \<Rightarrow> pendingConnectionResult" where
  "resolve pubsub err p = p\<lparr>pr_pubsub := pubsub, pr_err := err, pr_closes := Suc (pr_closes p)\<rparr>"

text \<open>\<open>None\<close>: the call blocks.\<close>

definition wait_pending ::
  "nat \<Rightarrow> goerror option \<Rightarrow> pendingConnectionResult \<Rightarrow> (ps_ref option \<times> goerror option) option" where
  "wait_pending pick ctxErr p =
     go_select pick [(pr_closes p > 0, (pr_pubsub p, pr_err p)), (ctxErr \<noteq> None, (None, ctxErr))]"

section \<open>Lookup and load balancing\<close>

definition addHashslotPubSub :: "int \<Rightarrow> ps_ref \<Rightarrow> pubSubPool \<Rightarrow> pubSubPool" where
  "addHashslotPubSub hashslot pubsub p =
     (if pubsub \<in> set (slice_at (pl_hashslotPubSubs p) hashslot) then p
      else p\<lparr>pl_hashslotPubSubs := append_at hashslot pubsub (pl_hashslotPubSubs p)\<rparr>)"

definition least_step ::
  "pubSubPool \<Rightarrow> (meta_ref \<Rightarrow> pubSubMetadata) \<Rightarrow> ps_ref \<Rightarrow> ps_ref option \<times> int \<Rightarrow> ps_ref option \<times> int" where
  "least_step p metas ps acc =
     (case map_of (pl_pubSubMetadata p) ps of
        None \<Rightarrow> acc
      | Some mr \<Rightarrow>
          if meta_getState (metas mr) \<noteq> connStateActive then acc
          else (let count = int (meta_subscriptionCount (metas mr))
                in if count < snd acc then (Some ps, count) else acc))"

definition findLeastLoadedPubSub ::
  "pubSubPool \<Rightarrow> (meta_ref \<Rightarrow> pubSubMetadata) \<Rightarrow> ps_ref list \<Rightarrow> ps_ref option" where
  "findLeastLoadedPubSub p metas pubsubs = fst (fold (least_step p metas) pubsubs (None, maxInt64))"

text \<open>The part of \<open>getPubSubForHashslot\<close> under the lock; \<open>None\<close>: a connection has to be created.\<close>

definition getPubSub_cached ::
  "pubSubPool \<Rightarrow> (meta_ref \<Rightarrow> pubSubMetadata) \<Rightarrow> int \<Rightarrow> ps_ref option" where
  "getPubSub_cached p metas hashslot =
     (let pubsubs = slice_at (pl_hashslotPubSubs p) hashslot
      in if length pubsubs > 0 then findLeastLoadedPubSub p metas pubsubs else None)"

text \<open>The two critical sections of \<open>createPubSubForHashslot\<close> for a selected node.\<close>

definition reuse_on_node ::
  "(meta_ref \<Rightarrow> pubSubMetadata) \<Rightarrow> int \<Rightarrow> string \<Rightarrow> pubSubPool \<Rightarrow> (pubSubPool \<times> ps_ref) option" where
  "reuse_on_node metas hashslot nodeAddr p =
     (case map_of (pl_nodePubSubs p) nodeAddr of
        None \<Rightarrow> None
      | Some pubsubs \<Rightarrow>
          if length pubsubs > 0
          then map_option (\<lambda>best. (addHashslotPubSub hashslot best p, best)) (findLeastLoadedPubSub p metas pubsubs)
          else None)"

definition register_on_node :: "int \<Rightarrow> string \<Rightarrow> ps_ref \<Rightarrow> pubSubPool \<Rightarrow> pubSubPool" where
  "register_on_node hashslot nodeAddr pubsub p =
     addHashslotPubSub hashslot pubsub (p\<lparr>pl_nodePubSubs := append_at nodeAddr pubsub (pl_nodePubSubs p)\<rparr>)"

subsection \<open>selectLeastLoadedAcrossNodes\<close>

record scan =
  sc_bestPubSub :: "ps_ref option"
  sc_bestNodeAddr :: string
  sc_bestCount :: int
  sc_nodeConnCounts :: "(string, nat) gomap"
  sc_hasUnconnectedNode :: bool

definition scan0 :: scan where
  "scan0 = \<lparr>sc_bestPubSub = None, sc_bestNodeAddr = [], sc_bestCount = maxInt64, sc_nodeConnCounts = [],
     sc_hasUnconnectedNode = False\<rparr>"

text \<open>\<open>p.pubSubMetadata[best]\<close> is not nil here: \<open>findLeastLoadedPubSub\<close> has just read it.\<close>

definition scan_node ::
  "pubSubPool \<Rightarrow> (meta_ref \<Rightarrow> pubSubMetadata) \<Rightarrow> string \<Rightarrow> scan \<Rightarrow> scan" where
  "scan_node p metas nodeAddr c =
     (let pubsubs = slice_at (pl_nodePubSubs p) nodeAddr
      in if map_of (pl_nodePubSubs p) nodeAddr = None \<or> length pubsubs = 0
         then c\<lparr>sc_nodeConnCounts := AList.update nodeAddr 0 (sc_nodeConnCounts c), sc_hasUnconnectedNode := True\<rparr>
         else (let c1 = c\<lparr>sc_nodeConnCounts := AList.update nodeAddr (length pubsubs) (sc_nodeConnCounts c)\<rparr>
               in case findLeastLoadedPubSub p metas pubsubs of
                    None \<Rightarrow> c1
                  | Some best \<Rightarrow>
                      (let count = int (meta_subscriptionCount (metas (the (map_of (pl_pubSubMetadata p) best))))
                       in if count < sc_bestCount c1
                          then c1\<lparr>sc_bestCount := count, sc_bestPubSub := Some best, sc_bestNodeAddr := nodeAddr\<rparr>
                          else c1)))"

text \<open>The second loop: the first node with the fewest connections (a missing key reads as 0).\<close>

definition fewest_step :: "(string, nat) gomap \<Rightarrow> string \<Rightarrow> string \<times> int \<Rightarrow> string \<times> int" where
  "fewest_step counts nodeAddr acc =
     (let n = int (case map_of counts nodeAddr of None \<Rightarrow> 0 | Some k \<Rightarrow> k)
      in if n < snd acc then (nodeAddr, n) else acc)"

datatype select_decision = Reuse ps_ref | NoValidNode | AwaitPending pend_ref | CreateAt string

text \<open>The first critical section; \<open>fresh\<close> names the pending result it may allocate.\<close>

definition select_locked ::
  "(meta_ref \<Rightarrow> pubSubMetadata) \<Rightarrow> pend_ref \<Rightarrow> int \<Rightarrow> string list \<Rightarrow> pubSubPool \<Rightarrow> pubSubPool \<times> select_decision" where
  "select_locked metas fresh hashslot nodes p =
     (let c = fold (scan_node p metas) nodes scan0
      in case (sc_bestPubSub c, sc_hasUnconnectedNode c) of
           (Some best, False) \<Rightarrow> (addHashslotPubSub hashslot best p, Reuse best)
         | _ \<Rightarrow>
             (let bestNodeAddr = fst (fold (fewest_step (sc_nodeConnCounts c)) nodes (sc_bestNodeAddr c, maxInt64))
              in if bestNodeAddr = [] then (p, NoValidNode)
                 else (case map_of (pl_pendingConnections p) bestNodeAddr of
                         Some pending \<Rightarrow> (p, AwaitPending pending)
                       | None \<Rightarrow> (p\<lparr>pl_pendingConnections :=
                            AList.update bestNodeAddr fresh (pl_pendingConnections p)\<rparr>, CreateAt bestNodeAddr))))"

text \<open>The second critical section, after the creation returned a connection or an error.\<close>

definition create_finished :: "int \<Rightarrow> string \<Rightarrow> goerror + ps_ref \<Rightarrow> pubSubPool \<Rightarrow> pubSubPool" where
  "create_finished hashslot nodeAddr r p =
     (let p1 = p\<lparr>pl_pendingConnections := AList.delete nodeAddr (pl_pendingConnections p)\<rparr>
      in case r of
           Inl _ \<Rightarrow> p1
         | Inr pubsub \<Rightarrow> register_on_node hashslot nodeAddr pubsub p1)"

definition create_result :: "string \<Rightarrow> goerror + ps_ref \<Rightarrow> pendingConnectionResult \<Rightarrow> pendingConnectionResult" where
  "create_result nodeAddr r p = (case r of
       Inl err \<Rightarrow> resolve None (Some (Wrapf (''failed to create PubSub to node '' @ nodeAddr @ '': '') err)) p
     | Inr pubsub \<Rightarrow> resolve (Some pubsub) None p)"

text \<open>After the wait for another goroutine's pending result returned; a resolved result has an error or a
  connection (\<open>create_result\<close>).\<close>

definition await_finished :: "int \<Rightarrow> ps_ref option \<times> goerror option \<Rightarrow> pubSubPool \<Rightarrow> pubSubPool \<times> (goerror + ps_ref option)" where
  "await_finished hashslot res p = (case res of
       (_, Some err) \<Rightarrow> (p, Inl err)
     | (None, None) \<Rightarrow> (p, Inr None)
     | (Some pubsub, None) \<Rightarrow> (addHashslotPubSub hashslot pubsub p, Inr (Some pubsub)))"

subsection \<open>The other methods\<close>

definition getMetadata :: "ps_ref option \<Rightarrow> pubSubPool \<Rightarrow> meta_ref option" where
  "getMetadata pubsub p = (case pubsub of None \<Rightarrow> None | Some ps \<Rightarrow> map_of (pl_pubSubMetadata p) ps)"

definition invalidateHashslot :: "int \<Rightarrow> pubSubPool \<Rightarrow> pubSubPool" where
  "invalidateHashslot hashslot p =
     p\<lparr>pl_hashslotPubSubs := AList.delete hashslot (pl_hashslotPubSubs p)\<rparr>"

text \<open>\<open>getNodeForHashslot\<close>: the monitor's answer before and after the refresh it forces (\<open>None\<close> when there
  is no monitor), then the cluster client's answer to \<open>CLUSTER SLOTS\<close>.\<close>

fun find_slot_node :: "int \<Rightarrow> ClusterSlot list \<Rightarrow> string option" where
  "find_slot_node hashslot [] = None"
| "find_slot_node hashslot (sl # slots) =
     (if hashslot \<ge> slot_Start sl \<and> hashslot \<le> slot_End sl \<and> length (slot_Nodes sl) > 0
      then Some (slot_Nodes sl ! 0) else find_slot_node hashslot slots)"

definition pool_getNodeForHashslot ::
  "(string option \<times> string option) option \<Rightarrow> goerror + ClusterSlot list \<Rightarrow> int \<Rightarrow> goerror + string" where
  "pool_getNodeForHashslot monitor clusterSlots hashslot =
     (let fallback = (case clusterSlots of
            Inl err \<Rightarrow> Inl (Wrapf ''failed to get cluster slots: '' err)
          | Inr slots \<Rightarrow>
              (case find_slot_node hashslot slots of
                 Some node \<Rightarrow> Inr node
               | None \<Rightarrow> Inl (Errorf (''hashslot '' @ showInt hashslot @ '' not found in cluster''))))
      in case monitor of
           None \<Rightarrow> fallback
         | Some (Some node, _) \<Rightarrow> Inr node
         | Some (None, Some node) \<Rightarrow> Inr node
         | Some (None, None) \<Rightarrow> fallback)"

definition drop_from :: "ps_ref \<Rightarrow> ps_ref list \<Rightarrow> ps_ref list" where
  "drop_from ps pubsubs =
     (case slice_index ps pubsubs of None \<Rightarrow> pubsubs | Some i \<Rightarrow> slices_Delete pubsubs i (i + 1))"

definition removePubSub :: "(meta_ref \<Rightarrow> pubSubMetadata) \<Rightarrow> ps_ref \<Rightarrow> pubSubPool \<Rightarrow> pubSubPool" where
  "removePubSub metas pubsub p =
     (case map_of (pl_pubSubMetadata p) pubsub of
        None \<Rightarrow> p
      | Some mr \<Rightarrow>
          (let nodeAddr = m_nodeAddr (metas mr);
               p1 = (case map_of (pl_nodePubSubs p) nodeAddr of
                       None \<Rightarrow> p
                     | Some pubsubs \<Rightarrow>
                         p\<lparr>pl_nodePubSubs := store_slice nodeAddr (drop_from pubsub pubsubs) (pl_nodePubSubs p)\<rparr>);
               p2 = p1\<lparr>pl_hashslotPubSubs :=
                      filter (\<lambda>(hs, pubsubs). pubsubs \<noteq> [])
                        (map (\<lambda>(hs, pubsubs). (hs, drop_from pubsub pubsubs)) (pl_hashslotPubSubs p1))\<rparr>
           in p2\<lparr>pl_pubSubMetadata := AList.delete pubsub (pl_pubSubMetadata p2)\<rparr>))"

text \<open>The critical section of \<open>closeAll\<close>: the connections to close with their metadata, and the empty pool.\<close>

definition closeAll_locked :: "pubSubPool \<Rightarrow> pubSubPool \<times> (ps_ref \<times> meta_ref option) list" where
  "closeAll_locked p =
     (newPubSubPool, map (\<lambda>ps. (ps, map_of (pl_pubSubMetadata p) ps)) (all_slices (pl_nodePubSubs p)))"

definition connectionCount :: "pubSubPool \<Rightarrow> nat" where
  "connectionCount p = fold (\<lambda>(_, pubsubs) count. count + length pubsubs) (pl_nodePubSubs p) 0"

definition redisSubscriptionCount :: "(meta_ref \<Rightarrow> pubSubMetadata) \<Rightarrow> pubSubPool \<Rightarrow> nat" where
  "redisSubscriptionCount metas p =
     fold (\<lambda>(_, mr) count. count + meta_subscriptionCount (metas mr)) (pl_pubSubMetadata p) 0"

section \<open>Lemmas\<close>

text \<open>A usable connection: registered and active.\<close>

definition usable :: "pubSubPool \<Rightarrow> (meta_ref \<Rightarrow> pubSubMetadata) \<Rightarrow> ps_ref \<Rightarrow> bool" where
  "usable p metas ps \<longleftrightarrow> (\<exists>mr. map_of (pl_pubSubMetadata p) ps = Some mr \<and> m_state (metas mr) = connStateActive)"

definition load :: "pubSubPool \<Rightarrow> (meta_ref \<Rightarrow> pubSubMetadata) \<Rightarrow> ps_ref \<Rightarrow> int" where
  "load p metas ps = int (meta_subscriptionCount (metas (the (map_of (pl_pubSubMetadata p) ps))))"

text \<open>Counts are below the largest \<open>int\<close>, with which the minimum is initialised.\<close>

definition loads_fit :: "pubSubPool \<Rightarrow> (meta_ref \<Rightarrow> pubSubMetadata) \<Rightarrow> bool" where
  "loads_fit p metas \<longleftrightarrow> (\<forall>ps. load p metas ps < maxInt64)"

lemma least_step_eq:
  "least_step p metas ps acc =
     (if usable p metas ps \<and> load p metas ps < snd acc then (Some ps, load p metas ps) else acc)"
  by (auto simp: least_step_def usable_def load_def meta_getState_def Let_def split: option.split)

lemma least_fold:
  "fold (least_step p metas) xs (b, n) = (b', n') \<Longrightarrow>
     n' \<le> n \<and> (\<forall>x \<in> set xs. usable p metas x \<longrightarrow> n' \<le> load p metas x)
     \<and> (b' = b \<and> n' = n \<or> (\<exists>x \<in> set xs. b' = Some x \<and> usable p metas x \<and> n' = load p metas x \<and> n' < n))"
proof (induction xs arbitrary: b n)
  case Nil
  then show ?case by simp
next
  case (Cons x xs)
  show ?case
  proof (cases "usable p metas x \<and> load p metas x < n")
    case True
    with Cons.prems have "fold (least_step p metas) xs (Some x, load p metas x) = (b', n')"
      by (simp add: least_step_eq [of p metas x])
    from Cons.IH [OF this] True show ?thesis by auto
  next
    case False
    with Cons.prems have "fold (least_step p metas) xs (b, n) = (b', n')" by (simp add: least_step_eq [of p metas x])
    from Cons.IH [OF this] False show ?thesis by auto
  qed
qed

lemma findLeast_cases:
  assumes "loads_fit p metas"
  shows "case findLeastLoadedPubSub p metas xs of
      None \<Rightarrow> \<forall>x \<in> set xs. \<not> usable p metas x
    | Some b \<Rightarrow> b \<in> set xs \<and> usable p metas b \<and> (\<forall>x \<in> set xs. usable p metas x \<longrightarrow> load p metas b \<le> load p metas x)"
proof -
  obtain b n where f: "fold (least_step p metas) xs (None, maxInt64) = (b, n)" by fastforce
  have fit: "load p metas x < maxInt64" for x using assms by (simp add: loads_fit_def)
  have ub: "\<forall>x \<in> set xs. usable p metas x \<longrightarrow> n \<le> load p metas x" using least_fold [OF f] by blast
  show ?thesis
  proof (cases b)
    case None
    then have "n = maxInt64" using least_fold [OF f] by auto
    with ub fit have "\<forall>x \<in> set xs. \<not> usable p metas x" by (meson not_less)
    with None show ?thesis by (simp add: findLeastLoadedPubSub_def f)
  next
    case (Some x)
    with least_fold [OF f] ub show ?thesis by (auto simp: findLeastLoadedPubSub_def f)
  qed
qed

lemma drop_from_remove1 [simp]: "drop_from ps xs = remove1 ps xs"
  using slice_index_remove1 [of ps xs]
  by (auto simp: drop_from_def slice_index_None remove1_idem split: option.split)

subsection \<open>Scanning the nodes of a shard\<close>

definition conns :: "pubSubPool \<Rightarrow> string \<Rightarrow> ps_ref list" where
  "conns p nodeAddr = slice_at (pl_nodePubSubs p) nodeAddr"

definition conns_fit :: "pubSubPool \<Rightarrow> bool" where
  "conns_fit p \<longleftrightarrow> (\<forall>n. int (length (conns p n)) < maxInt64)"

lemma conns_None: "map_of (pl_nodePubSubs p) n = None \<Longrightarrow> conns p n = []"
  by (simp add: conns_def slice_at_def)

lemma scan_unconnected:
  "sc_hasUnconnectedNode (fold (scan_node p metas) nodes c) \<longleftrightarrow>
     sc_hasUnconnectedNode c \<or> (\<exists>n \<in> set nodes. conns p n = [])"
proof (induction nodes arbitrary: c)
  case (Cons n nodes)
  have "sc_hasUnconnectedNode (scan_node p metas n c) \<longleftrightarrow> sc_hasUnconnectedNode c \<or> conns p n = []"
    using conns_None [of p n] by (auto simp: scan_node_def Let_def conns_def split: option.split)
  with Cons.IH show ?case by auto
qed simp

lemma scan_counts:
  "map_of (sc_nodeConnCounts (fold (scan_node p metas) nodes c)) a =
     (if a \<in> set nodes then Some (length (conns p a)) else map_of (sc_nodeConnCounts c) a)"
proof (induction nodes arbitrary: c)
  case (Cons n nodes)
  have "map_of (sc_nodeConnCounts (scan_node p metas n c)) a =
      (if a = n then Some (length (conns p a)) else map_of (sc_nodeConnCounts c) a)"
    using conns_None [of p n] by (auto simp: scan_node_def Let_def conns_def update_conv' split: option.split)
  with Cons.IH show ?case by auto
qed simp

text \<open>The scan's candidate is a usable connection of least load so far.\<close>

definition best_of :: "pubSubPool \<Rightarrow> (meta_ref \<Rightarrow> pubSubMetadata) \<Rightarrow> ps_ref set \<Rightarrow> ps_ref option \<Rightarrow> int \<Rightarrow> bool" where
  "best_of p metas S b n \<longleftrightarrow>
     (case b of None \<Rightarrow> n = maxInt64 | Some x \<Rightarrow> x \<in> S \<and> usable p metas x \<and> n = load p metas x)
     \<and> (\<forall>y \<in> S. usable p metas y \<longrightarrow> b \<noteq> None \<and> n \<le> load p metas y)"

lemma scan_node_best:
  assumes "loads_fit p metas" and "best_of p metas S (sc_bestPubSub c) (sc_bestCount c)"
  shows "best_of p metas (S \<union> set (conns p n)) (sc_bestPubSub (scan_node p metas n c))
    (sc_bestCount (scan_node p metas n c))"
proof (cases "conns p n = []")
  case True
  then show ?thesis using assms(2) by (simp add: scan_node_def Let_def conns_def)
next
  case False
  then have some: "map_of (pl_nodePubSubs p) n \<noteq> None" using conns_None by blast
  have fit: "load p metas x < maxInt64" for x using assms(1) by (simp add: loads_fit_def)
  show ?thesis
    using findLeast_cases [OF assms(1), of "conns p n"] assms(2) False some fit
    by (cases "findLeastLoadedPubSub p metas (conns p n)")
       (force simp: scan_node_def Let_def conns_def [symmetric] best_of_def load_def [symmetric] split: option.splits)+
qed

lemma scan_best:
  "loads_fit p metas \<Longrightarrow> best_of p metas S (sc_bestPubSub c) (sc_bestCount c) \<Longrightarrow>
   best_of p metas (S \<union> (\<Union>n \<in> set nodes. set (conns p n)))
     (sc_bestPubSub (fold (scan_node p metas) nodes c)) (sc_bestCount (fold (scan_node p metas) nodes c))"
proof (induction nodes arbitrary: c S)
  case (Cons n nodes)
  from Cons.IH [OF Cons.prems(1) scan_node_best [OF Cons.prems, of n]] show ?case
    by (simp add: Un_assoc)
qed simp

lemma fewest_fold:
  assumes "\<And>n. n \<in> set nodes \<Longrightarrow> map_of counts n = Some (f n)"
    and "fold (fewest_step counts) nodes (a, k) = (a', k')"
  shows "k' \<le> k \<and> (\<forall>n \<in> set nodes. k' \<le> int (f n))
    \<and> (a' = a \<and> k' = k \<or> (a' \<in> set nodes \<and> k' = int (f a') \<and> k' < k))"
  using assms
proof (induction nodes arbitrary: a k)
  case (Cons n nodes)
  have n: "map_of counts n = Some (f n)" by (rule Cons.prems(1)) simp
  show ?case
  proof (cases "int (f n) < k")
    case True
    with Cons.prems(2) n have "fold (fewest_step counts) nodes (n, int (f n)) = (a', k')"
      by (simp add: fewest_step_def [of counts n])
    from Cons.IH [OF _ this] Cons.prems(1) True show ?thesis by auto
  next
    case False
    with Cons.prems(2) n have "fold (fewest_step counts) nodes (a, k) = (a', k')" by (simp add: fewest_step_def [of counts n])
    from Cons.IH [OF _ this] Cons.prems(1) False show ?thesis by auto
  qed
qed simp

text \<open>The node the second loop settles on.\<close>

lemma fewest_node:
  assumes "conns_fit p" and "nodes \<noteq> []"
    and "c = fold (scan_node p metas) nodes scan0"
    and "n = fst (fold (fewest_step (sc_nodeConnCounts c)) nodes (sc_bestNodeAddr c, maxInt64))"
  shows "n \<in> set nodes \<and> (\<forall>n' \<in> set nodes. length (conns p n) \<le> length (conns p n'))"
proof -
  obtain k where f: "fold (fewest_step (sc_nodeConnCounts c)) nodes (sc_bestNodeAddr c, maxInt64) = (n, k)"
    using assms(4) by (metis prod.collapse)
  have counts: "m \<in> set nodes \<Longrightarrow> map_of (sc_nodeConnCounts c) m = Some (length (conns p m))" for m
    by (simp add: assms(3) scan_counts)
  have lt: "int (length (conns p (hd nodes))) < maxInt64" using assms(1) by (simp add: conns_fit_def)
  have ff: "\<forall>m \<in> set nodes. k \<le> int (length (conns p m))"
    "n = sc_bestNodeAddr c \<and> k = maxInt64 \<or> n \<in> set nodes \<and> k = int (length (conns p n)) \<and> k < maxInt64"
    using fewest_fold [of nodes "sc_nodeConnCounts c" "\<lambda>m. length (conns p m)", OF counts f] by auto
  moreover have "hd nodes \<in> set nodes" using assms(2) by simp
  ultimately have "k \<noteq> maxInt64" using lt by force
  with ff show ?thesis by auto
qed

subsection \<open>Removal\<close>

text \<open>Every listed connection is listed once per key, and under its own node.\<close>

definition pool_ok :: "(meta_ref \<Rightarrow> pubSubMetadata) \<Rightarrow> pubSubPool \<Rightarrow> bool" where
  "pool_ok metas p \<longleftrightarrow> wf_gomap (pl_nodePubSubs p) \<and> wf_gomap (pl_hashslotPubSubs p)
     \<and> (\<forall>n. distinct (conns p n)) \<and> (\<forall>hs. distinct (slice_at (pl_hashslotPubSubs p) hs))
     \<and> (\<forall>n ps mr. ps \<in> set (conns p n) \<longrightarrow> map_of (pl_pubSubMetadata p) ps = Some mr \<longrightarrow> m_nodeAddr (metas mr) = n)"

lemma slice_at_map_filter:
  assumes "wf_gomap m" and "f [] = []"
  shows "slice_at (filter (\<lambda>(k, v). v \<noteq> []) (map (\<lambda>(k, v). (k, f v)) m)) k = f (slice_at m k)"
  using assms(1)
proof (induction m)
  case Nil
  then show ?case using assms(2) by simp
next
  case (Cons e m)
  obtain k' v where e: "e = (k', v)" by (cases e)
  have wf: "wf_gomap m" and k': "k' \<notin> fst ` set m" using Cons.prems e by (auto simp: wf_gomap_def)
  have none: "map_of (filter (\<lambda>(k, v). v \<noteq> []) (map (\<lambda>(k, v). (k, f v)) m)) k' = None"
    using k' by (force simp: map_of_eq_None_iff)
  then have no: "slice_at (filter (\<lambda>(k, v). v \<noteq> []) (map (\<lambda>(k, v). (k, f v)) m)) k' = []"
    by (simp add: slice_at_def)
  show ?case using Cons.IH [OF wf] no e by (auto simp: slice_at_def)
qed

lemma removePubSub_lookup:
  assumes "pool_ok metas p" and "map_of (pl_pubSubMetadata p) ps = Some mr"
  shows "conns (removePubSub metas ps p) n = remove1 ps (conns p n)"
    and "slice_at (pl_hashslotPubSubs (removePubSub metas ps p)) hs = remove1 ps (slice_at (pl_hashslotPubSubs p) hs)"
    and "map_of (pl_pubSubMetadata (removePubSub metas ps p)) = (map_of (pl_pubSubMetadata p))(ps := None)"
proof -
  have own: "ps \<notin> set (conns p n)" if "n \<noteq> m_nodeAddr (metas mr)"
    using assms that by (auto simp: pool_ok_def)
  show "conns (removePubSub metas ps p) n = remove1 ps (conns p n)"
  proof (cases "n = m_nodeAddr (metas mr)")
    case True
    with conns_None [of p n] assms(2) show ?thesis
      by (auto simp: removePubSub_def Let_def conns_def slice_simps map_of_slice_at split: option.split)
  next
    case False
    with own assms(2) show ?thesis
      by (auto simp: removePubSub_def Let_def conns_def slice_simps remove1_idem split: option.split)
  qed
  have wf: "wf_gomap (pl_hashslotPubSubs p)" using assms(1) by (simp add: pool_ok_def)
  show "slice_at (pl_hashslotPubSubs (removePubSub metas ps p)) hs = remove1 ps (slice_at (pl_hashslotPubSubs p) hs)"
    using slice_at_map_filter [OF wf, of "remove1 ps" hs] assms(2)
    by (auto simp: removePubSub_def Let_def split: option.split)
  show "map_of (pl_pubSubMetadata (removePubSub metas ps p)) = (map_of (pl_pubSubMetadata p))(ps := None)"
    using assms(2) by (auto simp: removePubSub_def Let_def delete_conv' split: option.split)
qed

section \<open>The pending-connection protocol\<close>

text \<open>
  Any number of goroutines in \<open>selectLeastLoadedAcrossNodes\<close>: creators run outside the lock, then update
  the pool (\<open>z_resolving\<close>), then resolve their pending result; waiters wait for the result of a creator.
  Removals, invalidations and \<open>closeAll\<close> interleave with them.
\<close>

record pend_sys =
  z_pool :: pubSubPool
  z_results :: "pend_ref \<Rightarrow> pendingConnectionResult"
  z_next :: pend_ref
  z_creators :: "(pend_ref \<times> string \<times> int) list"
  z_resolving :: "(pend_ref \<times> string \<times> (goerror + ps_ref)) list"
  z_waiters :: "(pend_ref \<times> int) list"
  z_closed :: bool

definition pend_init :: "pend_sys \<Rightarrow> bool" where
  "pend_init s \<longleftrightarrow> s = \<lparr>z_pool = newPubSubPool, z_results = (\<lambda>_. newPendingConnectionResult), z_next = 0,
     z_creators = [], z_resolving = [], z_waiters = [], z_closed = False\<rparr>"

inductive pend_step :: "pend_sys \<Rightarrow> pend_sys \<Rightarrow> bool" where
  reuse: "select_locked metas (z_next s) hs nodes (z_pool s) = (p, Reuse ps) \<Longrightarrow>
     pend_step s (s\<lparr>z_pool := p\<rparr>)"
| await: "select_locked metas (z_next s) hs nodes (z_pool s) = (p, AwaitPending pr) \<Longrightarrow>
     pend_step s (s\<lparr>z_pool := p, z_waiters := z_waiters s @ [(pr, hs)]\<rparr>)"
| begin_create: "select_locked metas (z_next s) hs nodes (z_pool s) = (p, CreateAt node) \<Longrightarrow>
     pend_step s (s\<lparr>z_pool := p, z_results := (z_results s)(z_next s := newPendingConnectionResult),
       z_next := Suc (z_next s), z_creators := z_creators s @ [(z_next s, node, hs)]\<rparr>)"
| end_create: "z_creators s = a @ (pr, node, hs) # b \<Longrightarrow>
     pend_step s (s\<lparr>z_pool := create_finished hs node r (z_pool s), z_creators := a @ b,
       z_resolving := z_resolving s @ [(pr, node, r)]\<rparr>)"
| resolved: "z_resolving s = a @ (pr, node, r) # b \<Longrightarrow>
     pend_step s (s\<lparr>z_results := (z_results s)(pr := create_result node r (z_results s pr)), z_resolving := a @ b\<rparr>)"
| wait_returns: "z_waiters s = a @ (pr, hs) # b \<Longrightarrow> wait_pending pick ctxErr (z_results s pr) = Some res \<Longrightarrow>
     pend_step s (s\<lparr>z_pool := fst (await_finished hs res (z_pool s)), z_waiters := a @ b\<rparr>)"
| removed: "pend_step s (s\<lparr>z_pool := removePubSub metas ps (z_pool s)\<rparr>)"
| invalidated: "pend_step s (s\<lparr>z_pool := invalidateHashslot hs (z_pool s)\<rparr>)"
| closed: "pend_step s (s\<lparr>z_pool := fst (closeAll_locked (z_pool s)), z_closed := True\<rparr>)"

text \<open>The pending results that still have somebody to resolve them.\<close>

definition open_results :: "pend_sys \<Rightarrow> pend_ref list" where
  "open_results s = map fst (z_creators s) @ map fst (z_resolving s)"

text \<open>Who creates which connection, according to the goroutines and according to the pool.\<close>

definition creating :: "pend_sys \<Rightarrow> (pend_ref \<times> string) set" where
  "creating s = (\<lambda>(pr, node, hs). (pr, node)) ` set (z_creators s)"

definition announced :: "pubSubPool \<Rightarrow> (pend_ref \<times> string) set" where
  "announced p = {(pr, node). map_of (pl_pendingConnections p) node = Some pr}"

definition results_ok :: "pend_sys \<Rightarrow> bool" where
  "results_ok s \<longleftrightarrow> distinct (open_results s) \<and> (\<forall>pr \<in> set (open_results s). pr < z_next s)
     \<and> (\<forall>pr < z_next s. pr_closes (z_results s pr) = (if pr \<in> set (open_results s) then 0 else 1))
     \<and> (\<forall>(pr, hs) \<in> set (z_waiters s). pr < z_next s)"

definition pend_inv :: "pend_sys \<Rightarrow> bool" where
  "pend_inv s \<longleftrightarrow> results_ok s \<and> announced (z_pool s) \<subseteq> creating s
     \<and> (\<not> z_closed s \<longrightarrow> creating s \<subseteq> announced (z_pool s))"

lemma pending_frame:
  "pl_pendingConnections (addHashslotPubSub hs ps p) = pl_pendingConnections p"
  "pl_pendingConnections (register_on_node hs node ps p) = pl_pendingConnections p"
  "pl_pendingConnections (removePubSub metas ps p) = pl_pendingConnections p"
  "pl_pendingConnections (invalidateHashslot hs p) = pl_pendingConnections p"
  "pl_pendingConnections (fst (closeAll_locked p)) = []"
  by (auto simp: addHashslotPubSub_def register_on_node_def removePubSub_def invalidateHashslot_def
      closeAll_locked_def newPubSubPool_def Let_def split: option.split)

lemma pending_finished:
  "pl_pendingConnections (create_finished hs node r p) = AList.delete node (pl_pendingConnections p)"
  by (simp add: create_finished_def Let_def pending_frame split: sum.split)

lemma select_pending:
  assumes "select_locked metas fresh hs nodes p = (p', d)"
  shows "case d of
      CreateAt node \<Rightarrow> map_of (pl_pendingConnections p) node = None
        \<and> pl_pendingConnections p' = AList.update node fresh (pl_pendingConnections p)
    | AwaitPending pr \<Rightarrow> p' = p \<and> (\<exists>node. map_of (pl_pendingConnections p) node = Some pr)
    | _ \<Rightarrow> pl_pendingConnections p' = pl_pendingConnections p"
  using assms
  by (auto simp: select_locked_def Let_def pending_frame split: option.splits bool.splits if_splits)

lemma announced_cong: "pl_pendingConnections p = pl_pendingConnections q \<Longrightarrow> announced p = announced q"
  by (simp add: announced_def)

lemma announced_empty [simp]: "announced newPubSubPool = {}"
  by (simp add: announced_def newPubSubPool_def)

lemma announced_create:
  "select_locked metas fresh hs nodes p = (p', CreateAt node) \<Longrightarrow> announced p' = insert (fresh, node) (announced p)"
  by (drule select_pending) (auto simp: announced_def update_conv')

lemma announced_finished: "announced (create_finished hs node r p) = {(pr, n) \<in> announced p. n \<noteq> node}"
  by (auto simp: announced_def pending_finished delete_conv' split: if_splits)

lemma announced_unique: "(pr, n) \<in> announced p \<Longrightarrow> (pr', n) \<in> announced p \<Longrightarrow> pr = pr'"
  by (simp add: announced_def)

lemma creating_fst: "(pr, n) \<in> creating s \<Longrightarrow> pr \<in> set (map fst (z_creators s))"
  by (force simp: creating_def)

lemma creating_end:
  assumes "z_creators s = a @ (pr, node, hs) # b" and "distinct (map fst (z_creators s))"
  shows "creating (s\<lparr>z_pool := p, z_creators := a @ b, z_resolving := rs\<rparr>) = creating s - {(pr, node)}"
proof -
  have set: "set (z_creators s) = insert (pr, node, hs) (set (a @ b))" using assms(1) by simp
  have "pr \<notin> fst ` set (a @ b)" using assms by auto
  then have "(pr, node) \<notin> (\<lambda>(pr, node, hs). (pr, node)) ` set (a @ b)" by force
  then show ?thesis unfolding creating_def set by simp
qed

lemma pend_inv_init: "pend_init s \<Longrightarrow> pend_inv s"
  by (simp add: pend_init_def pend_inv_def results_ok_def open_results_def creating_def)

lemma pend_inv_pool:
  "pend_inv s \<Longrightarrow> pl_pendingConnections p = pl_pendingConnections (z_pool s) \<Longrightarrow> pend_inv (s\<lparr>z_pool := p\<rparr>)"
  using announced_cong [of p "z_pool s"] by (simp add: pend_inv_def results_ok_def open_results_def creating_def)

lemma pend_inv_begin:
  assumes "pend_inv s" and "select_locked metas (z_next s) hs nodes (z_pool s) = (p, CreateAt node)"
  shows "pend_inv (s\<lparr>z_pool := p, z_results := (z_results s)(z_next s := newPendingConnectionResult),
       z_next := Suc (z_next s), z_creators := z_creators s @ [(z_next s, node, hs)]\<rparr>)" (is "pend_inv ?t")
proof -
  have "results_ok s" using assms(1) by (simp add: pend_inv_def)
  then have "results_ok ?t"
    by (auto simp: results_ok_def open_results_def newPendingConnectionResult_def less_Suc_eq)
  moreover have "creating ?t = insert (z_next s, node) (creating s)" by (simp add: creating_def)
  ultimately show ?thesis using assms(1) announced_create [OF assms(2)] by (auto simp: pend_inv_def)
qed

lemma pend_inv_end:
  assumes "pend_inv s" and "z_creators s = a @ (pr, node, hs) # b"
  shows "pend_inv (s\<lparr>z_pool := create_finished hs node r (z_pool s), z_creators := a @ b,
       z_resolving := z_resolving s @ [(pr, node, r)]\<rparr>)" (is "pend_inv ?t")
proof -
  have ok: "results_ok s" using assms(1) by (simp add: pend_inv_def)
  have set: "set (open_results ?t) = set (open_results s)" using assms(2) by (auto simp: open_results_def)
  have "distinct (open_results ?t)" using ok assms(2) by (auto simp: results_ok_def open_results_def)
  then have res: "results_ok ?t" using ok unfolding results_ok_def set by simp
  have c: "creating ?t = creating s - {(pr, node)}"
    using ok by (intro creating_end [OF assms(2)]) (auto simp: results_ok_def open_results_def)
  have "(pr, node) \<in> creating s" using assms(2) by (force simp: creating_def)
  then have "creating s - {(pr, node)} \<subseteq> {(q, n) \<in> announced (z_pool s). n \<noteq> node}"
    if "creating s \<subseteq> announced (z_pool s)" using that announced_unique by fast
  then show ?thesis using res assms(1) by (auto simp: pend_inv_def c announced_finished)
qed

lemma pend_inv_resolved:
  assumes "pend_inv s" and "z_resolving s = a @ (pr, node, r) # b"
  shows "pend_inv (s\<lparr>z_results := (z_results s)(pr := create_result node r (z_results s pr)), z_resolving := a @ b\<rparr>)"
    (is "pend_inv ?t")
proof -
  have ok: "results_ok s" using assms(1) by (simp add: pend_inv_def)
  have pr: "pr < z_next s" "pr_closes (z_results s pr) = 0"
    using ok assms(2) by (auto simp: results_ok_def open_results_def)
  have "pr_closes (create_result node r (z_results s pr)) = 1"
    using pr(2) by (simp add: create_result_def resolve_def split: sum.split)
  then have "results_ok ?t" using ok assms(2) by (auto simp: results_ok_def open_results_def)
  then show ?thesis using assms(1) by (simp add: pend_inv_def creating_def)
qed

lemma pend_inv_await:
  assumes "pend_inv s" and "select_locked metas fresh hs nodes (z_pool s) = (p, AwaitPending pr)"
  shows "pend_inv (s\<lparr>z_pool := p, z_waiters := z_waiters s @ [(pr, hs)]\<rparr>)"
proof -
  from select_pending [OF assms(2)] obtain node where
    p: "p = z_pool s" "map_of (pl_pendingConnections (z_pool s)) node = Some pr" by auto
  then have "(pr, node) \<in> creating s" using assms(1) by (auto simp: pend_inv_def announced_def)
  then have "pr < z_next s"
    using creating_fst [of pr node s] assms(1) by (auto simp: pend_inv_def results_ok_def open_results_def)
  then show ?thesis using assms(1) p(1)
    by (auto simp: pend_inv_def results_ok_def open_results_def creating_def)
qed

lemma pend_inv_step: "pend_step s t \<Longrightarrow> pend_inv s \<Longrightarrow> pend_inv t"
proof (induction rule: pend_step.induct)
  case (reuse metas s hs nodes p ps)
  then show ?case using select_pending [OF reuse.hyps] by (intro pend_inv_pool) auto
next
  case (await metas s hs nodes p pr)
  then show ?case by (intro pend_inv_await)
next
  case (begin_create metas s hs nodes p node)
  then show ?case by (intro pend_inv_begin)
next
  case (end_create s a pr node hs b r)
  then show ?case by (intro pend_inv_end)
next
  case (resolved s a pr node r b)
  then show ?case by (intro pend_inv_resolved)
next
  case (wait_returns s a pr hs b pick ctxErr res)
  have "pl_pendingConnections (fst (await_finished hs res (z_pool s))) = pl_pendingConnections (z_pool s)"
    by (simp add: await_finished_def pending_frame split: prod.split option.split)
  from announced_cong [OF this] wait_returns show ?case
    by (simp add: pend_inv_def results_ok_def open_results_def creating_def)
next
  case (closed s)
  then show ?case
    by (simp add: pend_inv_def results_ok_def open_results_def creating_def closeAll_locked_def)
qed (simp_all add: pend_inv_pool pending_frame)

interpretation pendsys: transition_system pend_init pend_step pend_inv
  by unfold_locales (auto intro: pend_inv_init pend_inv_step)

section \<open>Properties\<close>

text \<open>\<open>findLeastLoadedPubSub\<close> returns an active, registered connection of the list with the fewest
  subscriptions, and nil exactly when the list has no active, registered connection.\<close>

theorem least_loaded_minimal:
  assumes "loads_fit p metas"
  shows "case findLeastLoadedPubSub p metas pubsubs of
      None \<Rightarrow> \<forall>ps \<in> set pubsubs. \<not> usable p metas ps
    | Some best \<Rightarrow> best \<in> set pubsubs \<and> usable p metas best
        \<and> (\<forall>ps \<in> set pubsubs. usable p metas ps \<longrightarrow> load p metas best \<le> load p metas ps)"
  using findLeast_cases [OF assms] .

definition pool0 :: pubSubPool where
  "pool0 = \<lparr>pl_nodePubSubs = [(''a:1'', [1]), (''b:1'', [2])], pl_hashslotPubSubs = [], pl_pubSubMetadata = [(1, 1), (2, 2)],
     pl_pendingConnections = []\<rparr>"

definition metas0 :: "meta_ref \<Rightarrow> pubSubMetadata" where
  "metas0 mr = (if mr = 1 then (newMetadata ''a:1'')\<lparr>m_subscriptions := [(''x'', [7, 8])]\<rparr>
     else (newMetadata ''b:1'')\<lparr>m_subscriptions := [(''y'', [9])]\<rparr>)"

lemma pool0_fits: "loads_fit pool0 metas0" "conns_fit pool0"
  by (auto simp: loads_fit_def load_def metas0_def meta_subscriptionCount_def maxInt64_def conns_fit_def conns_def
      slice_at_def pool0_def)

theorem least_loaded_minimal_witness:
  "findLeastLoadedPubSub pool0 metas0 [1, 2] = Some 2 \<and> usable pool0 metas0 2 \<and> load pool0 metas0 2 \<le> load pool0 metas0 1"
proof -
  have u: "usable pool0 metas0 1" "usable pool0 metas0 2"
    by (simp_all add: usable_def pool0_def metas0_def newMetadata_def)
  have f: "findLeastLoadedPubSub pool0 metas0 [1, 2] = Some 2" by code_simp
  show ?thesis using least_loaded_minimal [OF pool0_fits(1), of "[1, 2]"] f u by simp
qed

text \<open>C27. Spread first, then balance. If some node of the shard has no connection, no existing connection
  is reused: a connection is created at (or awaited from) a node that has none. If every node has one
  and some connection is active, the active connection with the fewest subscriptions among all nodes of
  the shard is reused and associated with the hashslot. If none is active, a connection is created at
  (or awaited from) a node with the fewest connections.\<close>

theorem select_spread_first:
  assumes "loads_fit p metas" and "conns_fit p" and "nodes \<noteq> []" and "[] \<notin> set nodes"
    and "select_locked metas fresh hs nodes p = (p', d)"
  shows "(\<exists>best. d = Reuse best \<and> (\<forall>n \<in> set nodes. conns p n \<noteq> [])
        \<and> (\<exists>n \<in> set nodes. best \<in> set (conns p n)) \<and> usable p metas best
        \<and> (\<forall>n \<in> set nodes. \<forall>ps \<in> set (conns p n). usable p metas ps \<longrightarrow> load p metas best \<le> load p metas ps)
        \<and> best \<in> set (slice_at (pl_hashslotPubSubs p') hs))
    \<or> (\<exists>node \<in> set nodes. (d = CreateAt node \<or> (\<exists>pr. d = AwaitPending pr \<and> map_of (pl_pendingConnections p) node = Some pr))
        \<and> (\<forall>n \<in> set nodes. length (conns p node) \<le> length (conns p n))
        \<and> ((\<exists>n \<in> set nodes. conns p n = []) \<or> (\<forall>n \<in> set nodes. \<forall>ps \<in> set (conns p n). \<not> usable p metas ps)))"
proof -
  let ?c = "fold (scan_node p metas) nodes scan0"
  let ?n = "fst (fold (fewest_step (sc_nodeConnCounts ?c)) nodes (sc_bestNodeAddr ?c, maxInt64))"
  have best: "best_of p metas (\<Union>n \<in> set nodes. set (conns p n)) (sc_bestPubSub ?c) (sc_bestCount ?c)"
    using scan_best [OF assms(1), of "{}" scan0 nodes] by (simp add: best_of_def scan0_def)
  have un: "sc_hasUnconnectedNode ?c \<longleftrightarrow> (\<exists>n \<in> set nodes. conns p n = [])"
    by (simp add: scan_unconnected) (simp add: scan0_def)
  have n: "?n \<in> set nodes \<and> (\<forall>n' \<in> set nodes. length (conns p ?n) \<le> length (conns p n'))"
    by (rule fewest_node [OF assms(2,3)]) simp_all
  then have "?n \<noteq> []" using assms(4) by metis
  show ?thesis
  proof (cases "sc_bestPubSub ?c = None \<or> sc_hasUnconnectedNode ?c")
    case True
    then have "(\<exists>n \<in> set nodes. conns p n = []) \<or> (\<forall>n \<in> set nodes. \<forall>ps \<in> set (conns p n). \<not> usable p metas ps)"
      using best un by (auto simp: best_of_def)
    moreover have "d = CreateAt ?n \<or> (\<exists>pr. d = AwaitPending pr \<and> map_of (pl_pendingConnections p) ?n = Some pr)"
      using True assms(5) \<open>?n \<noteq> []\<close> by (auto simp: select_locked_def Let_def split: option.splits bool.splits)
    ultimately show ?thesis using n by blast
  next
    case False
    then obtain b where b: "sc_bestPubSub ?c = Some b" "\<not> sc_hasUnconnectedNode ?c" by auto
    then have d: "d = Reuse b" "p' = addHashslotPubSub hs b p"
      using assms(5) by (auto simp: select_locked_def Let_def)
    have "b \<in> set (slice_at (pl_hashslotPubSubs p') hs)"
      by (simp add: d(2) addHashslotPubSub_def slice_simps)
    with b d best un show ?thesis by (auto simp: best_of_def)
  qed
qed

theorem select_spread_first_witness:
  "\<exists>p'. select_locked metas0 0 5 [''a:1'', ''c:1'', ''b:1''] pool0 = (p', CreateAt ''c:1'')
     \<and> (\<forall>n \<in> {''a:1'', ''b:1'', ''c:1''}. length (conns pool0 ''c:1'') \<le> length (conns pool0 n))"
proof -
  obtain p' d where s: "select_locked metas0 0 5 [''a:1'', ''c:1'', ''b:1''] pool0 = (p', d)" by fastforce
  have "snd (select_locked metas0 0 5 [''a:1'', ''c:1'', ''b:1''] pool0) = CreateAt ''c:1''" by code_simp
  then have d: "d = CreateAt ''c:1''" by (simp add: s)
  show ?thesis using select_spread_first [OF pool0_fits _ _ s] s unfolding d by auto
qed


definition pend0 :: pend_sys where
  "pend0 = \<lparr>z_pool = newPubSubPool, z_results = (\<lambda>_. newPendingConnectionResult), z_next = 0,
     z_creators = [], z_resolving = [], z_waiters = [], z_closed = False\<rparr>"


text \<open>\<open>removePubSub\<close> forgets the connection completely and nothing else: it is gone from the connections
  of every node and of every hashslot and from the metadata map, so no later lookup returns it, and every
  other connection stays where it was.\<close>

theorem removePubSub_forgets:
  assumes "pool_ok metas p" and "getMetadata (Some ps) p = Some mr"
  shows "let p' = removePubSub metas ps p
    in (\<forall>n. set (conns p' n) = set (conns p n) - {ps})
       \<and> (\<forall>hs. set (slice_at (pl_hashslotPubSubs p') hs) = set (slice_at (pl_hashslotPubSubs p) hs) - {ps})
       \<and> (\<forall>q. getMetadata (Some q) p' = (if q = ps then None else getMetadata (Some q) p))
       \<and> (\<forall>hs. getPubSub_cached p' metas hs \<noteq> Some ps)"
proof -
  let ?p' = "removePubSub metas ps p"
  have m: "map_of (pl_pubSubMetadata p) ps = Some mr" using assms(2) by (simp add: getMetadata_def)
  note look = removePubSub_lookup [OF assms(1) m]
  have d: "distinct (conns p n)" "distinct (slice_at (pl_hashslotPubSubs p) hs)" for n hs
    using assms(1) by (auto simp: pool_ok_def)
  have nu: "\<not> usable ?p' metas ps" by (simp add: usable_def look(3))
  have "fst (fold (least_step ?p' metas) xs acc) = Some ps \<Longrightarrow> fst acc = Some ps" for xs acc
  proof (induction xs arbitrary: acc)
    case (Cons x xs)
    then have "fst (least_step ?p' metas x acc) = Some ps" by simp
    with nu show ?case by (simp add: least_step_eq split: if_splits)
  qed simp
  then have "findLeastLoadedPubSub ?p' metas xs \<noteq> Some ps" for xs
    unfolding findLeastLoadedPubSub_def by (metis fst_conv option.distinct(1))
  then show ?thesis using d by (simp add: look getMetadata_def getPubSub_cached_def Let_def)
qed

theorem removePubSub_forgets_witness:
  "conns (removePubSub metas0 1 pool0) ''a:1'' = [] \<and> conns (removePubSub metas0 1 pool0) ''b:1'' = [2]"
proof -
  have "pool_ok metas0 pool0"
    by (simp add: pool_ok_def pool0_def conns_def slice_at_def wf_gomap_def metas0_def newMetadata_def)
  moreover have "getMetadata (Some 1) pool0 = Some 1" by (simp add: getMetadata_def pool0_def)
  ultimately have "set (conns (removePubSub metas0 1 pool0) ''a:1'') = {}"
    using removePubSub_forgets [of metas0 pool0 1 1] by (simp add: conns_def pool0_def slice_at_def Let_def)
  moreover have "conns (removePubSub metas0 1 pool0) ''b:1'' = [2]" by code_simp
  ultimately show ?thesis by simp
qed

end
