(* ===== verification/World.thy ===== *)
theory World
  imports Pool
begin

text \<open>
  The state that the goroutines of one SubMux share: the objects the code holds by pointer in stores,
  the SubMux record, the pool, the worker pool and the observable effects. The theories of the event
  loop, of the SubMux operations and of the monitor are state transformers over it. The delivery of a
  message to a subscription (\<open>invokeCallbackOrdered\<close>) is defined and characterised here.
\<close>

section \<open>State\<close>

text \<open>
  \<open>w_responses\<close> holds the buffers of the response channels (capacity 1). A task of the worker pool is
  the drain function of a subscription's sequencer, named by the subscription. \<open>w_goDrains\<close> are drain
  tasks in fallback goroutines, \<open>w_blocked\<close> those whose hand-over is still blocked in \<open>Submit\<close>,
  \<open>w_signals\<close> the overflow signals delivered by goroutines of their own; \<open>w_wg\<close> counts the additions to
  \<open>callbackWg\<close>. \<open>w_refreshes\<close> are the refreshes triggered by redirects, \<open>w_psCloses\<close> the calls of
  \<open>pubsub.Close\<close>. \<open>w_panicked\<close> is set when a goroutine of the library panics.
\<close>

record world =
  w_subs :: "sub_ref \<Rightarrow> subscription"
  w_metas :: "meta_ref \<Rightarrow> pubSubMetadata"
  w_responses :: "resp_ref \<Rightarrow> goerror option list"
  w_next :: nat
  w_pool :: pubSubPool
  w_subscriptions :: "(string, sub_ref list) gomap"
  w_closed :: bool
  w_lifecycleDone :: bool
  w_config :: config
  w_topology :: topologyState
  w_workerPool :: "sub_ref WorkerPool option"
  w_goDrains :: "sub_ref list"
  w_blocked :: "sub_ref list"
  w_signals :: "(sub_ref \<times> Message) list"
  w_wg :: nat
  w_metrics :: "metric list"
  w_refreshes :: "(string \<times> bool) list"
  w_psCloses :: "ps_ref list"
  w_panicked :: bool

definition upd_sub :: "sub_ref \<Rightarrow> (subscription \<Rightarrow> subscription) \<Rightarrow> world \<Rightarrow> world" where
  "upd_sub r f w = w\<lparr>w_subs := (w_subs w)(r := f (w_subs w r))\<rparr>"

definition upd_meta :: "meta_ref \<Rightarrow> (pubSubMetadata \<Rightarrow> pubSubMetadata) \<Rightarrow> world \<Rightarrow> world" where
  "upd_meta r f w = w\<lparr>w_metas := (w_metas w)(r := f (w_metas w r))\<rparr>"

text \<open>The non-blocking send of a result on a command's response channel, if it has one.\<close>

definition respond :: "command \<Rightarrow> goerror option \<Rightarrow> world \<Rightarrow> world" where
  "respond cmd err w =
     (case c_response cmd of
        None \<Rightarrow> w
      | Some r \<Rightarrow> w\<lparr>w_responses := (w_responses w)(r := offer err (w_responses w r))\<rparr>)"

definition record_metric :: "metric \<Rightarrow> world \<Rightarrow> world" where
  "record_metric mt w = w\<lparr>w_metrics := w_metrics w @ [mt]\<rparr>"

section \<open>Delivery\<close>

definition start_by :: "drain_start option \<Rightarrow> sub_ref \<Rightarrow> world \<Rightarrow> world" where
  "start_by how sub w = (case how of
       Some ByGoroutine \<Rightarrow> w\<lparr>w_goDrains := w_goDrains w @ [sub]\<rparr>
     | Some BlockedInSubmit \<Rightarrow> w\<lparr>w_blocked := w_blocked w @ [sub]\<rparr>
     | _ \<Rightarrow> w)"

text \<open>\<open>invokeCallbackOrdered\<close>: enqueue on the subscription's sequencer. A hand-over that blocks delays
  the caller; its task is kept in \<open>w_blocked\<close> and the caller's further effects are those it has afterwards.\<close>

definition invokeCallbackOrdered :: "nat \<Rightarrow> int \<Rightarrow> sub_ref \<Rightarrow> Message \<Rightarrow> world \<Rightarrow> world" where
  "invokeCallbackOrdered pick now sub msg w =
     (case enqueue pick now (w_workerPool w) sub msg (sub_sequencer (w_subs w sub)) of
        None \<Rightarrow> w\<lparr>w_panicked := True\<rparr>
      | Some r \<Rightarrow>
          start_by (e_drain r) sub
            (upd_sub sub (\<lambda>s. s\<lparr>sub_sequencer := e_seq r\<rparr>)
              (w\<lparr>w_workerPool := e_pool r, w_metrics := w_metrics w @ e_metrics r, w_wg := w_wg w + e_wgAdds r,
                 w_signals := w_signals w @ (case e_signal r of None \<Rightarrow> [] | Some m \<Rightarrow> [(sub, m)])\<rparr>)))"

section \<open>Invariant and lemmas\<close>

text \<open>What delivery relies on: sound sequencers, and a worker pool whose queue is closed only after its
  context is cancelled.\<close>

definition pool_safe :: "sub_ref WorkerPool option \<Rightarrow> bool" where
  "pool_safe pool \<longleftrightarrow> (\<forall>wp. pool = Some wp \<longrightarrow> wp_closed wp \<longrightarrow> wp_cancelled wp)"

definition delivery_ok :: "world \<Rightarrow> bool" where
  "delivery_ok w \<longleftrightarrow> (\<forall>r. seq_ok (sub_sequencer (w_subs w r))) \<and> pool_safe (w_workerPool w) \<and> \<not> w_panicked w"

text \<open>The messages queued for a subscription.\<close>

definition queued :: "world \<Rightarrow> sub_ref \<Rightarrow> pendingCallback list" where
  "queued w r = ring_elems (s_queue (sub_sequencer (w_subs w r)))"

definition queue_full :: "world \<Rightarrow> sub_ref \<Rightarrow> bool" where
  "queue_full w r \<longleftrightarrow> full (sub_sequencer (w_subs w r))"

lemma start_drain_ok:
  assumes "pool_safe pool"
  shows "\<exists>pool' how ms. start_drain pick pool task = Some (pool', how, ms) \<and> pool_safe pool'"
  using assms
  by (auto simp: start_drain_def TrySubmit_def Submit_def pre_check_def send_or_give_up_def pool_safe_def
      send_or_wait_def send_ready_def send_task_def go_select_def split: option.splits)

lemma enqueue_outcome:
  assumes "seq_ok s" and "pool_safe pool"
  shows "\<exists>r. enqueue pick now pool task msg s = Some r \<and> seq_ok (e_seq r) \<and> pool_safe (e_pool r)
    \<and> ring_elems (s_queue (e_seq r)) =
        (if full s then ring_elems (s_queue s)
         else ring_elems (s_queue s) @ [\<lparr>pc_msg = Some msg, pc_enqueuedAt = now\<rparr>])"
proof (cases "full s")
  case True
  have ok: "queue_ok s" using assms(1) by (simp add: seq_ok_def)
  have "queue_ok ((ready s)\<lparr>s_dropCount := d, s_overflowing := True\<rparr>)" for d
    using ready_queue_ok [OF ok] by (simp add: queue_ok_def)
  then show ?thesis using True assms ready_ok [OF ok]
    by (simp add: enqueue_def enqueue_locked_full [OF assms(1) True] seq_ok_def)
next
  case False
  from enqueue_locked_room [OF assms(1) False, of now msg] obtain q where
    q: "enqueue_locked now msg s = Some (s\<lparr>s_queue := q, s_active := True, s_overflowing := False, s_dropCount := 0\<rparr>,
      if s_active s then Queued else StartDrain, [SubscriptionQueueDepth (int (length (ring_elems (s_queue s))))])"
    "queue_ok (s\<lparr>s_queue := q\<rparr>)" "ring_elems q = ring_elems (s_queue s) @ [\<lparr>pc_msg = Some msg, pc_enqueuedAt = now\<rparr>]"
    by blast
  have "seq_ok (s\<lparr>s_queue := q, s_active := True, s_overflowing := False, s_dropCount := 0\<rparr>)"
    using q(2) by (simp add: seq_ok_def queue_ok_def)
  with False q start_drain_ok [OF assms(2), of pick task] assms(2) show ?thesis by (auto simp: enqueue_def)
qed

text \<open>Everything but the delivery machinery is untouched by a delivery.\<close>

lemma invoke_frame [simp]:
  "w_metas (invokeCallbackOrdered pick now sub msg w) = w_metas w"
  "w_responses (invokeCallbackOrdered pick now sub msg w) = w_responses w"
  "w_pool (invokeCallbackOrdered pick now sub msg w) = w_pool w"
  "w_subscriptions (invokeCallbackOrdered pick now sub msg w) = w_subscriptions w"
  "w_config (invokeCallbackOrdered pick now sub msg w) = w_config w"
  "w_closed (invokeCallbackOrdered pick now sub msg w) = w_closed w"
  "w_topology (invokeCallbackOrdered pick now sub msg w) = w_topology w"
  "w_psCloses (invokeCallbackOrdered pick now sub msg w) = w_psCloses w"
  by (simp_all add: invokeCallbackOrdered_def upd_sub_def start_by_def split: option.split drain_start.split)

lemma invoke_sub_frame [simp]:
  "sub_state (w_subs (invokeCallbackOrdered pick now sub msg w) r) = sub_state (w_subs w r)"
  "sub_channel (w_subs (invokeCallbackOrdered pick now sub msg w) r) = sub_channel (w_subs w r)"
  "sub_subType (w_subs (invokeCallbackOrdered pick now sub msg w) r) = sub_subType (w_subs w r)"
  "sub_pubsub (w_subs (invokeCallbackOrdered pick now sub msg w) r) = sub_pubsub (w_subs w r)"
  "sub_hashslot (w_subs (invokeCallbackOrdered pick now sub msg w) r) = sub_hashslot (w_subs w r)"
  by (simp_all add: invokeCallbackOrdered_def upd_sub_def start_by_def split: option.split drain_start.split)

lemma invoke_delivery:
  assumes "delivery_ok w"
  shows "delivery_ok (invokeCallbackOrdered pick now sub msg w)
    \<and> queued (invokeCallbackOrdered pick now sub msg w) r =
        (if r = sub \<and> \<not> queue_full w sub then queued w r @ [\<lparr>pc_msg = Some msg, pc_enqueuedAt = now\<rparr>]
         else queued w r)"
proof -
  obtain e where e: "enqueue pick now (w_workerPool w) sub msg (sub_sequencer (w_subs w sub)) = Some e"
    "seq_ok (e_seq e)" "pool_safe (e_pool e)"
    "ring_elems (s_queue (e_seq e)) = (if full (sub_sequencer (w_subs w sub)) then queued w sub
       else queued w sub @ [\<lparr>pc_msg = Some msg, pc_enqueuedAt = now\<rparr>])"
    using enqueue_outcome [of "sub_sequencer (w_subs w sub)" "w_workerPool w" pick now sub msg] assms
    by (auto simp: delivery_ok_def queued_def)
  let ?w = "invokeCallbackOrdered pick now sub msg w"
  have seq: "sub_sequencer (w_subs ?w r) = (if r = sub then e_seq e else sub_sequencer (w_subs w r))" for r
    by (simp add: invokeCallbackOrdered_def e(1) upd_sub_def start_by_def split: option.split drain_start.split)
  have "w_workerPool ?w = e_pool e" "w_panicked ?w = w_panicked w"
    by (simp_all add: invokeCallbackOrdered_def e(1) upd_sub_def start_by_def split: option.split drain_start.split)
  then show ?thesis using assms e seq
    by (auto simp: delivery_ok_def queued_def queue_full_def)
qed

text \<open>Delivering one message to a list of distinct subscriptions.\<close>

definition deliver_all :: "nat \<Rightarrow> int \<Rightarrow> (sub_ref \<Rightarrow> Message) \<Rightarrow> sub_ref list \<Rightarrow> world \<Rightarrow> world" where
  "deliver_all pick now msg subs w = fold (\<lambda>sub. invokeCallbackOrdered pick now sub (msg sub)) subs w"

text \<open>The queue limit of a subscription never changes.\<close>

lemma enqueue_limit: "enqueue pick now pool t msg s = Some r \<Longrightarrow> s_maxQueueSize (e_seq r) = s_maxQueueSize s"
  by (auto simp: enqueue_def enqueue_locked_def Let_def split: option.splits enqueue_decision.splits if_splits prod.splits)

lemma invoke_limit:
  "s_maxQueueSize (sub_sequencer (w_subs (invokeCallbackOrdered pick now sub msg w) r)) = s_maxQueueSize (sub_sequencer (w_subs w r))"
  by (auto simp: invokeCallbackOrdered_def start_by_def upd_sub_def enqueue_limit split: option.split drain_start.split)

end
