(* ===== verification/Submux_Map.thy ===== *)
theory Submux_Map
  imports World
begin

text \<open>
  The global map of subscriptions of a SubMux (\<open>submux.go\<close>, \<open>addSubscriptionToMapLocked\<close> to
  \<open>removeSubscriptionFromMapLocked\<close>, \<open>subscriptionCount\<close>), and its interpretation as a registry that
  drops dead entries when it adds to a channel.
\<close>

section \<open>The source's methods\<close>

text \<open>On the map alone: \<open>live\<close> tells whether a subscription is neither failed nor closed.\<close>

definition add_to_map ::
  "(sub_ref \<Rightarrow> bool) \<Rightarrow> string \<Rightarrow> sub_ref \<Rightarrow> (string, sub_ref list) gomap \<Rightarrow> (string, sub_ref list) gomap" where
  "add_to_map live channel sub m =
     (let existing = slice_at m channel;
          newSubs = fold (\<lambda>s acc. if live s then acc @ [s] else acc) existing []
      in AList.update channel (newSubs @ [sub]) m)"

definition remove_from_map :: "string \<Rightarrow> sub_ref \<Rightarrow> (string, sub_ref list) gomap \<Rightarrow> (string, sub_ref list) gomap" where
  "remove_from_map channel sub m =
     (let subs = slice_at m channel;
          m1 = (case slice_index sub subs of
                  None \<Rightarrow> m
                | Some i \<Rightarrow> AList.update channel (slices_Delete subs i (i + 1)) m)
      in if length (slice_at m1 channel) = 0 then AList.delete channel m1 else m1)"

definition sub_live :: "world \<Rightarrow> sub_ref \<Rightarrow> bool" where
  "sub_live w s \<longleftrightarrow> getState (w_subs w s) \<noteq> subStateFailed \<and> getState (w_subs w s) \<noteq> subStateClosed"

definition addSubscriptionToMapLocked :: "string \<Rightarrow> sub_ref \<Rightarrow> world \<Rightarrow> world" where
  "addSubscriptionToMapLocked channel sub w =
     w\<lparr>w_subscriptions := add_to_map (sub_live w) channel sub (w_subscriptions w)\<rparr>"

definition removeSubscriptionFromMap :: "string \<Rightarrow> sub_ref \<Rightarrow> world \<Rightarrow> world" where
  "removeSubscriptionFromMap channel sub w =
     w\<lparr>w_subscriptions := remove_from_map channel sub (w_subscriptions w)\<rparr>"

definition sm_subscriptionCount :: "world \<Rightarrow> nat" where
  "sm_subscriptionCount w = fold (\<lambda>(_, subs) count. count + length subs) (w_subscriptions w) 0"

section \<open>Lemmas\<close>

lemma add_to_map_subs:
  "slice_at (add_to_map live ch x m) ch' =
     (if ch' = ch then filter live (slice_at m ch) @ [x] else slice_at m ch')"
proof -
  have "fold (\<lambda>s acc. if live s then acc @ [s] else acc) xs acc = acc @ filter live xs" for xs acc
    by (induction xs arbitrary: acc) auto
  then show ?thesis by (simp add: add_to_map_def slice_simps)
qed

lemma remove_from_map_subs:
  "slice_at (remove_from_map ch x m) ch' = (if ch' = ch then remove1 x (slice_at m ch) else slice_at m ch')"
  using slice_index_remove1 [of x "slice_at m ch"]
  by (auto simp: remove_from_map_def Let_def slice_simps slice_index_None remove1_idem split: option.split)

definition map_ok :: "(string, sub_ref list) gomap \<Rightarrow> bool" where
  "map_ok m \<longleftrightarrow> wf_gomap m \<and> no_empty m"

lemma map_ok_add: "map_ok m \<Longrightarrow> map_ok (add_to_map live ch x m)"
  by (simp add: map_ok_def add_to_map_def Let_def inv_intros)

lemma map_ok_remove: "map_ok m \<Longrightarrow> map_ok (remove_from_map ch x m)"
proof -
  assume ok: "map_ok m"
  have "remove_from_map ch x m = store_slice ch (remove1 x (slice_at m ch)) m
      \<or> remove_from_map ch x m = m \<or> remove_from_map ch x m = AList.delete ch m
      \<or> remove_from_map ch x m = AList.delete ch (AList.update ch (remove1 x (slice_at m ch)) m)"
    using slice_index_remove1 [of x "slice_at m ch"]
    by (auto simp: remove_from_map_def Let_def slice_simps store_slice_def split: option.split)
  moreover have "wf_gomap (AList.delete ch (AList.update ch v m))" for v
    using ok by (simp add: map_ok_def inv_intros)
  moreover have "no_empty (AList.delete ch (AList.update ch v m))" for v
    using ok by (auto simp: map_ok_def no_empty_iff inv_intros) (auto simp: delete_conv' update_conv' split: if_splits)
  ultimately show ?thesis using ok by (auto simp: map_ok_def intro: inv_intros)
qed

interpretation smreg: sub_registry slice_at "add_to_map live" remove_from_map live map_ok
  for live
  by unfold_locales (simp_all add: add_to_map_subs remove_from_map_subs map_ok_add map_ok_remove)

lemma sm_subscriptionCount_eq: "sm_subscriptionCount w = length (all_slices (w_subscriptions w))"
  by (simp add: sm_subscriptionCount_def fold_count)

end
