(* ===== verification/Event_Loop.thy ===== *)
theory Event_Loop
  imports Submux_Map
begin

text \<open>
  \<open>eventloop.go\<close> and the exit callback of \<open>createPubSubToNode\<close> (\<open>pool.go\<close>): the goroutine that owns one
  PubSub connection. One iteration of its loop is a function of the case its \<open>select\<close> takes; leaving the
  loop runs the deferred calls. What the Redis client answers to a command is an argument, and so are its
  classifiers of redirect errors.
\<close>

section \<open>Commands\<close>

fun errorString :: "goerror \<Rightarrow> string" where
  "errorString ErrInvalidClusterClient = ''submux: invalid cluster client''"
| "errorString ErrInvalidChannel = ''submux: invalid channel name''"
| "errorString ErrSubscriptionFailed = ''submux: subscription failed''"
| "errorString ErrConnectionFailed = ''submux: connection failed''"
| "errorString ErrClosed = ''submux: SubMux is closed''"
| "errorString ErrEventLoopStopped = ''submux: event loop stopped''"
| "errorString ContextCanceled = ''context canceled''"
| "errorString ContextDeadlineExceeded = ''context deadline exceeded''"
| "errorString (RedisError m) = m"
| "errorString (Errorf m) = m"
| "errorString (Wrapf m e) = m @ errorString e"
| "errorString (WrapfThen e m) = errorString e @ m"

text \<open>What the loop knows of the Redis client: the target address of a MOVED and of an ASK error.\<close>

record redirects =
  isMovedError :: "goerror \<Rightarrow> string option"
  isAskError :: "goerror \<Rightarrow> string option"

definition checkAndHandleRedirect :: "redirects \<Rightarrow> goerror \<Rightarrow> world \<Rightarrow> world" where
  "checkAndHandleRedirect rd err w =
     (case isMovedError rd err of
        Some addr \<Rightarrow> w\<lparr>w_refreshes := w_refreshes w @ [(addr, True)]\<rparr>
      | None \<Rightarrow>
          (case isAskError rd err of
             Some addr \<Rightarrow> w\<lparr>w_refreshes := w_refreshes w @ [(addr, False)]\<rparr>
           | None \<Rightarrow> w))"

definition known_command :: "string \<Rightarrow> bool" where
  "known_command c \<longleftrightarrow> c = cmdSubscribe \<or> c = cmdPSubscribe \<or> c = cmdSSubscribe
     \<or> c = cmdUnsubscribe \<or> c = cmdPUnsubscribe \<or> c = cmdSUnsubscribe"

text \<open>\<open>answer\<close> is what the PubSub method for the command returns.\<close>

definition sendRedisCommand ::
  "redirects \<Rightarrow> goerror option \<Rightarrow> command \<Rightarrow> world \<Rightarrow> world \<times> goerror option" where
  "sendRedisCommand rd answer cmd w =
     (if known_command (c_cmd cmd)
      then (case answer of
              None \<Rightarrow> (w, None)
            | Some err \<Rightarrow> (checkAndHandleRedirect rd err w, Some err))
      else (w, Some (Errorf (''unknown command: '' @ c_cmd cmd))))"

definition isSubscribeCommand :: "string \<Rightarrow> bool" where
  "isSubscribeCommand c \<longleftrightarrow> c = cmdSubscribe \<or> c = cmdPSubscribe \<or> c = cmdSSubscribe"

section \<open>Failure of the connection\<close>

definition failureSignal :: "int \<Rightarrow> goerror \<Rightarrow> subscriptionType \<Rightarrow> Message" where
  "failureSignal now err subType =
     \<lparr>msg_Type = MessageTypeSignal, msg_Channel = [], msg_Payload = [], msg_Pattern = [],
      msg_Signal = Some \<lparr>sig_EventType = EventNodeFailure, sig_Hashslot = 0, sig_OldNode = [], sig_NewNode = [],
        sig_Details = errorString err, sig_DroppedCount = 0\<rparr>,
      msg_Timestamp = now, msg_SubscriptionType = subType\<rparr>"

definition notify_one :: "nat \<Rightarrow> int \<Rightarrow> goerror \<Rightarrow> sub_ref \<Rightarrow> world \<Rightarrow> world" where
  "notify_one pick now err sub w =
     (let w1 = upd_sub sub (setState subStateFailed (Some err)) w
      in invokeCallbackOrdered pick now sub (failureSignal now err (sub_subType (w_subs w1 sub))) w1)"

definition notifySubscriptionsOfFailure :: "nat \<Rightarrow> int \<Rightarrow> meta_ref \<Rightarrow> goerror \<Rightarrow> world \<Rightarrow> world" where
  "notifySubscriptionsOfFailure pick now mr err w =
     (let w1 = record_metric (ConnectionFailed (m_nodeAddr (w_metas w mr)) ''connection_closed'') w
      in fold (notify_one pick now err) (getAllSubscriptions (w_metas w1 mr)) w1)"

section \<open>Messages\<close>

text \<open>What the PubSub channel delivers: a confirmation (kind, channel), a message (pattern, channel,
  payload), or a value of another type.\<close>

datatype redisMsg = RSubscription string string | RMessage string string string | ROther

definition handleSubscriptionConfirmation :: "meta_ref \<Rightarrow> string \<Rightarrow> string \<Rightarrow> world \<Rightarrow> world" where
  "handleSubscriptionConfirmation mr kind channel w =
     (if kind = redisKindSubscribe \<or> kind = redisKindPSubscribe \<or> kind = redisKindSSubscribe
      then (case getPendingSubscription channel (w_metas w mr) of
              None \<Rightarrow> w
            | Some pendingSub \<Rightarrow>
                upd_meta mr (removePendingSubscription channel) (upd_sub pendingSub (setState subStateActive None) w))
      else w)"

definition dispatch_one :: "nat \<Rightarrow> int \<Rightarrow> Message \<Rightarrow> sub_ref \<Rightarrow> world \<Rightarrow> world" where
  "dispatch_one pick now msg sub w =
     (let state = getState (w_subs w sub)
      in if state = subStateClosed \<or> state = subStateFailed then w else invokeCallbackOrdered pick now sub msg w)"

definition dispatchMessage :: "nat \<Rightarrow> int \<Rightarrow> meta_ref \<Rightarrow> string \<Rightarrow> Message \<Rightarrow> world \<Rightarrow> world" where
  "dispatchMessage pick now mr lookupKey msg w =
     (let subs = getSubscriptions lookupKey (w_metas w mr)
      in if length subs = 0 then w
         else fold (dispatch_one pick now msg) subs
                (record_metric (MessageReceived (String_subType (msg_SubscriptionType msg)) (m_nodeAddr (w_metas w mr))) w))"

definition redisMessage :: "MessageType \<Rightarrow> subscriptionType \<Rightarrow> string \<Rightarrow> string \<Rightarrow> string \<Rightarrow> int \<Rightarrow> Message" where
  "redisMessage ty subType pattern channel payload now =
     \<lparr>msg_Type = ty, msg_Channel = channel, msg_Payload = payload, msg_Pattern = pattern, msg_Signal = None,
      msg_Timestamp = now, msg_SubscriptionType = subType\<rparr>"

definition handleMessageFromPubSub :: "nat \<Rightarrow> int \<Rightarrow> meta_ref \<Rightarrow> string \<Rightarrow> string \<Rightarrow> world \<Rightarrow> world" where
  "handleMessageFromPubSub pick now mr channel payload =
     dispatchMessage pick now mr channel (redisMessage MessageTypeMessage subTypeSubscribe [] channel payload now)"

definition handlePMessageFromPubSub :: "nat \<Rightarrow> int \<Rightarrow> meta_ref \<Rightarrow> string \<Rightarrow> string \<Rightarrow> string \<Rightarrow> world \<Rightarrow> world" where
  "handlePMessageFromPubSub pick now mr pattern channel payload =
     dispatchMessage pick now mr pattern (redisMessage MessageTypePMessage subTypePSubscribe pattern channel payload now)"

definition handleSMessageFromPubSub :: "nat \<Rightarrow> int \<Rightarrow> meta_ref \<Rightarrow> string \<Rightarrow> string \<Rightarrow> world \<Rightarrow> world" where
  "handleSMessageFromPubSub pick now mr channel payload =
     dispatchMessage pick now mr channel (redisMessage MessageTypeSMessage subTypeSSubscribe [] channel payload now)"

text \<open>The error returned for a value of another type is only logged.\<close>

definition processResponse :: "nat \<Rightarrow> int \<Rightarrow> meta_ref \<Rightarrow> redisMsg \<Rightarrow> world \<Rightarrow> world" where
  "processResponse pick now mr msg w = (case msg of
       RSubscription kind channel \<Rightarrow> handleSubscriptionConfirmation mr kind channel w
     | RMessage pattern channel payload \<Rightarrow>
         if pattern \<noteq> [] then handlePMessageFromPubSub pick now mr pattern channel payload w
         else (let subs = getSubscriptions channel (w_metas w mr)
               in if length subs > 0 \<and> sub_subType (w_subs w (subs ! 0)) = subTypeSSubscribe
                  then handleSMessageFromPubSub pick now mr channel payload w
                  else handleMessageFromPubSub pick now mr channel payload w)
     | ROther \<Rightarrow> w)"

section \<open>The loop\<close>

text \<open>The results are the new state and whether the loop is left.\<close>

definition handle_command ::
  "redirects \<Rightarrow> nat \<Rightarrow> int \<Rightarrow> goerror option \<Rightarrow> meta_ref \<Rightarrow> command \<Rightarrow> world \<Rightarrow> world \<times> bool" where
  "handle_command rd pick now answer mr cmd w =
     (let (w1, result) = sendRedisCommand rd answer cmd w
      in case result of
           None \<Rightarrow> (respond cmd None w1, False)
         | Some err \<Rightarrow>
             (let w2 = (case c_sub cmd of
                          None \<Rightarrow> w1
                        | Some sub \<Rightarrow>
                            if isSubscribeCommand (c_cmd cmd)
                            then upd_sub sub (setState subStateFailed (Some err))
                                   (upd_meta mr (removePendingSubscription (sub_channel (w_subs w1 sub))) w1)
                            else w1);
                  w3 = respond cmd (Some err) w2
              in if errorsIs err ContextCanceled \<or> errorsIs err ContextDeadlineExceeded then (w3, False)
                 else (notifySubscriptionsOfFailure pick now mr err (upd_meta mr (meta_setState connStateFailed) w3), True)))"

datatype loop_event =
    CmdReady "goerror option"
  | MsgReady redisMsg
  | MsgChClosed
  | DoneClosed

text \<open>One iteration; \<open>None\<close>: the case is not ready.\<close>

definition loop_iteration ::
  "redirects \<Rightarrow> nat \<Rightarrow> int \<Rightarrow> meta_ref \<Rightarrow> loop_event \<Rightarrow> world \<Rightarrow> (world \<times> bool) option" where
  "loop_iteration rd pick now mr ev w = (case ev of
       CmdReady answer \<Rightarrow>
         (case m_cmdCh (w_metas w mr) of
            [] \<Rightarrow> None
          | cmd # rest \<Rightarrow> Some (handle_command rd pick now answer mr cmd (upd_meta mr (\<lambda>m. m\<lparr>m_cmdCh := rest\<rparr>) w)))
     | MsgReady msg \<Rightarrow> Some (processResponse pick now mr msg w, False)
     | MsgChClosed \<Rightarrow>
         Some (notifySubscriptionsOfFailure pick now mr (Errorf ''pubsub channel closed'')
                 (upd_meta mr (meta_setState connStateFailed) w), True)
     | DoneClosed \<Rightarrow> if m_doneCloses (w_metas w mr) > 0 then Some (w, True) else None)"

definition drainCmdCh :: "meta_ref \<Rightarrow> world \<Rightarrow> world" where
  "drainCmdCh mr w =
     upd_meta mr (\<lambda>m. m\<lparr>m_cmdCh := []\<rparr>)
       (fold (\<lambda>cmd. respond cmd (Some errEventLoopStopped)) (m_cmdCh (w_metas w mr)) w)"

text \<open>The callback \<open>onEventLoopExit\<close>: a connection that failed is closed, removed from the pool and, unless
  subscriptions are to be recovered, its subscriptions are removed from the global map.\<close>

definition onEventLoopExit :: "ps_ref \<Rightarrow> meta_ref \<Rightarrow> world \<Rightarrow> world" where
  "onEventLoopExit ps mr w =
     (if meta_getState (w_metas w mr) \<noteq> connStateFailed then w
      else (let (m1, goOn) = close_locked (w_metas w mr);
                w1 = upd_meta mr (\<lambda>_. if goOn then close_client m1 else m1) w;
                w2 = w1\<lparr>w_psCloses := w_psCloses w1 @ [ps]\<rparr>;
                w3 = w2\<lparr>w_pool := removePubSub (w_metas w2) ps (w_pool w2)\<rparr>
            in if \<not> cfg_autoResubscribe (w_config w3)
               then fold (\<lambda>sub v. removeSubscriptionFromMap (sub_channel (w_subs v sub)) sub v)
                      (getAllSubscriptions (w_metas w3 mr)) w3
               else w3))"

text \<open>The deferred calls, in the order in which they run.\<close>

definition loop_exit :: "ps_ref \<Rightarrow> meta_ref \<Rightarrow> world \<Rightarrow> world" where
  "loop_exit ps mr w =
     onEventLoopExit ps mr (upd_meta mr (\<lambda>m. m\<lparr>m_loopDoneCloses := Suc (m_loopDoneCloses m)\<rparr>) (drainCmdCh mr w))"

text \<open>The loop on a given sequence of select choices, until it is left (\<open>True\<close>) or the sequence ends.\<close>

fun runEventLoop ::
  "redirects \<Rightarrow> ps_ref \<Rightarrow> meta_ref \<Rightarrow> (nat \<times> int \<times> loop_event) list \<Rightarrow> world \<Rightarrow> (world \<times> bool) option" where
  "runEventLoop rd ps mr [] w = Some (w, False)"
| "runEventLoop rd ps mr ((pick, now, ev) # evs) w =
     (case loop_iteration rd pick now mr ev w of
        None \<Rightarrow> None
      | Some (w', True) \<Rightarrow> Some (loop_exit ps mr w', True)
      | Some (w', False) \<Rightarrow> runEventLoop rd ps mr evs w')"

section \<open>Lemmas\<close>

subsection \<open>Frames\<close>

lemma upd_frame [simp]:
  "w_metas (upd_sub r f w) = w_metas w" "w_responses (upd_sub r f w) = w_responses w"
  "w_pool (upd_sub r f w) = w_pool w" "w_subscriptions (upd_sub r f w) = w_subscriptions w"
  "w_config (upd_sub r f w) = w_config w" "w_workerPool (upd_sub r f w) = w_workerPool w"
  "w_panicked (upd_sub r f w) = w_panicked w" "w_next (upd_sub r f w) = w_next w" "w_next (upd_meta mr g w) = w_next w"
  "w_subs (upd_sub r f w) = (w_subs w)(r := f (w_subs w r))"
  "w_metas (upd_meta mr g w) = (w_metas w)(mr := g (w_metas w mr))" "w_responses (upd_meta mr g w) = w_responses w"
  "w_pool (upd_meta mr g w) = w_pool w" "w_subscriptions (upd_meta mr g w) = w_subscriptions w"
  "w_config (upd_meta mr g w) = w_config w" "w_subs (upd_meta mr g w) = w_subs w"
  "w_workerPool (upd_meta mr g w) = w_workerPool w" "w_panicked (upd_meta mr g w) = w_panicked w"
  by (simp_all add: upd_sub_def upd_meta_def)

lemma respond_frame [simp]:
  "w_metas (respond cmd e w) = w_metas w" "w_subs (respond cmd e w) = w_subs w" "w_pool (respond cmd e w) = w_pool w"
  "w_subscriptions (respond cmd e w) = w_subscriptions w" "w_config (respond cmd e w) = w_config w"
  "w_workerPool (respond cmd e w) = w_workerPool w" "w_panicked (respond cmd e w) = w_panicked w"
  by (simp_all add: respond_def split: option.split)

lemma record_metric_frame [simp]:
  "w_metas (record_metric mt w) = w_metas w" "w_subs (record_metric mt w) = w_subs w"
  "w_responses (record_metric mt w) = w_responses w" "w_pool (record_metric mt w) = w_pool w"
  "w_subscriptions (record_metric mt w) = w_subscriptions w" "w_config (record_metric mt w) = w_config w"
  "delivery_ok (record_metric mt w) = delivery_ok w" "queued (record_metric mt w) r = queued w r"
  "queue_full (record_metric mt w) r = queue_full w r"
  by (simp_all add: record_metric_def delivery_ok_def queued_def queue_full_def)

lemma redirect_frame [simp]:
  "w_metas (checkAndHandleRedirect rd e w) = w_metas w" "w_subs (checkAndHandleRedirect rd e w) = w_subs w"
  "w_responses (checkAndHandleRedirect rd e w) = w_responses w"
  by (simp_all add: checkAndHandleRedirect_def split: option.split)

lemma delivery_upd_sub [simp]:
  "(\<And>s. sub_sequencer (f s) = sub_sequencer s) \<Longrightarrow> delivery_ok (upd_sub r f w) = delivery_ok w"
  "(\<And>s. sub_sequencer (f s) = sub_sequencer s) \<Longrightarrow> queued (upd_sub r f w) x = queued w x"
  "(\<And>s. sub_sequencer (f s) = sub_sequencer s) \<Longrightarrow> queue_full (upd_sub r f w) x = queue_full w x"
  by (auto simp: delivery_ok_def queued_def queue_full_def)

lemma dispatch_fold_frame [simp]:
  "w_metas (fold (dispatch_one pick now msg) subs w) = w_metas w"
  "w_responses (fold (dispatch_one pick now msg) subs w) = w_responses w"
  by (induction subs arbitrary: w) (simp_all add: dispatch_one_def Let_def)

lemma notify_fold_frame [simp]:
  "w_metas (fold (notify_one pick now err) subs w) = w_metas w"
  "w_responses (fold (notify_one pick now err) subs w) = w_responses w"
  "w_pool (fold (notify_one pick now err) subs w) = w_pool w"
  "w_subscriptions (fold (notify_one pick now err) subs w) = w_subscriptions w"
  "w_config (fold (notify_one pick now err) subs w) = w_config w"
  by (induction subs arbitrary: w) (simp_all add: notify_one_def Let_def)

subsection \<open>Dispatch\<close>

lemma queue_full_cong: "sub_sequencer (w_subs v r) = sub_sequencer (w_subs w r) \<Longrightarrow> queue_full v r = queue_full w r"
  by (simp add: queue_full_def)

lemma invoke_other: "r \<noteq> sub \<Longrightarrow> w_subs (invokeCallbackOrdered pick now sub msg w) r = w_subs w r"
  by (simp add: invokeCallbackOrdered_def upd_sub_def start_by_def split: option.split drain_start.split)

lemma dispatch_one_effect:
  assumes "delivery_ok w"
  shows "delivery_ok (dispatch_one pick now msg sub w)
    \<and> queued (dispatch_one pick now msg sub w) r = queued w r @
        (if r = sub \<and> sub_live w sub \<and> \<not> queue_full w sub then [\<lparr>pc_msg = Some msg, pc_enqueuedAt = now\<rparr>] else [])
    \<and> sub_state (w_subs (dispatch_one pick now msg sub w) r) = sub_state (w_subs w r)
    \<and> (r \<noteq> sub \<longrightarrow> w_subs (dispatch_one pick now msg sub w) r = w_subs w r)"
  using invoke_delivery [OF assms, of pick now sub msg r] invoke_other [of r sub]
  by (auto simp: dispatch_one_def sub_live_def getState_def Let_def assms)

lemma dispatch_fold_effect:
  "delivery_ok w \<Longrightarrow> distinct subs \<Longrightarrow>
   delivery_ok (fold (dispatch_one pick now msg) subs w)
   \<and> queued (fold (dispatch_one pick now msg) subs w) r = queued w r @
       (if r \<in> set subs \<and> sub_live w r \<and> \<not> queue_full w r then [\<lparr>pc_msg = Some msg, pc_enqueuedAt = now\<rparr>] else [])
   \<and> sub_state (w_subs (fold (dispatch_one pick now msg) subs w) r) = sub_state (w_subs w r)"
proof (induction subs arbitrary: w)
  case Nil
  then show ?case by simp
next
  case (Cons x subs)
  let ?w = "dispatch_one pick now msg x w"
  note one = dispatch_one_effect [OF Cons.prems(1), of pick now msg x r]
  have "delivery_ok ?w" "distinct subs" using one Cons.prems(2) by auto
  note IH = Cons.IH [OF this] and x = Cons.prems(2)
  have same: "sub_live ?w r = sub_live w r" using one by (simp add: sub_live_def getState_def)
  have q: "r \<noteq> x \<Longrightarrow> queue_full ?w r = queue_full w r" using one by (simp add: queue_full_def)
  show ?case using IH one x same q by (cases "r = x") auto
qed

subsection \<open>Failure\<close>

lemma notify_one_effect:
  assumes "delivery_ok w"
  shows "delivery_ok (notify_one pick now err sub w)
    \<and> sub_state (w_subs (notify_one pick now err sub w) r) = (if r = sub then subStateFailed else sub_state (w_subs w r))
    \<and> sub_subType (w_subs (notify_one pick now err sub w) r) = sub_subType (w_subs w r)
    \<and> sub_channel (w_subs (notify_one pick now err sub w) r) = sub_channel (w_subs w r)
    \<and> (queue_full w r \<or> queued (notify_one pick now err sub w) r = queued w r @
        (if r = sub then [\<lparr>pc_msg = Some (failureSignal now err (sub_subType (w_subs w r))), pc_enqueuedAt = now\<rparr>] else []))
    \<and> (r \<noteq> sub \<longrightarrow> w_subs (notify_one pick now err sub w) r = w_subs w r)"
proof -
  let ?w1 = "upd_sub sub (setState subStateFailed (Some err)) w"
  have "delivery_ok ?w1" using assms by simp
  from invoke_delivery [OF this, of pick now sub "failureSignal now err (sub_subType (w_subs w sub))" r] show ?thesis
    using invoke_other [of r sub] by (auto simp: notify_one_def Let_def)
qed

lemma notify_fold_effect:
  "delivery_ok w \<Longrightarrow> distinct subs \<Longrightarrow>
   delivery_ok (fold (notify_one pick now err) subs w)
   \<and> sub_state (w_subs (fold (notify_one pick now err) subs w) r) =
       (if r \<in> set subs then subStateFailed else sub_state (w_subs w r))
   \<and> sub_channel (w_subs (fold (notify_one pick now err) subs w) r) = sub_channel (w_subs w r)
   \<and> (queue_full w r \<or> queued (fold (notify_one pick now err) subs w) r = queued w r @
       (if r \<in> set subs then [\<lparr>pc_msg = Some (failureSignal now err (sub_subType (w_subs w r))), pc_enqueuedAt = now\<rparr>] else []))"
proof (induction subs arbitrary: w)
  case Nil
  then show ?case by simp
next
  case (Cons x subs)
  let ?w = "notify_one pick now err x w"
  note one = notify_one_effect [OF Cons.prems(1), of pick now err x r]
  have "delivery_ok ?w" "distinct subs" using one Cons.prems(2) by auto
  note IH = Cons.IH [OF this] and x = Cons.prems(2)
  have q: "r \<noteq> x \<Longrightarrow> queue_full ?w r = queue_full w r" using one by (simp add: queue_full_def)
  show ?case
  proof (cases "r = x")
    case True
    have "queued (fold (notify_one pick now err) subs ?w) r = queued ?w r"
    proof -
      have "w_subs (fold (notify_one pick now err) ys v) r = w_subs v r" if "r \<notin> set ys" for ys v
        using that by (induction ys arbitrary: v) (auto simp: notify_one_def Let_def invoke_other)
      then show ?thesis using x True by (simp add: queued_def)
    qed
    with IH one x True show ?thesis by auto
  next
    case False
    with IH one q show ?thesis by auto
  qed
qed

subsection \<open>Answers to commands\<close>

definition answered :: "world \<Rightarrow> resp_ref \<Rightarrow> bool" where
  "answered w r \<longleftrightarrow> w_responses w r \<noteq> []"

lemma respond_answers: "c_response cmd = Some r \<Longrightarrow> answered (respond cmd e w) r"
  by (simp add: answered_def respond_def offer_def)

lemma respond_keeps: "answered w r \<Longrightarrow> answered (respond cmd e w) r"
  by (auto simp: answered_def respond_def offer_def split: option.split)

lemma respond_fold_answers:
  "answered w r \<or> (\<exists>cmd \<in> set cmds. c_response cmd = Some r) \<Longrightarrow>
   answered (fold (\<lambda>cmd. respond cmd e) cmds w) r"
  by (induction cmds arbitrary: w) (auto intro: respond_answers respond_keeps)

lemma answered_frame [simp]:
  "answered (upd_sub x f w) r = answered w r" "answered (upd_meta mr g w) r = answered w r"
  "answered (record_metric mt w) r = answered w r" "answered (checkAndHandleRedirect rd e w) r = answered w r"
  by (simp_all add: answered_def)

lemma notify_answered [simp]:
  "answered (notifySubscriptionsOfFailure pick now mr err w) r = answered w r"
  "w_metas (notifySubscriptionsOfFailure pick now mr err w) = w_metas w"
  by (simp_all add: answered_def notifySubscriptionsOfFailure_def Let_def)

lemma processResponse_frame [simp]:
  "answered (processResponse pick now mr msg w) r = answered w r"
  "m_cmdCh (w_metas (processResponse pick now mr msg w) x) = m_cmdCh (w_metas w x)"
  by (auto simp: answered_def processResponse_def handleSubscriptionConfirmation_def handleMessageFromPubSub_def
      handlePMessageFromPubSub_def handleSMessageFromPubSub_def dispatchMessage_def removePendingSubscription_def
      Let_def split: redisMsg.split option.split)

lemma sendRedis_frame:
  "sendRedisCommand rd answer cmd w = (w1, e) \<Longrightarrow> w_metas w1 = w_metas w \<and> w_subs w1 = w_subs w
     \<and> (\<forall>r. answered w1 r = answered w r)"
  by (auto simp: sendRedisCommand_def answered_def split: if_splits option.splits)

lemma handle_command_answers:
  assumes "handle_command rd pick now answer mr cmd w = (w', left)"
  shows "(answered w r \<or> c_response cmd = Some r \<longrightarrow> answered w' r) \<and> m_cmdCh (w_metas w' mr) = m_cmdCh (w_metas w mr)"
proof -
  obtain w1 e where s: "sendRedisCommand rd answer cmd w = (w1, e)" by fastforce
  note fr = sendRedis_frame [OF s]
  show ?thesis
  proof (cases e)
    case None
    then show ?thesis using assms fr
      by (auto simp: handle_command_def s intro: respond_answers respond_keeps)
  next
    case (Some err)
    let ?w2 = "case c_sub cmd of None \<Rightarrow> w1 | Some sub \<Rightarrow> if isSubscribeCommand (c_cmd cmd)
      then upd_sub sub (setState subStateFailed (Some err)) (upd_meta mr (removePendingSubscription (sub_channel (w_subs w1 sub))) w1)
      else w1"
    have w2: "answered ?w2 r = answered w r" "m_cmdCh (w_metas ?w2 mr) = m_cmdCh (w_metas w mr)"
      using fr by (auto simp: removePendingSubscription_def split: option.split)
    have "w' = respond cmd (Some err) ?w2 \<or>
        w' = notifySubscriptionsOfFailure pick now mr err (upd_meta mr (meta_setState connStateFailed) (respond cmd (Some err) ?w2))"
      using assms Some by (auto simp: handle_command_def s Let_def split: if_splits)
    moreover have "answered w r \<or> c_response cmd = Some r \<longrightarrow> answered (respond cmd (Some err) ?w2) r"
      using w2(1) by (auto intro: respond_answers respond_keeps)
    ultimately show ?thesis using w2(2) by (auto simp: meta_setState_def)
  qed
qed

lemma iteration_answers:
  assumes "loop_iteration rd pick now mr ev w = Some (w', left)"
    and "answered w r \<or> (\<exists>cmd \<in> set (m_cmdCh (w_metas w mr)). c_response cmd = Some r)"
  shows "answered w' r \<or> (\<exists>cmd \<in> set (m_cmdCh (w_metas w' mr)). c_response cmd = Some r)"
proof (cases ev)
  case (CmdReady answer)
  then obtain cmd rest where c: "m_cmdCh (w_metas w mr) = cmd # rest"
    "handle_command rd pick now answer mr cmd (upd_meta mr (\<lambda>m. m\<lparr>m_cmdCh := rest\<rparr>) w) = (w', left)"
    using assms(1) by (auto simp: loop_iteration_def split: list.splits)
  from handle_command_answers [OF c(2), of r] assms(2) show ?thesis by (auto simp: c(1))
qed (use assms in \<open>auto simp: loop_iteration_def meta_setState_def split: if_splits\<close>)

lemma exit_answers:
  assumes "answered w r \<or> (\<exists>cmd \<in> set (m_cmdCh (w_metas w mr)). c_response cmd = Some r)"
  shows "answered (loop_exit ps mr w) r"
proof -
  have fr: "w_responses (fold (\<lambda>sub v. removeSubscriptionFromMap (sub_channel (w_subs v sub)) sub v) xs v) = w_responses v"
    for xs v by (induction xs arbitrary: v) (simp_all add: removeSubscriptionFromMap_def)
  have "answered (drainCmdCh mr w) r" using assms by (auto simp: drainCmdCh_def intro: respond_fold_answers)
  then show ?thesis
    by (simp add: loop_exit_def onEventLoopExit_def answered_def fr Let_def upd_meta_def split: prod.split)
qed

lemma run_answers:
  "runEventLoop rd ps mr evs w = Some (w', True) \<Longrightarrow>
   answered w r \<or> (\<exists>cmd \<in> set (m_cmdCh (w_metas w mr)). c_response cmd = Some r) \<Longrightarrow> answered w' r"
proof (induction evs arbitrary: w)
  case Nil
  then show ?case by simp
next
  case (Cons e evs)
  obtain pick now ev where e: "e = (pick, now, ev)" by (cases e)
  from Cons.prems(1) obtain v left where it: "loop_iteration rd pick now mr ev w = Some (v, left)"
    "left \<and> w' = loop_exit ps mr v \<or> \<not> left \<and> runEventLoop rd ps mr evs v = Some (w', True)"
    by (auto simp: e split: option.splits bool.splits)
  from iteration_answers [OF it(1) Cons.prems(2)] it(2) Cons.IH show ?case by (auto intro: exit_answers)
qed

lemma getAllSubscriptions_setState [simp]:
  "getAllSubscriptions (meta_setState st m) = getAllSubscriptions m"
  by (simp add: getAllSubscriptions_def meta_setState_def)

lemma fatal_effect:
  assumes "delivery_ok w" and "distinct (getAllSubscriptions (w_metas w mr))"
    and "w' = notifySubscriptionsOfFailure pick now mr err (upd_meta mr (meta_setState connStateFailed) w)"
  shows "m_state (w_metas w' mr) = connStateFailed
    \<and> (\<forall>r \<in> set (getAllSubscriptions (w_metas w mr)). sub_state (w_subs w' r) = subStateFailed
        \<and> (queue_full w r \<or> queued w' r = queued w r @
            [\<lparr>pc_msg = Some (failureSignal now err (sub_subType (w_subs w r))), pc_enqueuedAt = now\<rparr>]))"
proof -
  let ?m = "ConnectionFailed (m_nodeAddr (w_metas (upd_meta mr (meta_setState connStateFailed) w) mr)) ''connection_closed''"
  let ?v = "record_metric ?m (upd_meta mr (meta_setState connStateFailed) w)"
  have same: "delivery_ok ?v" "w_subs ?v = w_subs w" "\<And>r. queued ?v r = queued w r" "\<And>r. queue_full ?v r = queue_full w r"
    using assms(1) by (simp_all add: delivery_ok_def queued_def queue_full_def record_metric_def)
  have w': "w' = fold (notify_one pick now err) (getAllSubscriptions (w_metas w mr)) ?v"
    by (simp add: assms(3) notifySubscriptionsOfFailure_def Let_def)
  have n: "r \<in> set (getAllSubscriptions (w_metas w mr)) \<Longrightarrow> sub_state (w_subs w' r) = subStateFailed
      \<and> (queue_full w r \<or> queued w' r = queued w r @
          [\<lparr>pc_msg = Some (failureSignal now err (sub_subType (w_subs w r))), pc_enqueuedAt = now\<rparr>])" for r
    using notify_fold_effect [OF same(1) assms(2), of pick now err r] unfolding w' same(2-4) by simp
  have "w_metas w' mr = meta_setState connStateFailed (w_metas w mr)" by (simp add: w')
  with n show ?thesis by (auto simp: meta_setState_def)
qed

lemma delivery_cong:
  "w_workerPool v = w_workerPool w \<Longrightarrow> w_panicked v = w_panicked w \<Longrightarrow>
   (\<And>r. sub_sequencer (w_subs v r) = sub_sequencer (w_subs w r)) \<Longrightarrow>
   delivery_ok v = delivery_ok w \<and> queued v r = queued w r \<and> queue_full v r = queue_full w r"
  by (simp add: delivery_ok_def queued_def queue_full_def)

lemma unregister_fold:
  "(\<And>ch. distinct (slice_at (w_subscriptions w) ch)) \<Longrightarrow> map_ok (w_subscriptions w) \<Longrightarrow>
   let w' = fold (\<lambda>sub v. removeSubscriptionFromMap (sub_channel (w_subs v sub)) sub v) xs w
   in w_subs w' = w_subs w \<and> w_metas w' = w_metas w \<and> w_pool w' = w_pool w
      \<and> (\<forall>ch. distinct (slice_at (w_subscriptions w') ch))
      \<and> (\<forall>ch r. r \<in> set (slice_at (w_subscriptions w') ch) \<longleftrightarrow>
           r \<in> set (slice_at (w_subscriptions w) ch) \<and> \<not> (r \<in> set xs \<and> sub_channel (w_subs w r) = ch))"
proof (induction xs arbitrary: w)
  case Nil
  then show ?case by simp
next
  case (Cons x xs)
  let ?v = "removeSubscriptionFromMap (sub_channel (w_subs w x)) x w"
  have v: "w_subs ?v = w_subs w" "w_metas ?v = w_metas w" "w_pool ?v = w_pool w"
    "w_subscriptions ?v = remove_from_map (sub_channel (w_subs w x)) x (w_subscriptions w)"
    by (simp_all add: removeSubscriptionFromMap_def)
  have d: "distinct (slice_at (w_subscriptions ?v) ch)" for ch
    using smreg.distinct_del [OF Cons.prems(2) Cons.prems(1)] v(4) by simp
  have ok: "map_ok (w_subscriptions ?v)" using smreg.inv_del [OF Cons.prems(2)] v(4) by simp
  have mem: "r \<in> set (slice_at (w_subscriptions ?v) ch) \<longleftrightarrow>
      r \<in> set (slice_at (w_subscriptions w) ch) \<and> \<not> (r = x \<and> sub_channel (w_subs w r) = ch)" for r ch
    using Cons.prems(1) v(4) by (auto simp: remove_from_map_subs)
  from Cons.IH [OF d ok] v mem show ?case by (auto simp: Let_def)
qed

section \<open>Properties\<close>

text \<open>Dispatch delivers to the right subscriptions exactly once: a message is appended to the queue of
  every subscription registered under the lookup key that is neither closed nor failed (and whose bounded
  queue is not full), to no other queue, and without changing any subscription's state or panicking.\<close>

theorem dispatch_exact:
  assumes "delivery_ok w" and "distinct (getSubscriptions key (w_metas w mr))"
  shows "let w' = dispatchMessage pick now mr key msg w
    in delivery_ok w' \<and> (\<forall>r. sub_state (w_subs w' r) = sub_state (w_subs w r)
       \<and> queued w' r = queued w r @
           (if r \<in> set (getSubscriptions key (w_metas w mr)) \<and> sub_live w r \<and> \<not> queue_full w r
            then [\<lparr>pc_msg = Some msg, pc_enqueuedAt = now\<rparr>] else []))"
proof -
  let ?v = "record_metric (MessageReceived (String_subType (msg_SubscriptionType msg)) (m_nodeAddr (w_metas w mr))) w"
  have "sub_live ?v r = sub_live w r" for r by (simp add: sub_live_def)
  with dispatch_fold_effect [of ?v "getSubscriptions key (w_metas w mr)" pick now msg] assms show ?thesis
    by (simp add: dispatchMessage_def Let_def)
qed

text \<open>A concrete connection: subscription 4 is active on channel \<open>c\<close> and subscription 5 is pending on
  channel \<open>d\<close>, for which a command is queued.\<close>

definition meta1 :: pubSubMetadata where
  "meta1 = (newMetadata ''n:1'')\<lparr>m_subscriptions := [(''c'', [4]), (''d'', [5])], m_pendingSubscriptions := [(''d'', 5)],
     m_cmdCh := [\<lparr>c_ctx = None, c_cmd = cmdSubscribe, c_args = [''d''], c_sub = Some 5, c_response = Some 9\<rparr>]\<rparr>"

definition world1 :: world where
  "world1 = \<lparr>w_subs = (\<lambda>r. if r = 4 then setState subStateActive None (newSubscription ''c'' subTypeSubscribe (Some 2) 0 7 2)
       else newSubscription ''d'' subTypeSubscribe (Some 2) 0 8 2),
     w_metas = (\<lambda>_. meta1), w_responses = (\<lambda>_. []), w_next = 10,
     w_pool = \<lparr>pl_nodePubSubs = [(''n:1'', [2])], pl_hashslotPubSubs = [(7, [2])], pl_pubSubMetadata = [(2, 2)],
       pl_pendingConnections = []\<rparr>,
     w_subscriptions = [(''c'', [4]), (''d'', [5])], w_closed = False, w_lifecycleDone = False,
     w_config = defaultConfig, w_topology = newTopologyState, w_workerPool = None, w_goDrains = [], w_blocked = [],
     w_signals = [], w_wg = 0, w_metrics = [], w_refreshes = [], w_psCloses = [], w_panicked = False\<rparr>"

lemma world1_ok: "delivery_ok world1" "getSubscriptions ''c'' (w_metas world1 2) = [4]"
  "getAllSubscriptions (w_metas world1 2) = [4, 5]" "queued world1 4 = []" "\<not> queue_full world1 4" "sub_live world1 4"
  "\<not> queue_full world1 5" "queued world1 5 = []"
  by (simp add: world1_def delivery_ok_def pool_safe_def newSubscription_def seq_ok_newSequencer)
     (simp_all add: world1_def newSubscription_def meta1_def getSubscriptions_def slice_at_def getAllSubscriptions_def
      queued_def queue_full_def full_def newSequencer_def sub_live_def getState_def)

theorem dispatch_exact_witness:
  "queued (dispatchMessage 0 3 2 ''c'' msg0 world1) 4 = [\<lparr>pc_msg = Some msg0, pc_enqueuedAt = 3\<rparr>]
   \<and> queued (dispatchMessage 0 3 2 ''c'' msg0 world1) 5 = []"
  using dispatch_exact [OF world1_ok(1), of "''c''" 2 0 3 msg0] by (simp add: world1_ok Let_def)

text \<open>A confirmation activates exactly the pending subscription of its channel: it becomes active with a
  nil error and is no longer pending; other subscriptions, other channels and all registrations stay as
  they are. Other kinds of confirmations change nothing.\<close>

theorem confirmation_activates:
  "let w' = handleSubscriptionConfirmation mr kind channel w;
       subscribed = kind \<in> {redisKindSubscribe, redisKindPSubscribe, redisKindSSubscribe}
   in w_subs w' r = (if subscribed \<and> getPendingSubscription channel (w_metas w mr) = Some r
                     then setState subStateActive None (w_subs w r) else w_subs w r)
      \<and> getPendingSubscription ch (w_metas w' mr) =
          (if subscribed \<and> ch = channel then None else getPendingSubscription ch (w_metas w mr))
      \<and> m_subscriptions (w_metas w' mr) = m_subscriptions (w_metas w mr)"
  by (auto simp: handleSubscriptionConfirmation_def removePendingSubscription_def getPendingSubscription_def
      delete_conv' Let_def split: option.split)



text \<open>An error that comes from the caller's context does not cost the connection: the loop goes on, the
  connection keeps its state, and only the subscription of the command is failed.\<close>

theorem context_error_keeps_connection:
  assumes "known_command (c_cmd cmd)" and "errorsIs err ContextCanceled \<or> errorsIs err ContextDeadlineExceeded"
  shows "let (w', left) = handle_command rd pick now (Some err) mr cmd w
    in \<not> left \<and> m_state (w_metas w' mr) = m_state (w_metas w mr)
       \<and> m_subscriptions (w_metas w' mr) = m_subscriptions (w_metas w mr)
       \<and> (\<forall>r. c_sub cmd \<noteq> Some r \<longrightarrow> w_subs w' r = w_subs w r)"
  using assms
  by (auto simp: handle_command_def sendRedisCommand_def removePendingSubscription_def Let_def split: option.split)

theorem context_error_keeps_connection_witness:
  "\<not> snd (handle_command \<lparr>isMovedError = (\<lambda>_. None), isAskError = (\<lambda>_. None)\<rparr> 0 3
      (Some (Wrapf ''dial: '' ContextDeadlineExceeded)) 2 (m_cmdCh meta1 ! 0) world1)"
  using context_error_keeps_connection [of "m_cmdCh meta1 ! 0" "Wrapf ''dial: '' ContextDeadlineExceeded"
      "\<lparr>isMovedError = (\<lambda>_. None), isAskError = (\<lambda>_. None)\<rparr>" 0 3 2 world1]
  by (auto simp: meta1_def known_command_def split: prod.splits)



text \<open>A failed connection is cleaned up completely when its loop ends: it is closed (its \<open>done\<close> channel and
  its client once), removed from the pool, its command channel is empty, and without automatic
  resubscription none of its subscriptions stays in the global map, while all others do.\<close>

theorem failed_exit_cleans_up:
  assumes "m_state (w_metas w mr) = connStateFailed" and "m_doneCloses (w_metas w mr) = 0"
    and "pool_ok (w_metas w) (w_pool w)" and "getMetadata (Some ps) (w_pool w) = Some mr"
    and "map_ok (w_subscriptions w)" and "\<And>ch. distinct (slice_at (w_subscriptions w) ch)"
  shows "let w' = loop_exit ps mr w; m' = w_metas w' mr
    in m_state m' = connStateClosed \<and> m_doneCloses m' = 1 \<and> m_cmdCh m' = []
       \<and> m_loopDoneCloses m' = Suc (m_loopDoneCloses (w_metas w mr))
       \<and> getMetadata (Some ps) (w_pool w') = None
       \<and> (\<forall>ch r. r \<in> set (slice_at (w_subscriptions w') ch) \<longleftrightarrow> r \<in> set (slice_at (w_subscriptions w) ch) \<and>
            (cfg_autoResubscribe (w_config w) \<or>
             \<not> (r \<in> set (getAllSubscriptions (w_metas w mr)) \<and> sub_channel (w_subs w r) = ch)))"
proof -
  define v where "v = upd_meta mr (\<lambda>m. m\<lparr>m_loopDoneCloses := Suc (m_loopDoneCloses m)\<rparr>) (drainCmdCh mr w)"
  have fr: "w_metas (fold (\<lambda>cmd. respond cmd e) cs x) = w_metas x \<and> w_subs (fold (\<lambda>cmd. respond cmd e) cs x) = w_subs x
      \<and> w_pool (fold (\<lambda>cmd. respond cmd e) cs x) = w_pool x \<and> w_config (fold (\<lambda>cmd. respond cmd e) cs x) = w_config x
      \<and> w_subscriptions (fold (\<lambda>cmd. respond cmd e) cs x) = w_subscriptions x" for cs x e
    by (induction cs arbitrary: x) simp_all
  have v: "w_subs v = w_subs w" "w_pool v = w_pool w" "w_subscriptions v = w_subscriptions w" "w_config v = w_config w"
    "w_metas v = (w_metas w)(mr := (w_metas w mr)\<lparr>m_cmdCh := [], m_loopDoneCloses := Suc (m_loopDoneCloses (w_metas w mr))\<rparr>)"
    by (simp_all add: v_def drainCmdCh_def fr)
  define m1 where "m1 = close_client (fst (close_locked (w_metas v mr)))"
  have m1: "m_state m1 = connStateClosed" "m_doneCloses m1 = 1" "m_cmdCh m1 = []" "m_nodeAddr m1 = m_nodeAddr (w_metas w mr)"
    "m_loopDoneCloses m1 = Suc (m_loopDoneCloses (w_metas w mr))" "m_subscriptions m1 = m_subscriptions (w_metas w mr)"
    using assms(1,2) by (simp_all add: m1_def v close_client_def close_locked_def)
  define u where "u = v\<lparr>w_metas := (w_metas v)(mr := m1), w_psCloses := w_psCloses v @ [ps],
    w_pool := removePubSub ((w_metas v)(mr := m1)) ps (w_pool w)\<rparr>"
  have gone: "getMetadata (Some ps) (w_pool u) = None"
  proof -
    have "pool_ok ((w_metas v)(mr := m1)) (w_pool w)" using assms(3) m1(4) by (auto simp: pool_ok_def v(5))
    from removePubSub_lookup(3) [OF this] assms(4) show ?thesis by (simp add: u_def getMetadata_def)
  qed
  have ex: "loop_exit ps mr w = (if \<not> cfg_autoResubscribe (w_config w)
      then fold (\<lambda>sub v. removeSubscriptionFromMap (sub_channel (w_subs v sub)) sub v) (getAllSubscriptions m1) u else u)"
  proof -
    have "loop_exit ps mr w = onEventLoopExit ps mr v" by (simp add: loop_exit_def v_def)
    moreover have st: "m_state (w_metas v mr) = connStateFailed" using assms(1) by (simp add: v(5))
    ultimately show ?thesis
      by (simp add: onEventLoopExit_def meta_getState_def u_def m1_def close_locked_def upd_meta_def Let_def v(2,4))
  qed
  have us: "w_subs u = w_subs w" "w_subscriptions u = w_subscriptions w" "w_metas u mr = m1"
    by (simp_all add: u_def v)
  have all: "getAllSubscriptions m1 = getAllSubscriptions (w_metas w mr)" by (simp add: getAllSubscriptions_def m1)
  note un = unregister_fold [of u "getAllSubscriptions m1", unfolded us(2), OF assms(6,5)]
  show ?thesis using un gone us m1 unfolding ex by (simp add: Let_def all)
qed

theorem failed_exit_cleans_up_witness:
  "slice_at (w_subscriptions (loop_exit 2 2 (upd_meta 2 (meta_setState connStateFailed) world1))) ''c'' = []"
proof -
  let ?w = "upd_meta 2 (meta_setState connStateFailed) world1"
  have "m_state (w_metas ?w 2) = connStateFailed" "m_doneCloses (w_metas ?w 2) = 0" "map_ok (w_subscriptions ?w)"
    "getMetadata (Some 2) (w_pool ?w) = Some 2" "\<And>ch. distinct (slice_at (w_subscriptions ?w) ch)"
    "pool_ok (w_metas ?w) (w_pool ?w)"
    by (simp_all add: meta_setState_def world1_def meta1_def newMetadata_def map_ok_def wf_gomap_def no_empty_def
        getMetadata_def slice_at_def pool_ok_def conns_def)
  note r = failed_exit_cleans_up [OF this(1,2,6,4,3,5)]
  have "r \<notin> set (slice_at (w_subscriptions (loop_exit 2 2 ?w)) ''c'')" for r
    using r by (auto simp: Let_def) (auto simp: world1_def slice_at_def meta_setState_def meta1_def getAllSubscriptions_def
        newSubscription_def defaultConfig_def setState_def offer_def)
  then show ?thesis by (metis list.set_intros(1) neq_Nil_conv)
qed

lemma unregister_metas [simp]:
  "w_metas (fold (\<lambda>sub v. removeSubscriptionFromMap (sub_channel (w_subs v sub)) sub v) xs w) = w_metas w"
  by (induction xs arbitrary: w) (simp_all add: removeSubscriptionFromMap_def)

lemma drainCmdCh_metas [simp]: "w_metas (drainCmdCh mr w) = (w_metas w)(mr := (w_metas w mr)\<lparr>m_cmdCh := []\<rparr>)"
proof -
  have "w_metas (fold (\<lambda>cmd. respond cmd e) cmds w) = w_metas w" for e cmds by (induction cmds arbitrary: w) simp_all
  then show ?thesis by (simp add: drainCmdCh_def)
qed

text \<open>C40. A failure that overtakes a shutdown closes \<open>done\<close> twice, which panics. While the connection is being closed
  (its state is closed and \<open>done\<close> is closed, the closing goroutine waits for the loop) the loop may still take
  a queued command; if that fails with a connection error, the state becomes failed again, so the cleanup at
  the end of the loop does not see that the connection is closed and closes \<open>done\<close> once more.\<close>

theorem failure_during_close_panics:
  assumes "m_state (w_metas w mr) \<noteq> connStateClosed" and "m_doneCloses (w_metas w mr) = 0"
    and "m_cmdCh (w_metas w mr) = cmd # rest" and "known_command (c_cmd cmd)"
    and "\<not> errorsIs err ContextCanceled" and "\<not> errorsIs err ContextDeadlineExceeded"
  shows "\<exists>w'. loop_iteration rd pick now mr (CmdReady (Some err)) (upd_meta mr (\<lambda>m. fst (close_locked m)) w) = Some (w', True)
    \<and> m_doneCloses (w_metas (loop_exit ps mr w') mr) = 2"
proof -
  let ?w1 = "upd_meta mr (\<lambda>m. fst (close_locked m)) w"
  let ?v = "upd_meta mr (\<lambda>m. m\<lparr>m_cmdCh := rest\<rparr>) ?w1"
  obtain u where u: "handle_command rd pick now (Some err) mr cmd ?v = (u, True)"
    using assms(4-6) by (simp add: handle_command_def sendRedisCommand_def Let_def)
  have "m_doneCloses (w_metas u mr) = 1 \<and> m_state (w_metas u mr) = connStateFailed"
    using u assms(1,2,4-6)
    by (auto simp: handle_command_def sendRedisCommand_def Let_def close_locked_def meta_setState_def
        removePendingSubscription_def split: option.splits if_splits)
  then have "m_doneCloses (w_metas (loop_exit ps mr u) mr) = 2"
    by (simp add: loop_exit_def onEventLoopExit_def meta_getState_def close_locked_def close_client_def Let_def)
  then show ?thesis using u assms(1,3) by (auto simp: loop_iteration_def close_locked_def)
qed

definition queued_cmd :: command where
  "queued_cmd = \<lparr>c_ctx = None, c_cmd = cmdUnsubscribe, c_args = [''c''], c_sub = Some 4, c_response = Some 9\<rparr>"

definition closing_world :: world where
  "closing_world = upd_meta 2 (\<lambda>m. m\<lparr>m_cmdCh := [queued_cmd]\<rparr>) world1"

theorem failure_during_close_panics_witness:
  "\<exists>w'. loop_iteration \<lparr>isMovedError = (\<lambda>_. None), isAskError = (\<lambda>_. None)\<rparr> 0 1 2 (CmdReady (Some (RedisError ''EOF'')))
       (upd_meta 2 (\<lambda>m. fst (close_locked m)) closing_world) = Some (w', True)
     \<and> m_doneCloses (w_metas (loop_exit 2 2 w') 2) = 2"
proof (rule failure_during_close_panics [where cmd = queued_cmd and rest = "[]"])
  show "known_command (c_cmd queued_cmd)" by (simp add: queued_cmd_def known_command_def)
qed (simp_all add: closing_world_def world1_def meta1_def newMetadata_def)

end
