(* ===== verification/Hashslot.thy ===== *)
theory Hashslot
  imports Go_Types
begin

text \<open>
  \<open>hashslot.go\<close>: the hashslot of a channel name. A Go string is a byte sequence and so is a
  HOL \<^typ>\<open>string\<close>. The table-driven CRC16 of the source is shown equal to the bit-by-bit CRC16
  of the Redis Cluster specification, and the hashtag rule is characterised declaratively.
\<close>

unbundle bit_operations_syntax

section \<open>The source's functions\<close>

definition crc16tab :: "16 word list" where
  "crc16tab = [
    0x0000, 0x1021, 0x2042, 0x3063, 0x4084, 0x50a5, 0x60c6, 0x70e7,
    0x8108, 0x9129, 0xa14a, 0xb16b, 0xc18c, 0xd1ad, 0xe1ce, 0xf1ef,
    0x1231, 0x0210, 0x3273, 0x2252, 0x52b5, 0x4294, 0x72f7, 0x62d6,
    0x9339, 0x8318, 0xb37b, 0xa35a, 0xd3bd, 0xc39c, 0xf3ff, 0xe3de,
    0x2462, 0x3443, 0x0420, 0x1401, 0x64e6, 0x74c7, 0x44a4, 0x5485,
    0xa56a, 0xb54b, 0x8528, 0x9509, 0xe5ee, 0xf5cf, 0xc5ac, 0xd58d,
    0x3653, 0x2672, 0x1611, 0x0630, 0x76d7, 0x66f6, 0x5695, 0x46b4,
    0xb75b, 0xa77a, 0x9719, 0x8738, 0xf7df, 0xe7fe, 0xd79d, 0xc7bc,
    0x48c4, 0x58e5, 0x6886, 0x78a7, 0x0840, 0x1861, 0x2802, 0x3823,
    0xc9cc, 0xd9ed, 0xe98e, 0xf9af, 0x8948, 0x9969, 0xa90a, 0xb92b,
    0x5af5, 0x4ad4, 0x7ab7, 0x6a96, 0x1a71, 0x0a50, 0x3a33, 0x2a12,
    0xdbfd, 0xcbdc, 0xfbbf, 0xeb9e, 0x9b79, 0x8b58, 0xbb3b, 0xab1a,
    0x6ca6, 0x7c87, 0x4ce4, 0x5cc5, 0x2c22, 0x3c03, 0x0c60, 0x1c41,
    0xedae, 0xfd8f, 0xcdec, 0xddcd, 0xad2a, 0xbd0b, 0x8d68, 0x9d49,
    0x7e97, 0x6eb6, 0x5ed5, 0x4ef4, 0x3e13, 0x2e32, 0x1e51, 0x0e70,
    0xff9f, 0xefbe, 0xdfdd, 0xcffc, 0xbf1b, 0xaf3a, 0x9f59, 0x8f78,
    0x9188, 0x81a9, 0xb1ca, 0xa1eb, 0xd10c, 0xc12d, 0xf14e, 0xe16f,
    0x1080, 0x00a1, 0x30c2, 0x20e3, 0x5004, 0x4025, 0x7046, 0x6067,
    0x83b9, 0x9398, 0xa3fb, 0xb3da, 0xc33d, 0xd31c, 0xe37f, 0xf35e,
    0x02b1, 0x1290, 0x22f3, 0x32d2, 0x4235, 0x5214, 0x6277, 0x7256,
    0xb5ea, 0xa5cb, 0x95a8, 0x8589, 0xf56e, 0xe54f, 0xd52c, 0xc50d,
    0x34e2, 0x24c3, 0x14a0, 0x0481, 0x7466, 0x6447, 0x5424, 0x4405,
    0xa7db, 0xb7fa, 0x8799, 0x97b8, 0xe75f, 0xf77e, 0xc71d, 0xd73c,
    0x26d3, 0x36f2, 0x0691, 0x16b0, 0x6657, 0x7676, 0x4615, 0x5634,
    0xd94c, 0xc96d, 0xf90e, 0xe92f, 0x99c8, 0x89e9, 0xb98a, 0xa9ab,
    0x5844, 0x4865, 0x7806, 0x6827, 0x18c0, 0x08e1, 0x3882, 0x28a3,
    0xcb7d, 0xdb5c, 0xeb3f, 0xfb1e, 0x8bf9, 0x9bd8, 0xabbb, 0xbb9a,
    0x4a75, 0x5a54, 0x6a37, 0x7a16, 0x0af1, 0x1ad0, 0x2ab3, 0x3a92,
    0xfd2e, 0xed0f, 0xdd6c, 0xcd4d, 0xbdaa, 0xad8b, 0x9de8, 0x8dc9,
    0x7c26, 0x6c07, 0x5c64, 0x4c45, 0x3ca2, 0x2c83, 0x1ce0, 0x0cc1,
    0xef1f, 0xff3e, 0xcf5d, 0xdf7c, 0xaf9b, 0xbfba, 0x8fd9, 0x9ff8,
    0x6e17, 0x7e36, 0x4e55, 0x5e74, 0x2e93, 0x3eb2, 0x0ed1, 0x1ef0]"

text \<open>One iteration of the loop: \<open>crc = (crc << 8) ^ crc16tab[(byte(crc>>8)^key[i])&0x00ff]\<close>.\<close>

definition crc16step :: "16 word \<Rightarrow> 8 word \<Rightarrow> 16 word" where
  "crc16step crc b =
     push_bit 8 crc XOR crc16tab ! unat ((ucast (drop_bit 8 crc) XOR b) AND 0x00ff)"

definition crc16sum :: "string \<Rightarrow> 16 word" where
  "crc16sum key = foldl (\<lambda>crc c. crc16step crc (of_char c)) 0 key"

text \<open>\<open>strings.IndexByte\<close>, with \<open>None\<close> for -1.\<close>

fun indexByte :: "string \<Rightarrow> char \<Rightarrow> nat option" where
  "indexByte [] c = None"
| "indexByte (x # xs) c = (if x = c then Some 0 else map_option Suc (indexByte xs c))"

definition extractHashtag :: "string \<Rightarrow> string" where
  "extractHashtag key =
     (case indexByte key (CHR ''{'') of
        None \<Rightarrow> key
      | Some s \<Rightarrow>
          (case indexByte (drop (s + 1) key) (CHR ''}'') of
             None \<Rightarrow> key
           | Some e \<Rightarrow> if e > 0 then take e (drop (s + 1) key) else key))"

text \<open>
  \<open>rand.Intn(16384)\<close> is the generator's next value reduced to the range; \<open>rnd\<close> is that value
  before the reduction.
\<close>

definition randomSlot :: "nat \<Rightarrow> int" where
  "randomSlot rnd = int (rnd mod 16384)"

definition Hashslot :: "nat \<Rightarrow> string \<Rightarrow> int" where
  "Hashslot rnd channel =
     (if channel = [] then randomSlot rnd
      else uint (crc16sum (extractHashtag channel)) mod 16384)"

section \<open>The reference: CRC16 bit by bit\<close>

text \<open>
  Appendix A of the Redis Cluster specification: polynomial \<open>0x1021\<close>, initial value 0, no
  reflection, no final XOR. A byte is added to the high half and eight bits are shifted out.
\<close>

definition crc_bit :: "16 word \<Rightarrow> 16 word" where
  "crc_bit x = push_bit 1 x XOR (if bit x 15 then 0x1021 else 0)"

definition crc_byte :: "16 word \<Rightarrow> 16 word" where
  "crc_byte x = (crc_bit ^^ 8) x"

definition crc16_spec :: "string \<Rightarrow> 16 word" where
  "crc16_spec key = foldl (\<lambda>crc c. crc_byte (crc XOR push_bit 8 (ucast (of_char c :: 8 word)))) 0 key"

section \<open>Hashtags, declaratively, and the span of a basis\<close>

text \<open>The declarative reading of \<open>{tag}\<close>: the text between the first \<open>{\<close> and the next \<open>}\<close>.\<close>

definition has_tag :: "string \<Rightarrow> string \<Rightarrow> bool" where
  "has_tag key t \<longleftrightarrow> (\<exists>pre post. key = pre @ CHR ''{'' # t @ CHR ''}'' # post
     \<and> CHR ''{'' \<notin> set pre \<and> CHR ''}'' \<notin> set t \<and> t \<noteq> [])"

fun xor_span :: "16 word list \<Rightarrow> 16 word list" where
  "xor_span [] = [0]"
| "xor_span (b # bs) = xor_span bs @ map ((XOR) b) (xor_span bs)"

section \<open>Lemmas\<close>

subsection \<open>The table is the span of its eight basis entries\<close>

lemma length_crc16tab: "length crc16tab = 256"
  by (simp add: crc16tab_def)

lemma crc_bit_xor: "crc_bit (x XOR y) = crc_bit x XOR crc_bit y"
  by (simp add: crc_bit_def push_bit_xor bit_xor_iff xor.left_commute xor.assoc)

lemma crc_bit_funpow_xor: "(crc_bit ^^ n) (x XOR y) = (crc_bit ^^ n) x XOR (crc_bit ^^ n) y"
  by (induction n) (simp_all add: crc_bit_xor)

lemma crc_byte_xor: "crc_byte (x XOR y) = crc_byte x XOR crc_byte y"
  by (simp add: crc_byte_def crc_bit_funpow_xor)


lemma crc_byte_unfold: "crc_byte x = crc_bit (crc_bit (crc_bit (crc_bit (crc_bit (crc_bit (crc_bit (crc_bit x)))))))"
  by (simp add: crc_byte_def eval_nat_numeral)


lemma xor_span_crc:
  "map (\<lambda>x. crc_byte (push_bit 8 x)) (xor_span bs) = xor_span (map (\<lambda>x. crc_byte (push_bit 8 x)) bs)"
proof (induction bs)
  case Nil
  show ?case by (simp add: crc_byte_unfold crc_bit_def)
next
  case (Cons b bs)
  show ?case by (simp add: Cons [symmetric] push_bit_xor crc_byte_xor)
qed

lemma basis_crc: "map (\<lambda>x. crc_byte (push_bit 8 x)) [0x80, 0x40, 0x20, 0x10, 8, 4, 2, 1] = [0x9188, 0x48c4, 0x2462, 0x1231, 0x8108, 0x4084, 0x2042, 0x1021]"
  by (simp add: crc_byte_unfold crc_bit_def)

lemma tab_span: "crc16tab = xor_span [0x9188, 0x48c4, 0x2462, 0x1231, 0x8108, 0x4084, 0x2042, 0x1021]"
  by (simp add: crc16tab_def)

lemma nat_span: "xor_span [0x80, 0x40, 0x20, 0x10, 8, 4, 2, 1] = map of_nat [0..<256]"
  by (simp add: upt_rec)


lemma crc16tab_nth:
  assumes "i < 256"
  shows "crc16tab ! i = crc_byte (push_bit 8 (of_nat i))"
proof -
  have "crc16tab = xor_span (map (\<lambda>x. crc_byte (push_bit 8 x)) [0x80, 0x40, 0x20, 0x10, 8, 4, 2, 1])"
    by (simp only: basis_crc tab_span)
  also have "\<dots> = map (\<lambda>x. crc_byte (push_bit 8 x)) (map of_nat [0..<256])"
    by (simp only: xor_span_crc [symmetric] nat_span)
  finally have "crc16tab ! i = map (\<lambda>x. crc_byte (push_bit 8 x)) (map of_nat [0..<256]) ! i"
    by (rule arg_cong)
  with assms show ?thesis by simp
qed

lemma crc_bit_low: "n \<le> 8 \<Longrightarrow> (crc_bit ^^ n) (take_bit 8 x) = push_bit n (take_bit 8 x)"
proof (induction n)
  case 0
  show ?case by simp
next
  case (Suc n)
  then have "\<not> bit (push_bit n (take_bit 8 x)) 15"
    by (auto simp: bit_push_bit_iff bit_take_bit_iff)
  then have "crc_bit (push_bit n (take_bit 8 x)) = push_bit (Suc n) (take_bit 8 x)"
    by (simp only: crc_bit_def push_bit_push_bit if_False xor.right_neutral plus_1_eq_Suc)
  with Suc show ?case by simp
qed

lemma crc_byte_low: "crc_byte (take_bit 8 x) = push_bit 8 x"
proof -
  have "crc_byte (take_bit 8 x) = push_bit 8 (take_bit 8 x)"
    by (simp add: crc_byte_def crc_bit_low)
  also have "\<dots> = push_bit 8 x"
    by (rule bit_word_eqI) (auto simp: bit_push_bit_iff bit_take_bit_iff)
  finally show ?thesis .
qed

lemma split_crc: "x = push_bit 8 (ucast (ucast (drop_bit 8 x) :: 8 word)) XOR take_bit 8 (x :: 16 word)"
  by (rule bit_word_eqI) (auto simp: bit_xor_iff bit_push_bit_iff bit_take_bit_iff bit_ucast_iff bit_drop_bit_eq)

lemma crc16step_spec: "crc16step crc b = crc_byte (crc XOR push_bit 8 (ucast b))"
proof -
  define h :: "8 word" where "h = ucast (drop_bit 8 crc)"
  have i: "unat ((h XOR b) AND 0x00ff) = unat (h XOR b)"
  proof -
    have "(0x00ff :: 8 word) = - 1" by simp
    then have "(h XOR b) AND 0x00ff = h XOR b" by (simp only: and.right_neutral)
    then show ?thesis by simp
  qed
  have "crc XOR push_bit 8 (ucast b) = push_bit 8 (ucast (h XOR b)) XOR take_bit 8 crc"
    by (subst split_crc [of crc])
      (simp add: h_def push_bit_xor unsigned_xor_eq xor.assoc xor.left_commute xor.commute)
  then have "crc_byte (crc XOR push_bit 8 (ucast b)) = crc_byte (push_bit 8 (ucast (h XOR b))) XOR push_bit 8 crc"
    by (simp add: crc_byte_xor crc_byte_low)
  moreover have "crc16tab ! unat (h XOR b) = crc_byte (push_bit 8 (ucast (h XOR b)))"
    using crc16tab_nth [of "unat (h XOR b)"] unsigned_less [of "h XOR b"] by simp
  ultimately show ?thesis
    unfolding crc16step_def h_def [symmetric] i by (simp add: xor.commute)
qed

lemma crc16_foldl:
  "foldl (\<lambda>crc c. crc16step crc (of_char c)) a key =
   foldl (\<lambda>crc c. crc_byte (crc XOR push_bit 8 (ucast (of_char c :: 8 word)))) a key"
  by (simp add: crc16step_spec)

subsection \<open>Hashtags\<close>

lemma indexByte_None: "indexByte xs c = None \<longleftrightarrow> c \<notin> set xs"
  by (induction xs) auto

lemma indexByte_append: "c \<notin> set pre \<Longrightarrow> indexByte (pre @ c # post) c = Some (length pre)"
  by (induction pre) auto

lemma indexByte_SomeD:
  "indexByte xs c = Some n \<Longrightarrow> \<exists>pre post. xs = pre @ c # post \<and> c \<notin> set pre \<and> n = length pre"
proof (induction xs arbitrary: n)
  case Nil
  then show ?case by simp
next
  case (Cons x xs)
  show ?case
  proof (cases "x = c")
    case True
    then show ?thesis using Cons.prems by (intro exI [of _ "[]"] exI [of _ xs]) simp
  next
    case False
    then obtain m where "indexByte xs c = Some m" and "n = Suc m" using Cons.prems by auto
    then obtain pre post where "xs = pre @ c # post" "c \<notin> set pre" "m = length pre"
      using Cons.IH by blast
    then show ?thesis using False \<open>n = Suc m\<close> by (intro exI [of _ "x # pre"] exI [of _ post]) simp
  qed
qed

lemma extractHashtag_tagged:
  "CHR ''{'' \<notin> set pre \<Longrightarrow> CHR ''}'' \<notin> set t \<Longrightarrow> t \<noteq> [] \<Longrightarrow>
   extractHashtag (pre @ CHR ''{'' # t @ CHR ''}'' # post) = t"
proof -
  assume a: "CHR ''{'' \<notin> set pre" "CHR ''}'' \<notin> set t" "t \<noteq> []"
  have "indexByte (pre @ CHR ''{'' # t @ CHR ''}'' # post) (CHR ''{'') = Some (length pre)"
    using a(1) by (rule indexByte_append)
  moreover have "indexByte (t @ CHR ''}'' # post) (CHR ''}'') = Some (length t)"
    using a(2) by (rule indexByte_append)
  ultimately show ?thesis using a(3) by (simp add: extractHashtag_def)
qed

lemma extractHashtag_has_tag: "has_tag key t \<Longrightarrow> extractHashtag key = t"
  by (auto simp: has_tag_def extractHashtag_tagged)

lemma extractHashtag_cases: "extractHashtag key = key \<or> has_tag key (extractHashtag key)"
proof (cases "indexByte key (CHR ''{'')")
  case None
  then show ?thesis by (simp add: extractHashtag_def)
next
  case (Some s)
  then obtain pre rest where key: "key = pre @ CHR ''{'' # rest" "CHR ''{'' \<notin> set pre" "s = length pre"
    using indexByte_SomeD by blast
  show ?thesis
  proof (cases "indexByte rest (CHR ''}'')")
    case None
    with Some key show ?thesis by (simp add: extractHashtag_def)
  next
    case e: (Some e)
    then obtain t post where rest: "rest = t @ CHR ''}'' # post" "CHR ''}'' \<notin> set t" "e = length t"
      using indexByte_SomeD by blast
    have "extractHashtag key = (if t = [] then key else t)"
      using Some e key rest by (simp add: extractHashtag_def)
    then show ?thesis using key rest by (auto simp: has_tag_def)
  qed
qed

section \<open>Properties\<close>

text \<open>C34. The table-driven \<open>crc16sum\<close> computes the CRC16 of the Redis Cluster specification,
  bit by bit with polynomial \<open>0x1021\<close>, on every byte string.\<close>

theorem crc16sum_correct: "crc16sum key = crc16_spec key"
  by (simp only: crc16sum_def crc16_spec_def crc16_foldl)

text \<open>Every hashslot, including the random one of the empty channel, is in \<open>[0, 16383]\<close>.\<close>

theorem hashslot_range: "0 \<le> Hashslot rnd channel \<and> Hashslot rnd channel < 16384"
  by (simp add: Hashslot_def randomSlot_def)

text \<open>\<open>extractHashtag\<close> returns the tag when the key has one (a non-empty text between the first
  opening brace and the next closing brace) and the whole key otherwise.\<close>

theorem extractHashtag_spec:
  "(has_tag key t \<longrightarrow> extractHashtag key = t) \<and>
   ((\<nexists>t'. has_tag key t') \<longrightarrow> extractHashtag key = key)"
  using extractHashtag_has_tag extractHashtag_cases by blast

lemma has_tag_example: "has_tag ''user{1000}.inbox'' ''1000''"
  unfolding has_tag_def by (intro exI [of _ "''user''"] exI [of _ "''.inbox''"]) simp

theorem extractHashtag_spec_witness:
  "extractHashtag ''user{1000}.inbox'' = ''1000'' \<and> extractHashtag ''plain{}'' = ''plain{}''"
proof
  show "extractHashtag ''user{1000}.inbox'' = ''1000''"
    using extractHashtag_spec [of "''user{1000}.inbox''" "''1000''"] has_tag_example by simp
  show "extractHashtag ''plain{}'' = ''plain{}''" by (simp add: extractHashtag_def)
qed

text \<open>Channels that carry the same hashtag are in the same hashslot, the one of the tag,
  whatever surrounds it.\<close>

theorem hashtag_colocates:
  assumes "has_tag c1 t" and "has_tag c2 t"
  shows "Hashslot r1 c1 = Hashslot r2 c2 \<and> Hashslot r1 c1 = uint (crc16_spec t) mod 16384"
proof -
  from assms have "c1 \<noteq> []" "c2 \<noteq> []" by (auto simp: has_tag_def)
  with assms show ?thesis
    by (simp add: Hashslot_def extractHashtag_has_tag crc16sum_def crc16_spec_def crc16_foldl)
qed

theorem hashtag_colocates_witness:
  "Hashslot 0 ''user{1000}.inbox'' = Hashslot 7 ''{1000}''"
proof -
  have "has_tag ''{1000}'' ''1000''"
    unfolding has_tag_def by (intro exI [of _ "[]"] exI [of _ "[]"]) simp
  with has_tag_example show ?thesis using hashtag_colocates by blast
qed

text \<open>The check value of the CRC: the nine digits give \<open>0x31C3\<close>.\<close>

lemma crc16_check_value: "crc16sum ''123456789'' = 0x31C3"
  by (simp add: crc16sum_def crc16step_def crc16tab_def)

end
