(* ===== verification/Submux_Core.thy ===== *)
theory Submux_Core
  imports Event_Loop Hashslot
begin

text \<open>
  \<open>submux.go\<close>: subscribing, unsubscribing and closing, and the creation of connections they rely on
  (\<open>pool.go\<close>, \<open>getPubSubForHashslot\<close> to \<open>createPubSubToNode\<close>). A call that waits is split at the wait: the
  first part returns what it waits for, the continuation takes the result, and the other goroutines act
  on the state in between. The Redis cluster client's answers and the refresh that
  \<open>getNodeForHashslot\<close> forces are arguments.
\<close>

section \<open>Connections\<close>

datatype connect_result = Connected ps_ref | ConnectError goerror | AwaitConnection pend_ref

text \<open>The monitor is set from the construction of the SubMux on, so the creation itself does not fail; its
  event loop starts with the new metadata.\<close>

definition createPubSubToNode :: "string \<Rightarrow> world \<Rightarrow> world \<times> ps_ref" where
  "createPubSubToNode nodeAddr w =
     (let ps = w_next w;
          w1 = w\<lparr>w_next := Suc ps, w_metas := (w_metas w)(ps := newMetadata nodeAddr),
                 w_pool := (w_pool w)\<lparr>pl_pubSubMetadata := AList.update ps ps (pl_pubSubMetadata (w_pool w))\<rparr>\<rparr>
      in (record_metric (ConnectionCreated nodeAddr) w1, ps))"

text \<open>\<open>selectLeastLoadedAcrossNodes\<close> without interference; the pending result gets a fresh reference.\<close>

definition selectLeastLoadedAcrossNodes :: "int \<Rightarrow> string list \<Rightarrow> world \<Rightarrow> world \<times> connect_result" where
  "selectLeastLoadedAcrossNodes hashslot nodes w =
     (let (p, d) = select_locked (w_metas w) (w_next w) hashslot nodes (w_pool w);
          w1 = w\<lparr>w_pool := p\<rparr>
      in case d of
           Reuse best \<Rightarrow> (w1, Connected best)
         | NoValidNode \<Rightarrow> (w1, ConnectError (Errorf (''no valid nodes found for hashslot '' @ showInt hashslot)))
         | AwaitPending pr \<Rightarrow> (w1, AwaitConnection pr)
         | CreateAt node \<Rightarrow>
             (let (w2, ps) = createPubSubToNode node (w1\<lparr>w_next := Suc (w_next w1)\<rparr>)
              in (w2\<lparr>w_pool := create_finished hashslot node (Inr ps) (w_pool w2)\<rparr>, Connected ps)))"

text \<open>The lookups of the topology monitor in its current state, which is never nil.\<close>

definition tm_getNodeForHashslot :: "nat \<Rightarrow> int \<Rightarrow> world \<Rightarrow> string option" where
  "tm_getNodeForHashslot rnd hashslot w =
     selectNodeForHashslot rnd hashslot (cfg_nodePreference (w_config w)) (w_topology w)"

definition tm_getNodesForHashslot :: "int \<Rightarrow> world \<Rightarrow> string list option" where
  "tm_getNodesForHashslot hashslot w = ts_getNodesForHashslot hashslot (w_topology w)"

definition tm_getAnySlotForNode :: "string \<Rightarrow> world \<Rightarrow> int option" where
  "tm_getAnySlotForNode nodeAddr w = ts_getAnySlotForNode nodeAddr (w_topology w)"

definition createPubSubForHashslot ::
  "(world \<Rightarrow> world) \<Rightarrow> goerror + ClusterSlot list \<Rightarrow> nat \<Rightarrow> int \<Rightarrow> world \<Rightarrow> world \<times> connect_result" where
  "createPubSubForHashslot refresh slots rnd hashslot w =
     (let nodes = (if cfg_nodePreference (w_config w) = BalancedAll then tm_getNodesForHashslot hashslot w else None)
      in if nodes \<noteq> None \<and> nodes \<noteq> Some [] then selectLeastLoadedAcrossNodes hashslot (the nodes) w
         else (let first = tm_getNodeForHashslot rnd hashslot w;
                   w1 = (if first = None then refresh w else w);
                   again = tm_getNodeForHashslot rnd hashslot w1
               in case pool_getNodeForHashslot (Some (first, again)) slots hashslot of
                    Inl err \<Rightarrow> (w1, ConnectError (Wrapf (''failed to get node for hashslot '' @ showInt hashslot @ '': '') err))
                  | Inr nodeAddr \<Rightarrow>
                      (case reuse_on_node (w_metas w1) hashslot nodeAddr (w_pool w1) of
                         Some (p, best) \<Rightarrow> (w1\<lparr>w_pool := p\<rparr>, Connected best)
                       | None \<Rightarrow>
                           (let (w2, ps) = createPubSubToNode nodeAddr w1
                            in (w2\<lparr>w_pool := register_on_node hashslot nodeAddr ps (w_pool w2)\<rparr>, Connected ps)))))"

definition getPubSubForHashslot ::
  "(world \<Rightarrow> world) \<Rightarrow> goerror + ClusterSlot list \<Rightarrow> nat \<Rightarrow> int \<Rightarrow> world \<Rightarrow> world \<times> connect_result" where
  "getPubSubForHashslot refresh slots rnd hashslot w =
     (case getPubSub_cached (w_pool w) (w_metas w) hashslot of
        Some ps \<Rightarrow> (w, Connected ps)
      | None \<Rightarrow> createPubSubForHashslot refresh slots rnd hashslot w)"

section \<open>Subscribing to a channel\<close>

text \<open>Where \<open>subscribeToChannel\<close> is: returned (an error or the subscription), waiting for its own
  confirmation, for another subscription's (on a broadcast channel), or blocked in \<open>sendCommand\<close>.\<close>

datatype sub_progress =
    SubFails goerror
  | SubSucceeds sub_ref
  | WaitConfirm sub_ref meta_ref
  | WaitOther sub_ref meta_ref sub_ref nat
  | SendBlocks sub_ref meta_ref command

definition sub_cleanup :: "sub_ref \<Rightarrow> meta_ref \<Rightarrow> world \<Rightarrow> world" where
  "sub_cleanup sub mr w =
     (let s = w_subs w sub;
          w1 = record_metric (SubscriptionAttempt (String_subType (sub_subType s)) False) w;
          w2 = removeSubscriptionFromMap (sub_channel s) sub w1
      in upd_meta mr (removeSubscription (sub_channel s) sub) w2)"

definition sub_success :: "sub_ref \<Rightarrow> world \<Rightarrow> world" where
  "sub_success sub w = record_metric (SubscriptionAttempt (String_subType (sub_subType (w_subs w sub))) True) w"

text \<open>After \<open>waitForConfirmation\<close> returned.\<close>

definition finish_confirm :: "sub_ref \<Rightarrow> meta_ref \<Rightarrow> goerror option \<Rightarrow> world \<Rightarrow> world \<times> sub_progress" where
  "finish_confirm sub mr result w = (case result of
       Some err \<Rightarrow> (sub_cleanup sub mr w, SubFails (Wrapf ''subscription confirmation failed: '' err))
     | None \<Rightarrow>
         if getState (w_subs w sub) = subStateFailed then (sub_cleanup sub mr w, SubFails ErrSubscriptionFailed)
         else (sub_success sub w, SubSucceeds sub))"

text \<open>After \<open>waitForActive\<close> of the pending subscription returned.\<close>

definition finish_other :: "sub_ref \<Rightarrow> meta_ref \<Rightarrow> sub_ref \<Rightarrow> goerror option \<Rightarrow> world \<Rightarrow> world \<times> sub_progress" where
  "finish_other sub mr pending result w = (case result of
       Some err \<Rightarrow>
         (sub_cleanup sub mr w,
          SubFails (Wrapf ''subscription confirmation failed (waiting on concurrent subscription): '' err))
     | None \<Rightarrow>
         if getState (w_subs w pending) = subStateFailed
         then (sub_cleanup sub mr w, SubFails ErrSubscriptionFailed)
         else (sub_success sub (upd_sub sub (setState subStateActive None) w), SubSucceeds sub))"

text \<open>After \<open>sendCommand\<close> returned.\<close>

definition after_sendCommand :: "sub_ref \<Rightarrow> meta_ref \<Rightarrow> goerror option \<Rightarrow> world \<Rightarrow> world \<times> sub_progress" where
  "after_sendCommand sub mr result w = (case result of
       Some err \<Rightarrow>
         (sub_cleanup sub mr (upd_meta mr (removePendingSubscription (sub_channel (w_subs w sub))) w),
          SubFails (Wrapf ''failed to send subscription command: '' err))
     | None \<Rightarrow> (w, WaitConfirm sub mr))"

text \<open>From the metadata on: register the new subscription and start the command or the wait. \<open>ctx\<close> names the
  caller's context and \<open>ctxErr\<close> is its error at the time of the call.\<close>

definition register_and_send ::
  "nat \<Rightarrow> ctx_ref option \<Rightarrow> goerror option \<Rightarrow> string \<Rightarrow> meta_ref \<Rightarrow> subscription \<Rightarrow> world \<Rightarrow> world \<times> sub_progress" where
  "register_and_send pick ctx ctxErr cmdName mr s w =
     (let sub = w_next w;
          channel = sub_channel s;
          w1 = w\<lparr>w_next := Suc sub, w_subs := (w_subs w)(sub := s)\<rparr>;
          w2 = addSubscriptionToMapLocked channel sub w1;
          (m, needsSubscribe, existingPending) = addSubscriptionAndCheckFirst sub channel (w_metas w2 mr);
          w3 = upd_meta mr (\<lambda>_. m) w2
      in if needsSubscribe
         then (let response = w_next w3;
                   w4 = w3\<lparr>w_next := Suc response, w_responses := (w_responses w3)(response := [])\<rparr>;
                   cmd = \<lparr>c_ctx = ctx, c_cmd = cmdName, c_args = [channel], c_sub = Some sub, c_response = Some response\<rparr>
               in case sendCommand pick ctxErr cmd (w_metas w4 mr) of
                    None \<Rightarrow> (w4, SendBlocks sub mr cmd)
                  | Some (m', result) \<Rightarrow> after_sendCommand sub mr result (upd_meta mr (\<lambda>_. m') w4))
         else (case existingPending of
                 Some pending \<Rightarrow>
                   (case waitForActive_enter (w_subs w3 pending) of
                      Inl result \<Rightarrow> finish_other sub mr pending result w3
                    | Inr ch \<Rightarrow> (w3, WaitOther sub mr pending ch))
               | None \<Rightarrow> (sub_success sub (upd_sub sub (setState subStateActive None) w3), SubSucceeds sub)))"

text \<open>From the connection on.\<close>

definition after_connection ::
  "nat \<Rightarrow> ctx_ref option \<Rightarrow> goerror option \<Rightarrow> string \<Rightarrow> subscriptionType \<Rightarrow> string \<Rightarrow> callback_ref \<Rightarrow> int \<Rightarrow> int \<Rightarrow>
   ps_ref \<Rightarrow> world \<Rightarrow> world \<times> sub_progress" where
  "after_connection pick ctx ctxErr channel subType cmdName callback queueLimit hashslot pubsub w =
     (case getMetadata (Some pubsub) (w_pool w) of
        None \<Rightarrow> (w, SubFails (Errorf ''no metadata found for PubSub''))
      | Some mr \<Rightarrow> register_and_send pick ctx ctxErr cmdName mr
          (newSubscription channel subType (Some pubsub) callback hashslot queueLimit) w)"

text \<open>The call up to its first wait, which may be the wait for a connection that another goroutine creates
  (\<open>Inr\<close>: its pending result and the hashslot).\<close>

definition subscribeToChannel ::
  "(world \<Rightarrow> world) \<Rightarrow> goerror + ClusterSlot list \<Rightarrow> nat \<Rightarrow> nat \<Rightarrow> ctx_ref option \<Rightarrow> goerror option \<Rightarrow> string \<Rightarrow>
   subscriptionType \<Rightarrow> string \<Rightarrow> callback_ref \<Rightarrow> int \<Rightarrow> world \<Rightarrow> world \<times> (sub_progress + pend_ref \<times> int)" where
  "subscribeToChannel refresh slots rnd pick ctx ctxErr channel subType cmdName callback queueLimit w =
     (if channel = [] then (w, Inl (SubFails (WrapfThen ErrInvalidChannel '': channel name is empty'')))
      else (let hashslot = Hashslot rnd channel;
                (w1, conn) = getPubSubForHashslot refresh slots rnd hashslot w
            in case conn of
                 ConnectError err \<Rightarrow> (w1, Inl (SubFails (Wrapf (''failed to get PubSub for hashslot '' @ showInt hashslot @ '': '') err)))
               | AwaitConnection pr \<Rightarrow> (w1, Inr (pr, hashslot))
               | Connected pubsub \<Rightarrow>
                   (let (w2, pr) = after_connection pick ctx ctxErr channel subType cmdName callback queueLimit hashslot pubsub w1
                    in (w2, Inl pr))))"

text \<open>The guards of \<open>subscribe\<close> before its loop.\<close>

definition subscribe_guards :: "string list \<Rightarrow> subscriptionType \<Rightarrow> world \<Rightarrow> goerror option" where
  "subscribe_guards channels subType w =
     (if w_closed w then Some (Wrapf [] ErrClosed)
      else if channels = [] then Some (WrapfThen ErrInvalidChannel '': channels list is empty'')
      else if subscribeCommandName subType = [] then Some (Errorf (''invalid subscription type: '' @ showInt (subscriptionType_code subType)))
      else None)"

section \<open>Unsubscribing\<close>

text \<open>The subscriptions of a handle grouped by channel, and the channels whose last subscription on their
  connection is among them.\<close>

definition subsByChannel :: "sub_ref list \<Rightarrow> world \<Rightarrow> (string, sub_ref list) gomap" where
  "subsByChannel subs w = fold (\<lambda>s m. append_at (sub_channel (w_subs w s)) s m) subs []"

definition is_last :: "sub_ref list \<Rightarrow> world \<Rightarrow> sub_ref \<Rightarrow> bool" where
  "is_last subs w s =
     (case getMetadata (getPubSub (w_subs w s)) (w_pool w) of
        None \<Rightarrow> False
      | Some mr \<Rightarrow>
          (let remainingCount = length (filter (\<lambda>x. x \<notin> set subs) (getSubscriptions (sub_channel (w_subs w s)) (w_metas w mr)))
           in remainingCount = 0))"

definition channelsToUnsub :: "sub_ref list \<Rightarrow> world \<Rightarrow> string list" where
  "channelsToUnsub subs w = map (\<lambda>s. sub_channel (w_subs w s)) (filter (is_last subs w) subs)"

definition remove_all_from_map :: "(string, sub_ref list) gomap \<Rightarrow> world \<Rightarrow> world" where
  "remove_all_from_map groups w =
     w\<lparr>w_subscriptions := fold (\<lambda>(channel, internalSubs) m.
        store_slice channel (filter (\<lambda>s. s \<notin> set internalSubs) (slice_at m channel)) m) groups (w_subscriptions w)\<rparr>"

text \<open>A command in flight: the metadata, the subscriptions to remove afterwards, the response channel.\<close>

type_synonym pendingUnsub = "meta_ref \<times> sub_ref list \<times> resp_ref"

definition remove_all_from_meta :: "meta_ref \<Rightarrow> sub_ref list \<Rightarrow> world \<Rightarrow> world" where
  "remove_all_from_meta mr subs w =
     fold (\<lambda>s v. upd_meta mr (removeSubscription (sub_channel (w_subs v s)) s) v) subs w"

text \<open>Phase 1 for one channel; \<open>None\<close>: \<open>sendCommand\<close> blocks.\<close>

definition unsub_channel ::
  "nat \<Rightarrow> string list \<Rightarrow> string \<times> sub_ref list \<Rightarrow> world \<times> goerror option \<times> pendingUnsub list \<Rightarrow>
   (world \<times> goerror option \<times> pendingUnsub list) option" where
  "unsub_channel pick toUnsub grp acc =
     (let (channel, internalSubs) = grp; (w, firstErr, pending) = acc
      in if internalSubs = [] then Some acc
         else (let firstSub = hd internalSubs
               in case getMetadata (getPubSub (w_subs w firstSub)) (w_pool w) of
                    None \<Rightarrow> Some acc
                  | Some mr \<Rightarrow>
                      (let cmdName = unsubscribeCommandName (sub_subType (w_subs w firstSub));
                           w1 = fold (\<lambda>s. upd_sub s (setState subStateClosed None)) internalSubs w
                       in if channel \<in> set toUnsub
                          then (let response = w_next w1;
                                    w2 = w1\<lparr>w_next := Suc response, w_responses := (w_responses w1)(response := [])\<rparr>;
                                    cmd = \<lparr>c_ctx = None, c_cmd = cmdName, c_args = [channel], c_sub = Some firstSub,
                                           c_response = Some response\<rparr>
                                in case sendCommand pick None cmd (w_metas w2 mr) of
                                     None \<Rightarrow> None
                                   | Some (m', None) \<Rightarrow>
                                       Some (upd_meta mr (\<lambda>_. m') w2, firstErr, pending @ [(mr, internalSubs, response)])
                                   | Some (m', Some err) \<Rightarrow>
                                       Some (remove_all_from_meta mr internalSubs (upd_meta mr (\<lambda>_. m') w2),
                                             (if firstErr = None then Some err else firstErr), pending))
                          else Some (remove_all_from_meta mr internalSubs w1, firstErr, pending))))"

fun unsub_channels ::
  "nat \<Rightarrow> string list \<Rightarrow> (string, sub_ref list) gomap \<Rightarrow> world \<times> goerror option \<times> pendingUnsub list \<Rightarrow>
   (world \<times> goerror option \<times> pendingUnsub list) option" where
  "unsub_channels pick toUnsub [] acc = Some acc"
| "unsub_channels pick toUnsub (g # gs) acc =
     (case unsub_channel pick toUnsub g acc of None \<Rightarrow> None | Some acc' \<Rightarrow> unsub_channels pick toUnsub gs acc')"

text \<open>Everything up to phase 2: \<open>Inl\<close> is an early return.\<close>

definition unsubscribe_start ::
  "nat \<Rightarrow> sub_ref list \<Rightarrow> world \<Rightarrow> (world \<times> (goerror option + goerror option \<times> pendingUnsub list)) option" where
  "unsubscribe_start pick subs w =
     (if subs = [] then Some (w, Inl None)
      else if w_closed w then Some (w, Inl (Some ErrClosed))
      else (let toUnsub = channelsToUnsub subs w;
                groups = subsByChannel subs w
            in map_option (\<lambda>(w', firstErr, pending). (w', Inr (firstErr, pending)))
                 (unsub_channels pick toUnsub groups (remove_all_from_map groups w, None, []))))"

text \<open>Phase 2 for one command (\<open>None\<close>: it blocks): an answer that is there is preferred to the other two
  reasons to stop waiting. Then phase 3.\<close>

definition unsub_wait :: "nat \<Rightarrow> goerror option \<Rightarrow> pendingUnsub \<Rightarrow> world \<Rightarrow> (world \<times> goerror option) option" where
  "unsub_wait pick ctxErr p w =
     (let (mr, subs, response) = p;
          buf = w_responses w response;
          taken = (w\<lparr>w_responses := (w_responses w)(response := tl buf)\<rparr>, hd buf);
          done = (\<lambda>(v, err). (remove_all_from_meta mr subs v, err))
      in map_option done
           (go_select pick
              [(buf \<noteq> [], taken),
               (m_loopDoneCloses (w_metas w mr) > 0, if buf \<noteq> [] then taken else (w, Some errEventLoopStopped)),
               (ctxErr \<noteq> None, if buf \<noteq> [] then taken else (w, ctxErr))]))"

section \<open>Closing\<close>

definition closeAll :: "world \<Rightarrow> world" where
  "closeAll w =
     (let (p, entries) = closeAll_locked (w_pool w)
      in fold (\<lambda>(ps, meta) v.
           let v1 = (case meta of
                 None \<Rightarrow> v
               | Some mr \<Rightarrow> (let (m, goOn) = close_locked (w_metas v mr)
                             in upd_meta mr (\<lambda>_. if goOn then close_client m else m) v))
           in v1\<lparr>w_psCloses := w_psCloses v1 @ [ps]\<rparr>) entries (w\<lparr>w_pool := p\<rparr>))"

text \<open>The error it returns: \<open>meta.close\<close> always returns nil, so it is the first error of \<open>pubsub.Close\<close>
  (\<open>psClose\<close>: its answers).\<close>

definition closeAll_error :: "(ps_ref \<Rightarrow> goerror option) \<Rightarrow> world \<Rightarrow> goerror option" where
  "closeAll_error psClose w =
     fold (\<lambda>(ps, meta) firstErr. if psClose ps \<noteq> None \<and> firstErr = None then psClose ps else firstErr)
       (snd (closeAll_locked (w_pool w))) None"

text \<open>The worker pool's \<open>Stop\<close>, by its three sections (the wait for the workers is in the theory of the pool).\<close>

definition stop_pool :: "'t WorkerPool \<Rightarrow> 't WorkerPool" where
  "stop_pool wp = (case stop_flag wp of None \<Rightarrow> wp | Some wp' \<Rightarrow> stop_close (stop_cancel wp'))"

text \<open>\<open>w_lifecycleDone\<close> also tells that \<open>closeOnce\<close> has fired. The monitor, which is stopped before the
  subscriptions are closed, is not part of this state.\<close>

definition Close :: "world \<Rightarrow> world" where
  "Close w =
     (if w_lifecycleDone w then w
      else (let w1 = w\<lparr>w_lifecycleDone := True, w_closed := True\<rparr>;
                subs = all_slices (w_subscriptions w1);
                w2 = fold (\<lambda>s. upd_sub s (setState subStateClosed None)) subs w1;
                w3 = closeAll w2;
                w4 = w3\<lparr>w_workerPool := map_option stop_pool (w_workerPool w3)\<rparr>
            in w4\<lparr>w_subscriptions := []\<rparr>))"

definition Close_error :: "(ps_ref \<Rightarrow> goerror option) \<Rightarrow> world \<Rightarrow> goerror option" where
  "Close_error psClose w = (if w_lifecycleDone w then None else closeAll_error psClose w)"

section \<open>Lemmas\<close>

text \<open>What the registrations of a SubMux and of a connection satisfy.\<close>

definition regs_ok :: "meta_ref \<Rightarrow> world \<Rightarrow> bool" where
  "regs_ok mr w \<longleftrightarrow> regs_inv (w_metas w mr) \<and> map_ok (w_subscriptions w)
     \<and> (\<forall>ch. distinct (slice_at (w_subscriptions w) ch))"

text \<open>A subscription occurs in no registration of its channel.\<close>

definition no_trace :: "sub_ref \<Rightarrow> meta_ref \<Rightarrow> world \<Rightarrow> bool" where
  "no_trace sub mr w \<longleftrightarrow> (let ch = sub_channel (w_subs w sub) in
     sub \<notin> set (slice_at (w_subscriptions w) ch) \<and> sub \<notin> set (getSubscriptions ch (w_metas w mr))
     \<and> getPendingSubscription ch (w_metas w mr) \<noteq> Some sub)"

lemma sub_cleanup_effect:
  assumes "regs_ok mr w"
  shows "no_trace sub mr (sub_cleanup sub mr w)" and "regs_ok mr (sub_cleanup sub mr w)"
    and "w_subs (sub_cleanup sub mr w) = w_subs w"
    and "\<And>x ch. x \<noteq> sub \<Longrightarrow> x \<in> set (getSubscriptions ch (w_metas (sub_cleanup sub mr w) mr))
      \<longleftrightarrow> x \<in> set (getSubscriptions ch (w_metas w mr))"
proof -
  let ?ch = "sub_channel (w_subs w sub)"
  have f: "w_subs (sub_cleanup sub mr w) = w_subs w"
    "w_subscriptions (sub_cleanup sub mr w) = remove_from_map ?ch sub (w_subscriptions w)"
    "w_metas (sub_cleanup sub mr w) mr = removeSubscription ?ch sub (w_metas w mr)"
    by (simp_all add: sub_cleanup_def Let_def removeSubscriptionFromMap_def)
  have inv: "regs_inv (w_metas w mr)" and ok: "map_ok (w_subscriptions w)"
    and d: "\<And>ch. distinct (slice_at (w_subscriptions w) ch)" using assms by (auto simp: regs_ok_def)
  have dm: "distinct (slice_at (m_subscriptions (w_metas w mr)) ch)" for ch using inv by (simp add: regs_inv_def)
  have wfp: "wf_gomap (m_pendingSubscriptions (w_metas w mr))" using inv by (simp add: regs_inv_def)
  show "no_trace sub mr (sub_cleanup sub mr w)"
    using smreg.unregistered [OF ok d] dm [of ?ch] removeSubscription_pending [OF wfp, of ?ch sub]
    by (auto simp: no_trace_def f getSubscriptions_def removeSubscription_subs getPendingSubscription_def Let_def)
  show "regs_ok mr (sub_cleanup sub mr w)"
    using smreg.inv_del [OF ok] smreg.distinct_del [OF ok d] regs_inv_remove [OF inv] by (simp add: regs_ok_def f)
  show "w_subs (sub_cleanup sub mr w) = w_subs w" by (rule f(1))
  show "x \<in> set (getSubscriptions ch (w_metas (sub_cleanup sub mr w) mr)) \<longleftrightarrow> x \<in> set (getSubscriptions ch (w_metas w mr))"
    if "x \<noteq> sub" for x ch
    using that by (auto simp: f getSubscriptions_def removeSubscription_subs)
qed

lemma register_active_channel:
  assumes "getPendingSubscription (sub_channel s) (w_metas w mr) = None"
    and "getSubscriptions (sub_channel s) (w_metas w mr) \<noteq> []"
  shows "\<exists>w'. register_and_send pick ctx ctxErr cmdName mr s w = (w', SubSucceeds (w_next w))
    \<and> w_subs w' (w_next w) = setState subStateActive None s
    \<and> m_cmdCh (w_metas w' mr) = m_cmdCh (w_metas w mr)
    \<and> getSubscriptions (sub_channel s) (w_metas w' mr) = getSubscriptions (sub_channel s) (w_metas w mr) @ [w_next w]"
  using assms
  by (auto simp: register_and_send_def addSubscriptionToMapLocked_def addSubscriptionAndCheckFirst_def Let_def
      getPendingSubscription_def getSubscriptions_def sub_success_def slice_simps)

lemma register_first:
  assumes "getPendingSubscription (sub_channel s) (w_metas w mr) = None"
    and "getSubscriptions (sub_channel s) (w_metas w mr) = []"
    and "sendCommand pick ctxErr \<lparr>c_ctx = ctx, c_cmd = cmdName, c_args = [sub_channel s], c_sub = Some (w_next w),
            c_response = Some (Suc (w_next w))\<rparr>
          ((w_metas w mr)\<lparr>m_subscriptions := AList.update (sub_channel s) [w_next w] (m_subscriptions (w_metas w mr)),
             m_pendingSubscriptions := AList.update (sub_channel s) (w_next w) (m_pendingSubscriptions (w_metas w mr))\<rparr>)
        = Some (m', None)"
  shows "\<exists>w'. register_and_send pick ctx ctxErr cmdName mr s w = (w', WaitConfirm (w_next w) mr)
    \<and> w_subs w' = (w_subs w)(w_next w := s) \<and> w_metas w' = (w_metas w)(mr := m')"
  using assms
  by (auto simp: register_and_send_def addSubscriptionToMapLocked_def addSubscriptionAndCheckFirst_def Let_def
      getPendingSubscription_def getSubscriptions_def after_sendCommand_def)

lemma close_subs_fold:
  "sub_state (w_subs (fold (\<lambda>s. upd_sub s (setState subStateClosed None)) xs w) r) =
     (if r \<in> set xs then subStateClosed else sub_state (w_subs w r))"
  "w_subscriptions (fold (\<lambda>s. upd_sub s (setState subStateClosed None)) xs w) = w_subscriptions w"
  "w_pool (fold (\<lambda>s. upd_sub s (setState subStateClosed None)) xs w) = w_pool w"
  "w_metas (fold (\<lambda>s. upd_sub s (setState subStateClosed None)) xs w) = w_metas w"
  "sub_channel (w_subs (fold (\<lambda>s. upd_sub s (setState subStateClosed None)) xs w) r) = sub_channel (w_subs w r)"
  by (induction xs arbitrary: w) auto

subsection \<open>Unsubscribing\<close>

lemma subsByChannel_lookup:
  "slice_at (subsByChannel subs w) ch = filter (\<lambda>s. sub_channel (w_subs w s) = ch) subs"
proof -
  have "slice_at (fold (\<lambda>s m. append_at (sub_channel (w_subs w s)) s m) subs acc) ch =
      slice_at acc ch @ filter (\<lambda>s. sub_channel (w_subs w s) = ch) subs" for acc
    by (induction subs arbitrary: acc) (auto simp: slice_simps)
  then show ?thesis by (simp add: subsByChannel_def)
qed

lemma wf_subsByChannel: "wf_gomap (subsByChannel subs w)"
proof -
  have "wf_gomap acc \<Longrightarrow> wf_gomap (fold (\<lambda>s m. append_at (sub_channel (w_subs w s)) s m) subs acc)" for acc
    by (induction subs arbitrary: acc) (auto intro: inv_intros)
  then show ?thesis by (simp add: subsByChannel_def)
qed

lemma remove_all_lookup:
  assumes "wf_gomap groups"
  shows "slice_at (w_subscriptions (remove_all_from_map groups w)) ch =
    filter (\<lambda>x. x \<notin> set (slice_at groups ch)) (slice_at (w_subscriptions w) ch)"
proof -
  have "wf_gomap groups \<Longrightarrow> slice_at (fold (\<lambda>(channel, internalSubs) m.
        store_slice channel (filter (\<lambda>s. s \<notin> set internalSubs) (slice_at m channel)) m) groups acc) ch =
      filter (\<lambda>x. x \<notin> set (slice_at groups ch)) (slice_at acc ch)" for acc
  proof (induction groups arbitrary: acc)
    case Nil
    then show ?case by simp
  next
    case (Cons g groups)
    obtain k xs where g: "g = (k, xs)" by (cases g)
    have wf: "wf_gomap groups" and "map_of groups k = None"
      using Cons.prems g by (auto simp: wf_gomap_def map_of_eq_None_iff)
    then have k: "slice_at groups k = []" by (simp add: slice_at_def)
    have "slice_at (g # groups) ch = (if ch = k then xs else slice_at groups ch)" by (simp add: g slice_at_def)
    then show ?case using Cons.IH [OF wf] k by (simp add: g slice_simps)
  qed
  then show ?thesis using assms by (simp add: remove_all_from_map_def)
qed

text \<open>What phase 1 leaves alone.\<close>

definition same_frame :: "world \<Rightarrow> world \<Rightarrow> bool" where
  "same_frame w w' \<longleftrightarrow> w_subscriptions w' = w_subscriptions w \<and> w_pool w' = w_pool w
     \<and> (\<forall>r. sub_channel (w_subs w' r) = sub_channel (w_subs w r) \<and> sub_pubsub (w_subs w' r) = sub_pubsub (w_subs w r))"

lemma remove_all_from_meta_frame [simp]:
  "w_subs (remove_all_from_meta mr xs w) = w_subs w" "w_subscriptions (remove_all_from_meta mr xs w) = w_subscriptions w"
  "w_pool (remove_all_from_meta mr xs w) = w_pool w" "w_responses (remove_all_from_meta mr xs w) = w_responses w"
  by (induction xs arbitrary: w) (simp_all add: remove_all_from_meta_def)

lemma close_subs_pubsub:
  "sub_pubsub (w_subs (fold (\<lambda>s. upd_sub s (setState subStateClosed None)) xs w) r) = sub_pubsub (w_subs w r)"
  by (induction xs arbitrary: w) auto

lemma unsub_channel_effect:
  assumes "unsub_channel pick toUnsub (ch, xs) (w, e, ps) = Some (w', e', ps')"
  shows "same_frame w w' \<and> (\<forall>r. sub_state (w_subs w' r) =
    (if xs \<noteq> [] \<and> getMetadata (sub_pubsub (w_subs w (hd xs))) (w_pool w) \<noteq> None \<and> r \<in> set xs then subStateClosed
     else sub_state (w_subs w r)))"
  using assms
  by (auto simp: unsub_channel_def Let_def same_frame_def close_subs_fold close_subs_pubsub getPubSub_def
      split: option.splits if_splits)

lemma unsub_channels_effect:
  "unsub_channels pick toUnsub gs (w, e, ps) = Some (w', e', ps') \<Longrightarrow>
   \<forall>(ch, xs) \<in> set gs. \<forall>s \<in> set xs. getMetadata (sub_pubsub (w_subs w s)) (w_pool w) \<noteq> None \<Longrightarrow>
   same_frame w w' \<and> (\<forall>r. sub_state (w_subs w' r) =
     (if \<exists>(ch, xs) \<in> set gs. r \<in> set xs then subStateClosed else sub_state (w_subs w r)))"
proof (induction gs arbitrary: w e ps)
  case Nil
  then show ?case by (simp add: same_frame_def)
next
  case (Cons g gs)
  obtain ch xs where g: "g = (ch, xs)" by (cases g)
  obtain v ev pv where v: "unsub_channel pick toUnsub (ch, xs) (w, e, ps) = Some (v, ev, pv)"
    "unsub_channels pick toUnsub gs (v, ev, pv) = Some (w', e', ps')"
    using Cons.prems(1) by (auto simp: g split: option.splits)
  note one = unsub_channel_effect [OF v(1)]
  have fr: "same_frame w v" using one by blast
  have "\<forall>(ch, xs) \<in> set gs. \<forall>s \<in> set xs. getMetadata (sub_pubsub (w_subs v s)) (w_pool v) \<noteq> None"
    using Cons.prems(2) fr by (simp add: same_frame_def)
  note IH = Cons.IH [OF v(2) this]
  have meta: "xs \<noteq> [] \<Longrightarrow> getMetadata (sub_pubsub (w_subs w (hd xs))) (w_pool w) \<noteq> None"
    using Cons.prems(2) by (simp add: g)
  have st: "sub_state (w_subs v r) = (if r \<in> set xs then subStateClosed else sub_state (w_subs w r))" for r
    using one meta by (cases xs) auto
  have "same_frame w w'" using fr IH by (simp add: same_frame_def)
  moreover have "sub_state (w_subs w' r) = (if \<exists>(ch, xs) \<in> set (g # gs). r \<in> set xs then subStateClosed
      else sub_state (w_subs w r))" for r
    using IH st [of r] by (auto simp: g)
  ultimately show ?case by blast
qed

lemma removed_from_meta:
  "regs_inv (w_metas w mr) \<Longrightarrow>
   regs_inv (w_metas (remove_all_from_meta mr xs w) mr) \<and>
   (\<forall>ch x. x \<in> set (getSubscriptions ch (w_metas (remove_all_from_meta mr xs w) mr)) \<longleftrightarrow>
      x \<in> set (getSubscriptions ch (w_metas w mr)) \<and> \<not> (x \<in> set xs \<and> sub_channel (w_subs w x) = ch))"
proof (induction xs arbitrary: w)
  case Nil
  then show ?case by (simp add: remove_all_from_meta_def)
next
  case (Cons y xs)
  let ?v = "upd_meta mr (removeSubscription (sub_channel (w_subs w y)) y) w"
  have v: "regs_inv (w_metas ?v mr)" using regs_inv_remove [OF Cons.prems] by simp
  have d: "distinct (slice_at (m_subscriptions (w_metas w mr)) ch)" for ch using Cons.prems by (simp add: regs_inv_def)
  have mem: "x \<in> set (getSubscriptions ch (w_metas ?v mr)) \<longleftrightarrow>
      x \<in> set (getSubscriptions ch (w_metas w mr)) \<and> \<not> (x = y \<and> sub_channel (w_subs w x) = ch)" for x ch
    using d by (auto simp: getSubscriptions_def removeSubscription_subs)
  have "remove_all_from_meta mr (y # xs) w = remove_all_from_meta mr xs ?v" by (simp add: remove_all_from_meta_def)
  with Cons.IH [OF v] mem show ?case by auto
qed

lemma unsub_wait_removes:
  assumes "unsub_wait pick ctxErr (mr, xs, resp) w = Some (w', err)"
  shows "\<exists>v. w_metas v = w_metas w \<and> w_subs v = w_subs w \<and> w_subscriptions v = w_subscriptions w
    \<and> w' = remove_all_from_meta mr xs v"
proof -
  let ?t = "(w\<lparr>w_responses := (w_responses w)(resp := tl (w_responses w resp))\<rparr>, hd (w_responses w resp))"
  let ?cs = "[(w_responses w resp \<noteq> [], ?t),
      (m_loopDoneCloses (w_metas w mr) > 0, if w_responses w resp \<noteq> [] then ?t else (w, Some errEventLoopStopped)),
      (ctxErr \<noteq> None, if w_responses w resp \<noteq> [] then ?t else (w, ctxErr))]"
  obtain v e where v: "go_select pick ?cs = Some (v, e)" "w' = remove_all_from_meta mr xs v"
    using assms by (auto simp: unsub_wait_def Let_def)
  from go_select_ready [OF v(1)] have "w_metas v = w_metas w \<and> w_subs v = w_subs w \<and> w_subscriptions v = w_subscriptions w"
    by (auto split: if_splits)
  with v(2) show ?thesis by blast
qed

lemma unsub_wait_unregisters:
  assumes "unsub_wait pick ctxErr (mr, subs, resp) w = Some (w', err)" and "regs_inv (w_metas w mr)" and "s \<in> set subs"
  shows "s \<notin> set (getSubscriptions (sub_channel (w_subs w s)) (w_metas w' mr))"
proof -
  from unsub_wait_removes [OF assms(1)] obtain v where
    v: "w_metas v = w_metas w" "w_subs v = w_subs w" "w' = remove_all_from_meta mr subs v" by blast
  have "regs_inv (w_metas v mr)" using assms(2) by (simp add: v(1))
  from removed_from_meta [OF this, of subs] assms(3) show ?thesis by (simp add: v)
qed

lemma unsubscribe_start_effect:
  assumes "unsubscribe_start pick subs w = Some (w', Inr r)"
    and "\<forall>s \<in> set subs. getMetadata (getPubSub (w_subs w s)) (w_pool w) \<noteq> None"
  shows "sub_state (w_subs w' x) = (if x \<in> set subs then subStateClosed else sub_state (w_subs w x))
    \<and> slice_at (w_subscriptions w') ch =
        filter (\<lambda>y. \<not> (y \<in> set subs \<and> sub_channel (w_subs w y) = ch)) (slice_at (w_subscriptions w) ch)"
proof -
  let ?g = "subsByChannel subs w" and ?w1 = "remove_all_from_map (subsByChannel subs w) w"
  have w1: "w_subs ?w1 = w_subs w" "w_pool ?w1 = w_pool w" by (simp_all add: remove_all_from_map_def)
  obtain e ps where u: "unsub_channels pick (channelsToUnsub subs w) ?g (?w1, None, []) = Some (w', e, ps)"
    using assms(1) by (auto simp: unsubscribe_start_def Let_def split: if_splits)
  have all: "set (all_slices ?g) = set subs"
    by (auto simp: set_all_slices [OF wf_subsByChannel] subsByChannel_lookup)
  then have in_g: "(\<exists>(ch, xs) \<in> set ?g. y \<in> set xs) \<longleftrightarrow> y \<in> set subs" for y
    by (force simp: all_slices_def)
  have "getMetadata (sub_pubsub (w_subs ?w1 s)) (w_pool ?w1) \<noteq> None" if "(a, b) \<in> set ?g" "s \<in> set b" for a b s
    using assms(2) in_g [of s] that unfolding w1 getPubSub_def by blast
  then have meta: "\<forall>(ch, xs) \<in> set ?g. \<forall>s \<in> set xs. getMetadata (sub_pubsub (w_subs ?w1 s)) (w_pool ?w1) \<noteq> None"
    by blast
  note eff = unsub_channels_effect [OF u meta]
  have "w_subscriptions w' = w_subscriptions ?w1" using eff by (simp add: same_frame_def)
  moreover have "slice_at (w_subscriptions ?w1) ch =
      filter (\<lambda>y. \<not> (y \<in> set subs \<and> sub_channel (w_subs w y) = ch)) (slice_at (w_subscriptions w) ch)"
    unfolding remove_all_lookup [OF wf_subsByChannel] subsByChannel_lookup by (simp cong: conj_cong)
  ultimately show ?thesis using eff in_g by (simp add: w1)
qed

subsection \<open>Closing\<close>

definition close_entry :: "ps_ref \<times> meta_ref option \<Rightarrow> world \<Rightarrow> world" where
  "close_entry = (\<lambda>(ps, meta) v.
     let v1 = (case meta of
           None \<Rightarrow> v
         | Some mr \<Rightarrow> (let (m, goOn) = close_locked (w_metas v mr)
                       in upd_meta mr (\<lambda>_. if goOn then close_client m else m) v))
     in v1\<lparr>w_psCloses := w_psCloses v1 @ [ps]\<rparr>)"

lemma close_entry_meta:
  "w_metas (close_entry (ps, meta) v) mr =
     (if meta = Some mr then (if m_state (w_metas v mr) = connStateClosed then w_metas v mr
        else close_client (fst (close_locked (w_metas v mr)))) else w_metas v mr)"
  by (auto simp: close_entry_def close_locked_def Let_def split: option.split)

lemma close_entry_frame [simp]:
  "w_subs (close_entry e v) = w_subs v" "w_pool (close_entry e v) = w_pool v" "w_closed (close_entry e v) = w_closed v"
  "w_lifecycleDone (close_entry e v) = w_lifecycleDone v" "w_psCloses (close_entry e v) = w_psCloses v @ [fst e]"
  by (cases e; auto simp: close_entry_def Let_def upd_meta_def split: option.split prod.split)+

lemma close_entries:
  "w_subs (fold close_entry es v) = w_subs v \<and> w_pool (fold close_entry es v) = w_pool v
   \<and> w_closed (fold close_entry es v) = w_closed v \<and> w_lifecycleDone (fold close_entry es v) = w_lifecycleDone v
   \<and> w_psCloses (fold close_entry es v) = w_psCloses v @ map fst es"
  by (induction es arbitrary: v) simp_all

lemma close_entries_meta:
  "meta_inv (w_metas v mr) \<Longrightarrow> meta_inv (w_metas (fold close_entry es v) mr)
   \<and> (m_state (w_metas v mr) = connStateClosed \<or> Some mr \<in> snd ` set es \<longrightarrow>
        m_state (w_metas (fold close_entry es v) mr) = connStateClosed)"
proof (induction es arbitrary: v)
  case (Cons e es)
  have inv: "meta_inv (w_metas (close_entry e v) mr)"
    using Cons.prems meta_inv_close [OF Cons.prems]
    by (cases e) (auto simp: close_entry_meta close_client_def meta_inv_def)
  have "m_state (w_metas (close_entry e v) mr) = connStateClosed"
    if "m_state (w_metas v mr) = connStateClosed \<or> snd e = Some mr"
    using that by (cases e) (auto simp: close_entry_meta close_client_def close_locked_def)
  with Cons.IH [OF inv] show ?case by auto
qed simp

lemma closeAll_eq: "closeAll w = fold close_entry (snd (closeAll_locked (w_pool w))) (w\<lparr>w_pool := newPubSubPool\<rparr>)"
  by (simp add: closeAll_def close_entry_def closeAll_locked_def)

section \<open>Properties\<close>



text \<open>A channel that has a registered subscription and none pending counts as subscribed, whatever the
  types and states of those subscriptions: a new subscriber succeeds at once, is active, and no command
  is sent. In particular a sharded or pattern subscription to a name with a plain subscription is never
  sent to Redis, and neither is a subscription made while the channel's last subscriber, already closed,
  waits for the answer to its UNSUBSCRIBE.\<close>

theorem subscribe_without_command:
  assumes "getPendingSubscription (sub_channel s) (w_metas w mr) = None"
    and "getSubscriptions (sub_channel s) (w_metas w mr) \<noteq> []"
  shows "\<exists>w'. register_and_send pick ctx ctxErr cmdName mr s w = (w', SubSucceeds (w_next w))
    \<and> sub_state (w_subs w' (w_next w)) = subStateActive
    \<and> m_cmdCh (w_metas w' mr) = m_cmdCh (w_metas w mr)"
  using register_active_channel [OF assms] by fastforce

theorem subscribe_without_command_witness:
  "\<exists>w'. register_and_send 0 None None cmdSSubscribe 2 (newSubscription ''c'' subTypeSSubscribe (Some 2) 0 7 2) world1
      = (w', SubSucceeds 10) \<and> m_cmdCh (w_metas w' 2) = m_cmdCh meta1"
  using subscribe_without_command [of "newSubscription ''c'' subTypeSSubscribe (Some 2) 0 7 2" world1 2 0 None None cmdSSubscribe]
  by (auto simp: world1_def meta1_def newSubscription_def getPendingSubscription_def getSubscriptions_def slice_at_def)

text \<open>A subscriber that gives up strands those who wait for it: when the wait of the pending subscription
  ends with an error of its context, the subscription is removed from all registrations but stays
  pending, so a goroutine in \<open>waitForActive\<close> on it stays blocked, and no later confirmation on the
  connection can release it.\<close>

theorem abandoned_pending_strands_waiters:
  assumes "regs_ok mr w" and "waitForActive_enter (w_subs w p) = Inr ch" and "ch \<notin> set (sub_closes (w_subs w p))"
    and "finish_confirm p mr (Some ctxErr) w = (w', outcome)"
  shows "waitForActive_wait pick None ch (w_subs w' p) = None
    \<and> waitForActive_wait pick None ch
        (w_subs (handleSubscriptionConfirmation mr kind (sub_channel (w_subs w p)) w') p) = None"
proof -
  have w': "w' = sub_cleanup p mr w" using assms(4) by (simp add: finish_confirm_def)
  note c = sub_cleanup_effect [OF assms(1)]
  have np: "getPendingSubscription (sub_channel (w_subs w p)) (w_metas w' mr) \<noteq> Some p"
    using c(1) [of p] by (simp add: no_trace_def w' c(3) Let_def)
  have "w_subs (handleSubscriptionConfirmation mr kind (sub_channel (w_subs w p)) w') p = w_subs w' p"
    using np by (auto simp: handleSubscriptionConfirmation_def split: option.split)
  then show ?thesis using assms(3) by (simp add: w' c(3) waitForActive_wait_def go_select_def)
qed

theorem abandoned_pending_strands_waiters_witness:
  "waitForActive_wait 0 None 0 (w_subs (fst (finish_confirm 5 2 (Some ContextDeadlineExceeded) world1)) 5) = None"
proof -
  have "regs_ok 2 world1"
    by (simp add: regs_ok_def world1_def meta1_def newMetadata_def regs_inv_def map_ok_def wf_gomap_def no_empty_def slice_at_def)
  moreover have "waitForActive_enter (w_subs world1 5) = Inr 0" "0 \<notin> set (sub_closes (w_subs world1 5))"
    by (simp_all add: world1_def newSubscription_def waitForActive_enter_def)
  ultimately show ?thesis
    using abandoned_pending_strands_waiters [of 2 world1 5 0 ContextDeadlineExceeded _ _ 0 redisKindSubscribe]
    by (metis prod.collapse)
qed







end
