(* ===== verification/Monitor.thy ===== *)
theory Monitor
  imports Submux_Core
begin

text \<open>
  \<open>topology.go\<close>, second part: the topology monitor. A refresh builds the new snapshot from the cluster's
  answers (arguments), swaps it in, handles the migrations it detects and recovers failed subscriptions;
  a migration signals the affected subscriptions and starts a goroutine that moves them to the new node
  under the supervision of a progress monitor. Goroutines that a function starts are recorded in the
  monitor's state, and their own steps are functions.
\<close>

section \<open>State\<close>

text \<open>
  \<open>mo_activeMigrations\<close> maps a hashslot to the handle of its latest migration goroutine,
  \<open>mo_cancelled\<close> lists the handles whose context was cancelled, \<open>mo_running\<close> the migration goroutines
  that have not returned (handle, subscriptions, migration). \<open>mo_done\<close>: the channel \<open>done\<close> is closed.
\<close>

record monitor =
  mo_done :: bool
  mo_activeMigrations :: "(int, nat) gomap"
  mo_cancelled :: "nat list"
  mo_running :: "(nat \<times> sub_ref list \<times> hashslotMigration) list"
  mo_nextHandle :: nat

definition newTopologyMonitor :: monitor where
  "newTopologyMonitor = \<lparr>mo_done = False, mo_activeMigrations = [], mo_cancelled = [], mo_running = [], mo_nextHandle = 0\<rparr>"

section \<open>Signals\<close>

definition signalMessage :: "int \<Rightarrow> SignalInfo \<Rightarrow> subscriptionType \<Rightarrow> Message" where
  "signalMessage timestamp signal subType =
     \<lparr>msg_Type = MessageTypeSignal, msg_Channel = [], msg_Payload = [], msg_Pattern = [], msg_Signal = Some signal,
      msg_Timestamp = timestamp, msg_SubscriptionType = subType\<rparr>"

definition broadcastSignal :: "nat \<Rightarrow> int \<Rightarrow> sub_ref list \<Rightarrow> SignalInfo \<Rightarrow> world \<Rightarrow> world" where
  "broadcastSignal pick now subs signal w =
     fold (\<lambda>sub v. invokeCallbackOrdered pick now sub (signalMessage now signal (sub_subType (w_subs v sub))) v) subs w"

definition migrationSignal :: "EventType \<Rightarrow> hashslotMigration \<Rightarrow> string \<Rightarrow> SignalInfo" where
  "migrationSignal ev mig details =
     \<lparr>sig_EventType = ev, sig_Hashslot = mig_hashslot mig, sig_OldNode = mig_oldNode mig,
      sig_NewNode = mig_newNode mig, sig_Details = details, sig_DroppedCount = 0\<rparr>"

definition sendSignalMessages :: "nat \<Rightarrow> int \<Rightarrow> sub_ref list \<Rightarrow> hashslotMigration \<Rightarrow> world \<Rightarrow> world" where
  "sendSignalMessages pick now subs mig =
     broadcastSignal pick now subs (migrationSignal EventMigration mig
       (''Hashslot '' @ showInt (mig_hashslot mig) @ '' migrated from '' @ mig_oldNode mig @ '' to '' @ mig_newNode mig))"

text \<open>\<open>shown\<close> is the text of the duration.\<close>

definition sendMigrationTimeoutSignal :: "nat \<Rightarrow> int \<Rightarrow> sub_ref list \<Rightarrow> hashslotMigration \<Rightarrow> string \<Rightarrow> world \<Rightarrow> world" where
  "sendMigrationTimeoutSignal pick now subs mig shown w =
     broadcastSignal pick now subs (migrationSignal EventMigrationTimeout mig
       (''Hashslot '' @ showInt (mig_hashslot mig) @ '' migration resubscription exceeded maximum duration of '' @ shown
        @ ''. Subscribers may need to manually resubscribe.'')) (record_metric MigrationTimeout w)"

definition sendMigrationStalledSignal :: "nat \<Rightarrow> int \<Rightarrow> sub_ref list \<Rightarrow> hashslotMigration \<Rightarrow> string \<Rightarrow> world \<Rightarrow> world" where
  "sendMigrationStalledSignal pick now subs mig shown w =
     broadcastSignal pick now subs (migrationSignal EventMigrationStalled mig
       (''Hashslot '' @ showInt (mig_hashslot mig) @ '' migration resubscription appears stalled (no progress for '' @ shown
        @ ''). Subscribers may need to manually resubscribe.'')) (record_metric MigrationStalled w)"

section \<open>Migrations\<close>

definition findAffectedSubscriptions :: "int \<Rightarrow> world \<Rightarrow> sub_ref list" where
  "findAffectedSubscriptions hashslot w =
     filter (\<lambda>s. sub_hashslot (w_subs w s) = hashslot
               \<and> (getState (w_subs w s) = subStateActive \<or> getState (w_subs w s) = subStatePending))
       (all_slices (w_subscriptions w))"

definition collectFailedSubscriptions :: "world \<Rightarrow> (int, sub_ref list) gomap" where
  "collectFailedSubscriptions w =
     fold (\<lambda>s m. if getState (w_subs w s) = subStateFailed then append_at (sub_hashslot (w_subs w s)) s m else m)
       (all_slices (w_subscriptions w)) []"

text \<open>Cancel the migration goroutine that is active for the hashslot, and start a new one.\<close>

definition launch :: "sub_ref list \<Rightarrow> hashslotMigration \<Rightarrow> monitor \<Rightarrow> monitor" where
  "launch subs mig mo =
     (let hs = mig_hashslot mig;
          mo1 = (case map_of (mo_activeMigrations mo) hs of
                   None \<Rightarrow> mo
                 | Some prev \<Rightarrow> mo\<lparr>mo_cancelled := mo_cancelled mo @ [prev]\<rparr>);
          handle = mo_nextHandle mo1
      in mo1\<lparr>mo_nextHandle := Suc handle, mo_activeMigrations := AList.update hs handle (mo_activeMigrations mo1),
             mo_running := mo_running mo1 @ [(handle, subs, mig)]\<rparr>)"

text \<open>The deferred \<open>CompareAndDelete\<close> of the goroutine.\<close>

definition migration_returns :: "nat \<Rightarrow> int \<Rightarrow> monitor \<Rightarrow> monitor" where
  "migration_returns handle hs mo =
     (let mo1 = mo\<lparr>mo_running := filter (\<lambda>(h, _). h \<noteq> handle) (mo_running mo)\<rparr>
      in if map_of (mo_activeMigrations mo1) hs = Some handle
         then mo1\<lparr>mo_activeMigrations := AList.delete hs (mo_activeMigrations mo1)\<rparr> else mo1)"

definition handleMigration :: "nat \<Rightarrow> int \<Rightarrow> hashslotMigration \<Rightarrow> monitor \<times> world \<Rightarrow> monitor \<times> world" where
  "handleMigration pick now mig st =
     (let (mo, w) = st;
          w1 = w\<lparr>w_pool := invalidateHashslot (mig_hashslot mig) (w_pool w)\<rparr>;
          affectedSubs = findAffectedSubscriptions (mig_hashslot mig) w1
      in if affectedSubs = [] then (mo, w1)
         else (let w2 = sendSignalMessages pick now affectedSubs mig (record_metric MigrationStarted w1)
               in if cfg_autoResubscribe (w_config w2)
                  then (if mo_done mo then (mo, w2) else (launch affectedSubs mig mo, w2))
                  else (mo, w2)))"

definition handleMigrations :: "nat \<Rightarrow> int \<Rightarrow> hashslotMigration list \<Rightarrow> monitor \<times> world \<Rightarrow> monitor \<times> world" where
  "handleMigrations pick now migs st = fold (handleMigration pick now) migs st"

text \<open>The loop of \<open>recoverFailedSubscriptions\<close>; a closed \<open>done\<close> channel leaves it.\<close>

fun recover_loop :: "(int, sub_ref list) gomap \<Rightarrow> monitor \<times> world \<Rightarrow> monitor \<times> world" where
  "recover_loop [] st = st"
| "recover_loop ((hs, subs) # rest) (mo, w) =
     (case ts_getNodeForHashslot hs (w_topology w) of
        None \<Rightarrow> recover_loop rest (mo, w)
      | Some currentNode \<Rightarrow>
          (let w1 = record_metric MigrationStarted (w\<lparr>w_pool := invalidateHashslot hs (w_pool w)\<rparr>)
           in if mo_done mo then (mo, w1)
              else recover_loop rest
                     (launch subs \<lparr>mig_hashslot = hs, mig_oldNode = [], mig_newNode = currentNode\<rparr> mo, w1)))"

definition recoverFailedSubscriptions :: "monitor \<times> world \<Rightarrow> monitor \<times> world" where
  "recoverFailedSubscriptions st = recover_loop (collectFailedSubscriptions (snd st)) st"

section \<open>Refresh\<close>

text \<open>The answer of the cluster client, then of the seed nodes in the shuffled order: each gives its
  \<open>CLUSTER INFO\<close> and its \<open>CLUSTER SLOTS\<close>.\<close>

fun try_seeds :: "goerror \<Rightarrow> ((goerror + string) \<times> (goerror + ClusterSlot list)) list \<Rightarrow> goerror + ClusterSlot list" where
  "try_seeds err [] = Inl err"
| "try_seeds err ((info, nodeSlots) # seeds) =
     (case info of
        Inl _ \<Rightarrow> try_seeds err seeds
      | Inr text \<Rightarrow>
          if \<not> strings_Contains text ''cluster_state:ok'' then try_seeds err seeds
          else (case nodeSlots of Inr slots \<Rightarrow> Inr slots | Inl _ \<Rightarrow> try_seeds err seeds))"

definition fetch_slots ::
  "goerror + ClusterSlot list \<Rightarrow> ((goerror + string) \<times> (goerror + ClusterSlot list)) list \<Rightarrow> goerror + ClusterSlot list" where
  "fetch_slots main seeds = (case main of Inr slots \<Rightarrow> Inr slots | Inl err \<Rightarrow> try_seeds err seeds)"

definition new_state :: "ClusterSlot list \<Rightarrow> goerror + string \<Rightarrow> topologyState" where
  "new_state slots clusterNodes =
     (let st = update_topology slots newTopologyState
      in case clusterNodes of Inr out \<Rightarrow> enrichWithReplicaInfo out st | Inl _ \<Rightarrow> st)"

definition refreshTopology ::
  "nat \<Rightarrow> int \<Rightarrow> int \<Rightarrow> goerror + ClusterSlot list \<Rightarrow> ((goerror + string) \<times> (goerror + ClusterSlot list)) list \<Rightarrow>
   goerror + string \<Rightarrow> monitor \<times> world \<Rightarrow> (monitor \<times> world) \<times> goerror option" where
  "refreshTopology pick now elapsed main seeds clusterNodes st =
     (let (mo, w) = st in
      case fetch_slots main seeds of
        Inl err \<Rightarrow>
          ((mo, record_metric (TopologyRefreshLatency elapsed) (record_metric (TopologyRefresh False) w)),
           Some (Wrapf ''failed to get cluster slots (tried main client and seed nodes): '' err))
      | Inr slots \<Rightarrow>
          (let newState = new_state slots clusterNodes;
               migrations = compareAndDetectChanges newState (w_topology w);
               st1 = (mo, w\<lparr>w_topology := newState\<rparr>);
               st2 = (if migrations \<noteq> [] then handleMigrations pick now migrations st1 else st1);
               st3 = (if cfg_autoResubscribe (w_config (snd st2)) then recoverFailedSubscriptions st2 else st2)
           in ((fst st3, record_metric (TopologyRefreshLatency elapsed) (record_metric (TopologyRefresh True) (snd st3))),
               None)))"

section \<open>Resubscription\<close>

text \<open>A command goroutine that was started: the subscription, the command, the channel, the metadata.\<close>

type_synonym resub_task = "sub_ref \<times> string \<times> string \<times> meta_ref"

text \<open>The state of the pass: the world, the goroutines started, the progress counter.\<close>

type_synonym resub_state = "world \<times> resub_task list \<times> nat"

text \<open>Leaving the old connection: removal, and the state closed if the connection was still active.\<close>

definition leave_old :: "sub_ref \<Rightarrow> world \<Rightarrow> world" where
  "leave_old sub w =
     (case getMetadata (getPubSub (w_subs w sub)) (w_pool w) of
        None \<Rightarrow> w
      | Some old \<Rightarrow>
          (let w1 = upd_meta old (removeSubscription (sub_channel (w_subs w sub)) sub) w
           in if meta_getState (w_metas w1 old) = connStateActive
              then upd_sub sub (setState subStateClosed None) w1 else w1))"

definition resub_one :: "bool \<Rightarrow> subscriptionType \<Rightarrow> string \<Rightarrow> ps_ref \<Rightarrow> sub_ref \<Rightarrow> resub_state \<Rightarrow> resub_state" where
  "resub_one ctxDone subType channel newPubsub sub st =
     (let (w, tasks, cnt) = st;
          w1 = upd_sub sub (setPubSub (Some newPubsub)) (leave_old sub w)
      in case getMetadata (Some newPubsub) (w_pool w1) of
           None \<Rightarrow> (w1, tasks, cnt + 1)
         | Some mr \<Rightarrow>
             (let w2 = upd_meta mr (addSubscription (sub_channel (w_subs w1 sub)) sub) w1;
                  cmdName = subscribeCommandName subType;
                  isFirst = (length (getSubscriptions channel (w_metas w2 mr)) = 1)
              in if isFirst
                 then (if ctxDone then (w2, tasks, cnt + 1)
                       else (let w3 = upd_sub sub (\<lambda>s. setState subStatePending None (resetConfirmation s)) w2;
                                 w4 = upd_meta mr (addPendingSubscription (sub_channel (w_subs w3 sub)) sub) w3
                             in (w4, tasks @ [(sub, cmdName, channel, mr)], cnt)))
                 else (upd_sub sub (setState subStateActive None) w2, tasks, cnt + 1)))"

text \<open>The subscriptions grouped by type and, within a type, by channel; and the groups in the order of the
  two nested loops.\<close>

definition channelsByType :: "sub_ref list \<Rightarrow> world \<Rightarrow> (subscriptionType, (string, sub_ref list) gomap) gomap" where
  "channelsByType subs w =
     fold (\<lambda>s m. AList.update (sub_subType (w_subs w s))
             (append_at (sub_channel (w_subs w s)) s (slice_at m (sub_subType (w_subs w s)))) m) subs []"

definition nested_groups ::
  "(subscriptionType, (string, sub_ref list) gomap) gomap \<Rightarrow> ((subscriptionType \<times> string) \<times> sub_ref list) list" where
  "nested_groups m =
     concat (map (\<lambda>(subType, channels). map (\<lambda>(channel, channelSubs). ((subType, channel), channelSubs)) channels) m)"

text \<open>
  The pass over the groups. \<open>done i k\<close> tells whether the migration context is done at the \<open>k\<close>-th time the
  pass looks at it in group \<open>i\<close>: at the start of the group, after a failed connection, and before the
  command of each subscription. \<open>conn i\<close> is the completed call of \<open>getPubSubForHashslot\<close> of the group.
\<close>

fun resub_subs ::
  "(nat \<Rightarrow> bool) \<Rightarrow> subscriptionType \<Rightarrow> string \<Rightarrow> ps_ref \<Rightarrow> sub_ref list \<Rightarrow> nat \<Rightarrow> resub_state \<Rightarrow> resub_state" where
  "resub_subs ctxDone subType channel newPubsub [] k st = st"
| "resub_subs ctxDone subType channel newPubsub (sub # subs) k st =
     resub_subs ctxDone subType channel newPubsub subs (Suc k)
       (resub_one (ctxDone k) subType channel newPubsub sub st)"

fun resub_groups ::
  "(nat \<Rightarrow> nat \<Rightarrow> bool) \<Rightarrow> (nat \<Rightarrow> world \<Rightarrow> world \<times> (goerror + ps_ref)) \<Rightarrow> nat \<Rightarrow>
   ((subscriptionType \<times> string) \<times> sub_ref list) list \<Rightarrow> resub_state \<Rightarrow> resub_state" where
  "resub_groups ctxDone conn i [] st = st"
| "resub_groups ctxDone conn i (((subType, channel), channelSubs) # rest) (w, tasks, cnt) =
     (if ctxDone i 0 then resub_groups ctxDone conn (Suc i) rest (w, tasks, cnt + length channelSubs)
      else (case conn i w of
              (w1, Inl err) \<Rightarrow>
                if ctxDone i 1 then (w1, tasks, cnt + length channelSubs)
                else resub_groups ctxDone conn (Suc i) rest (w1, tasks, cnt + length channelSubs)
            | (w1, Inr newPubsub) \<Rightarrow>
                resub_groups ctxDone conn (Suc i) rest
                  (resub_subs (ctxDone i) subType channel newPubsub channelSubs 2 (w1, tasks, cnt))))"

definition resubscribeOnNewNode ::
  "(nat \<Rightarrow> nat \<Rightarrow> bool) \<Rightarrow> (nat \<Rightarrow> world \<Rightarrow> world \<times> (goerror + ps_ref)) \<Rightarrow> sub_ref list \<Rightarrow> hashslotMigration \<Rightarrow>
   world \<Rightarrow> resub_state" where
  "resubscribeOnNewNode ctxDone conn subs mig w =
     resub_groups ctxDone conn 0 (nested_groups (channelsByType subs w))
       (w\<lparr>w_pool := invalidateHashslot (mig_hashslot mig) (w_pool w)\<rparr>, [], 0)"

text \<open>The two ends of a command goroutine: after \<open>sendCommand\<close> and after \<open>waitForConfirmation\<close>.\<close>

definition resub_send_failed :: "resub_task \<Rightarrow> goerror \<Rightarrow> world \<Rightarrow> world" where
  "resub_send_failed task err w =
     (let (sub, cmdName, channel, mr) = task
      in upd_sub sub (setState subStateFailed (Some err)) (upd_meta mr (removePendingSubscription channel) w))"

definition resub_confirm_result :: "resub_task \<Rightarrow> goerror option \<Rightarrow> world \<Rightarrow> world" where
  "resub_confirm_result task result w =
     (case result of None \<Rightarrow> w | Some err \<Rightarrow> upd_sub (fst task) (setState subStateFailed (Some err)) w)"

section \<open>Progress monitoring\<close>

text \<open>Durations are \<open>int64\<close> nanoseconds; the sum and the product wrap around.\<close>

definition ctxDeadline :: "config \<Rightarrow> int" where
  "ctxDeadline cfg =
     (let headroom = max (wrap64 (2 * cfg_migrationStallCheck cfg)) Second
      in wrap64 (cfg_migrationTimeout cfg + headroom))"

datatype verdict = KeepWatching | SignalTimeout | SignalStalled | StopWatching

record watch =
  wa_start :: int
  wa_lastProgress :: int
  wa_lastCount :: nat

text \<open>A tick of the monitoring goroutine: the signal it sends (after which it returns) or the new state.\<close>

definition watch_tick :: "config \<Rightarrow> int \<Rightarrow> nat \<Rightarrow> nat \<Rightarrow> watch \<Rightarrow> watch \<times> verdict" where
  "watch_tick cfg now currentCount totalSubs wa =
     (if currentCount \<ge> totalSubs then (wa, KeepWatching)
      else if now - wa_start wa > cfg_migrationTimeout cfg then (wa, SignalTimeout)
      else if currentCount > wa_lastCount wa
      then (wa\<lparr>wa_lastCount := currentCount, wa_lastProgress := now\<rparr>, KeepWatching)
      else if now - wa_lastProgress wa > cfg_migrationStallCheck cfg then (wa, SignalStalled)
      else (wa, KeepWatching))"

text \<open>The final check when the resubscription goroutines are done; the goroutine is only here when it has
  not signalled before.\<close>

definition watch_done :: "config \<Rightarrow> int \<Rightarrow> sub_ref list \<Rightarrow> world \<Rightarrow> watch \<Rightarrow> verdict" where
  "watch_done cfg now subs w wa =
     (if \<exists>s \<in> set subs. getState (w_subs w s) \<noteq> subStateActive
      then (if now - wa_start wa > cfg_migrationTimeout cfg then SignalTimeout
            else if now - wa_lastProgress wa > cfg_migrationStallCheck cfg then SignalStalled
            else StopWatching)
      else StopWatching)"

section \<open>Lemmas\<close>

subsection \<open>Signals reach the affected subscriptions\<close>

text \<open>What no signal changes.\<close>

definition quiet :: "world \<Rightarrow> world \<Rightarrow> bool" where
  "quiet w w' \<longleftrightarrow> w_subscriptions w' = w_subscriptions w \<and> w_config w' = w_config w \<and> w_topology w' = w_topology w
     \<and> (\<forall>r. sub_state (w_subs w' r) = sub_state (w_subs w r) \<and> sub_hashslot (w_subs w' r) = sub_hashslot (w_subs w r)
          \<and> sub_subType (w_subs w' r) = sub_subType (w_subs w r) \<and> sub_channel (w_subs w' r) = sub_channel (w_subs w r))"

lemma quiet_refl [simp]: "quiet w w"
  by (simp add: quiet_def)

lemma quiet_trans: "quiet w v \<Longrightarrow> quiet v u \<Longrightarrow> quiet w u"
  by (simp add: quiet_def)

lemma broadcast_effect:
  "delivery_ok w \<Longrightarrow> distinct subs \<Longrightarrow>
   delivery_ok (broadcastSignal pick now subs sig w) \<and> quiet w (broadcastSignal pick now subs sig w)
   \<and> w_pool (broadcastSignal pick now subs sig w) = w_pool w
   \<and> (\<forall>r. queued (broadcastSignal pick now subs sig w) r = queued w r @
       (if r \<in> set subs \<and> \<not> queue_full w r
        then [\<lparr>pc_msg = Some (signalMessage now sig (sub_subType (w_subs w r))), pc_enqueuedAt = now\<rparr>] else [])
     \<and> (r \<notin> set subs \<longrightarrow> w_subs (broadcastSignal pick now subs sig w) r = w_subs w r))"
proof (induction subs arbitrary: w)
  case Nil
  then show ?case by (simp add: broadcastSignal_def)
next
  case (Cons x subs)
  let ?m = "signalMessage now sig (sub_subType (w_subs w x))"
  let ?v = "invokeCallbackOrdered pick now x ?m w"
  have d: "delivery_ok ?v" "distinct subs" using invoke_delivery [OF Cons.prems(1)] Cons.prems(2) by auto
  note IH = Cons.IH [OF d]
  have b: "broadcastSignal pick now (x # subs) sig w = broadcastSignal pick now subs sig ?v"
    by (simp add: broadcastSignal_def)
  have q: "quiet w ?v" "w_pool ?v = w_pool w" by (simp_all add: quiet_def)
  have r: "queued ?v r = (if r = x \<and> \<not> queue_full w x then queued w r @ [\<lparr>pc_msg = Some ?m, pc_enqueuedAt = now\<rparr>] else queued w r)"
    "r \<noteq> x \<Longrightarrow> w_subs ?v r = w_subs w r" for r
    using invoke_delivery [OF Cons.prems(1), of pick now x ?m r] invoke_other by auto
  have full: "r \<noteq> x \<Longrightarrow> queue_full ?v r = queue_full w r" for r using r(2) by (simp add: queue_full_def)
  have "queued (broadcastSignal pick now subs sig ?v) r = queued w r @
       (if r \<in> set (x # subs) \<and> \<not> queue_full w r
        then [\<lparr>pc_msg = Some (signalMessage now sig (sub_subType (w_subs w r))), pc_enqueuedAt = now\<rparr>] else [])
     \<and> (r \<notin> set (x # subs) \<longrightarrow> w_subs (broadcastSignal pick now subs sig ?v) r = w_subs w r)" for r
    using IH r [of r] full [of r] Cons.prems(2) by (cases "r = x") auto
  then show ?case unfolding b using IH q quiet_trans by fastforce
qed

text \<open>The signal a migration sends to a subscription.\<close>

definition moved_signal :: "int \<Rightarrow> hashslotMigration \<Rightarrow> subscriptionType \<Rightarrow> pendingCallback" where
  "moved_signal now mig subType = \<lparr>pc_msg = Some (signalMessage now (migrationSignal EventMigration mig
       (''Hashslot '' @ showInt (mig_hashslot mig) @ '' migrated from '' @ mig_oldNode mig @ '' to '' @ mig_newNode mig)) subType),
     pc_enqueuedAt = now\<rparr>"

lemma quiet_affected: "quiet w w' \<Longrightarrow> findAffectedSubscriptions hs w' = findAffectedSubscriptions hs w"
  by (simp add: quiet_def findAffectedSubscriptions_def getState_def)

lemma handleMigration_effect:
  assumes "delivery_ok w" and "distinct (all_slices (w_subscriptions w))"
    and "handleMigration pick now mig (mo, w) = (mo', w')"
  shows "delivery_ok w' \<and> quiet w w'
    \<and> (\<forall>r. queued w' r = queued w r @
        (if r \<in> set (findAffectedSubscriptions (mig_hashslot mig) w) \<and> \<not> queue_full w r
         then [moved_signal now mig (sub_subType (w_subs w r))] else [])
      \<and> (r \<notin> set (findAffectedSubscriptions (mig_hashslot mig) w) \<longrightarrow> w_subs w' r = w_subs w r))"
proof -
  let ?v = "record_metric MigrationStarted (w\<lparr>w_pool := invalidateHashslot (mig_hashslot mig) (w_pool w)\<rparr>)"
  let ?a = "findAffectedSubscriptions (mig_hashslot mig) w"
  have v: "delivery_ok ?v" "quiet w ?v" "w_subs ?v = w_subs w" "\<And>r. queued ?v r = queued w r" "\<And>r. queue_full ?v r = queue_full w r"
    using assms(1) by (simp_all add: delivery_ok_def queued_def queue_full_def quiet_def record_metric_def)
  have a: "findAffectedSubscriptions (mig_hashslot mig) (w\<lparr>w_pool := invalidateHashslot (mig_hashslot mig) (w_pool w)\<rparr>) = ?a"
    by (simp add: findAffectedSubscriptions_def)
  have d: "distinct ?a" using assms(2) by (simp add: findAffectedSubscriptions_def)
  note b = broadcast_effect [OF v(1) d]
  show ?thesis
  proof (cases "?a = []")
    case True
    then have "w' = w\<lparr>w_pool := invalidateHashslot (mig_hashslot mig) (w_pool w)\<rparr>"
      using assms(3) by (simp add: handleMigration_def a Let_def)
    then show ?thesis using True assms(1) by (simp add: delivery_ok_def quiet_def queued_def)
  next
    case False
    then have "w' = sendSignalMessages pick now ?a mig ?v"
      using assms(3) by (auto simp: handleMigration_def a Let_def split: if_splits)
    then show ?thesis
      using b [of pick now] v quiet_trans [OF v(2)] by (simp add: sendSignalMessages_def moved_signal_def)
  qed
qed

lemma handleMigrations_effect:
  "delivery_ok w \<Longrightarrow> distinct (all_slices (w_subscriptions w)) \<Longrightarrow> distinct (map mig_hashslot migs) \<Longrightarrow>
   handleMigrations pick now migs (mo, w) = (mo', w') \<Longrightarrow>
   delivery_ok w' \<and> quiet w w' \<and> (\<forall>r. queued w' r = queued w r @
     (if \<not> queue_full w r then map (\<lambda>mig. moved_signal now mig (sub_subType (w_subs w r)))
        (filter (\<lambda>mig. r \<in> set (findAffectedSubscriptions (mig_hashslot mig) w)) migs) else []))"
proof (induction migs arbitrary: mo w)
  case Nil
  then show ?case by (simp add: handleMigrations_def)
next
  case (Cons g migs)
  obtain mo1 v where v: "handleMigration pick now g (mo, w) = (mo1, v)" by fastforce
  have rest: "handleMigrations pick now migs (mo1, v) = (mo', w')" using Cons.prems(4) v by (simp add: handleMigrations_def)
  note one = handleMigration_effect [OF Cons.prems(1,2) v]
  have dv: "delivery_ok v" "distinct (all_slices (w_subscriptions v))" "quiet w v"
    using one Cons.prems(2) by (auto simp: quiet_def)
  note IH = Cons.IH [OF dv(1,2) _ rest]
  have slot: "r \<in> set (findAffectedSubscriptions hs w) \<Longrightarrow> hs = sub_hashslot (w_subs w r)" for r hs
    by (simp add: findAffectedSubscriptions_def)
  have "queued w' r = queued w r @ (if \<not> queue_full w r then map (\<lambda>mig. moved_signal now mig (sub_subType (w_subs w r)))
        (filter (\<lambda>mig. r \<in> set (findAffectedSubscriptions (mig_hashslot mig) w)) (g # migs)) else [])" for r
  proof (cases "r \<in> set (findAffectedSubscriptions (mig_hashslot g) w)")
    case True
    then have "filter (\<lambda>mig. r \<in> set (findAffectedSubscriptions (mig_hashslot mig) w)) migs = []"
    proof -
      have "mig_hashslot mig \<noteq> mig_hashslot g" if "mig \<in> set migs" for mig
        using Cons.prems(3) imageI [OF that, of mig_hashslot] by auto
      with True slot show ?thesis unfolding filter_empty_conv by metis
    qed
    then show ?thesis using True IH one Cons.prems(3) quiet_affected [OF dv(3)] by simp
  next
    case False
    then have "w_subs v r = w_subs w r" using one by blast
    then have "queue_full v r = queue_full w r" by (simp add: queue_full_def)
    with False IH one Cons.prems(3) quiet_affected [OF dv(3)] dv(3) show ?thesis by (simp add: quiet_def)
  qed
  then show ?case using IH Cons.prems(3) quiet_trans [OF dv(3)] by simp
qed

subsection \<open>Refresh\<close>

lemma launch_world: "snd (recover_loop groups (mo, w)) = v \<Longrightarrow> w_subs v = w_subs w \<and> w_workerPool v = w_workerPool w
  \<and> w_panicked v = w_panicked w \<and> w_topology v = w_topology w"
proof (induction groups arbitrary: mo w)
  case (Cons g groups)
  obtain hs subs where g: "g = (hs, subs)" by (cases g)
  show ?case
  proof (cases "ts_getNodeForHashslot hs (w_topology w)")
    case None
    then show ?thesis using Cons g by simp
  next
    case (Some n)
    let ?u = "record_metric MigrationStarted (w\<lparr>w_pool := invalidateHashslot hs (w_pool w)\<rparr>)"
    have u: "w_subs ?u = w_subs w" "w_workerPool ?u = w_workerPool w" "w_panicked ?u = w_panicked w" "w_topology ?u = w_topology w"
      by (simp_all add: record_metric_def)
    show ?thesis
    proof (cases "mo_done mo")
      case True
      then have "v = ?u" using Cons.prems Some by (auto simp: g Let_def)
      then show ?thesis by (simp only: u simp_thms)
    next
      case False
      then have "snd (recover_loop groups (launch subs \<lparr>mig_hashslot = hs, mig_oldNode = [], mig_newNode = n\<rparr> mo, ?u)) = v"
        using Cons.prems Some by (simp add: g Let_def)
      from Cons.IH [OF this] show ?thesis by (simp only: u simp_thms)
    qed
  qed
qed simp

lemma topo_inv_new_state: "topo_inv (new_state slots out)"
  by (simp add: new_state_def Let_def topo_inv_update topo_inv_enrich split: sum.split)

lemma filter_hashslot:
  assumes "distinct (map mig_hashslot migs)" and "mig \<in> set migs"
  shows "filter (\<lambda>m. mig_hashslot m = mig_hashslot mig) migs = [mig]"
  using assms
proof (induction migs)
  case (Cons m migs)
  have "mig_hashslot x \<noteq> mig_hashslot m" if "x \<in> set migs" for x
    using Cons.prems(1) imageI [OF that, of mig_hashslot] by auto
  with Cons show ?case by (cases "mig = m") (auto simp: filter_empty_conv)
qed simp

subsection \<open>Supervision of migration goroutines\<close>

inductive mon_step :: "monitor \<Rightarrow> monitor \<Rightarrow> bool" where
  launched: "mon_step mo (launch subs mig mo)"
| returned: "(h, subs, mig) \<in> set (mo_running mo) \<Longrightarrow> mon_step mo (migration_returns h (mig_hashslot mig) mo)"
| stopped: "mon_step mo (mo\<lparr>mo_done := True\<rparr>)"

text \<open>The migration goroutines that run and have not been told to stop.\<close>

definition live_migrations :: "int \<Rightarrow> monitor \<Rightarrow> nat list" where
  "live_migrations hs mo = map fst (filter (\<lambda>(h, subs, mig). mig_hashslot mig = hs \<and> h \<notin> set (mo_cancelled mo)) (mo_running mo))"

definition mon_inv :: "monitor \<Rightarrow> bool" where
  "mon_inv mo \<longleftrightarrow> distinct (map fst (mo_running mo)) \<and> (\<forall>(h, subs, mig) \<in> set (mo_running mo). h < mo_nextHandle mo)
     \<and> (\<forall>h \<in> set (mo_cancelled mo). h < mo_nextHandle mo)
     \<and> (\<forall>h subs mig. (h, subs, mig) \<in> set (mo_running mo) \<longrightarrow> h \<notin> set (mo_cancelled mo) \<longrightarrow>
          map_of (mo_activeMigrations mo) (mig_hashslot mig) = Some h)
     \<and> (\<forall>hs h. map_of (mo_activeMigrations mo) hs = Some h \<longrightarrow> h < mo_nextHandle mo)"

lemma mon_inv_launch:
  assumes "mon_inv mo"
  shows "mon_inv (launch subs mig mo)"
proof -
  let ?c = "case map_of (mo_activeMigrations mo) (mig_hashslot mig) of None \<Rightarrow> [] | Some prev \<Rightarrow> [prev]"
  have l: "mo_running (launch subs mig mo) = mo_running mo @ [(mo_nextHandle mo, subs, mig)]"
    "mo_cancelled (launch subs mig mo) = mo_cancelled mo @ ?c" "mo_nextHandle (launch subs mig mo) = Suc (mo_nextHandle mo)"
    "map_of (mo_activeMigrations (launch subs mig mo)) = (map_of (mo_activeMigrations mo))(mig_hashslot mig \<mapsto> mo_nextHandle mo)"
    by (simp_all add: launch_def Let_def update_conv' split: option.split)
  have lt: "h < mo_nextHandle mo" if "(h, s, m) \<in> set (mo_running mo)" for h s m using assms that by (auto simp: mon_inv_def)
  have act: "map_of (mo_activeMigrations mo) (mig_hashslot m) = Some h"
    if "(h, s, m) \<in> set (mo_running mo)" "h \<notin> set (mo_cancelled mo)" for h s m
    using assms that by (auto simp: mon_inv_def)
  have fresh: "mo_nextHandle mo \<notin> set (mo_cancelled mo)" "mo_nextHandle mo \<notin> set ?c"
    using assms unfolding mon_inv_def by (blast, cases "map_of (mo_activeMigrations mo) (mig_hashslot mig)") auto
  have active: "map_of (mo_activeMigrations (launch subs mig mo)) (mig_hashslot m) = Some h"
    if "(h, s, m) \<in> set (mo_running (launch subs mig mo))" "h \<notin> set (mo_cancelled (launch subs mig mo))" for h s m
    using that act [of h s m] unfolding l by (auto split: option.splits)
  show ?thesis unfolding mon_inv_def
  proof (intro conjI)
    show "distinct (map fst (mo_running (launch subs mig mo)))" using assms lt unfolding l by (force simp: mon_inv_def)
    show "\<forall>(h, s, m) \<in> set (mo_running (launch subs mig mo)). h < mo_nextHandle (launch subs mig mo)"
      using lt unfolding l by (auto intro: less_SucI)
    show "\<forall>h \<in> set (mo_cancelled (launch subs mig mo)). h < mo_nextHandle (launch subs mig mo)"
      using assms unfolding l by (auto simp: mon_inv_def less_Suc_eq split: option.splits)
    show "\<forall>h s m. (h, s, m) \<in> set (mo_running (launch subs mig mo)) \<longrightarrow> h \<notin> set (mo_cancelled (launch subs mig mo)) \<longrightarrow>
        map_of (mo_activeMigrations (launch subs mig mo)) (mig_hashslot m) = Some h" using active by blast
    show "\<forall>hs h. map_of (mo_activeMigrations (launch subs mig mo)) hs = Some h \<longrightarrow> h < mo_nextHandle (launch subs mig mo)"
      using assms unfolding l by (auto simp: mon_inv_def less_Suc_eq)
  qed
qed

lemma mon_inv_returns:
  assumes "mon_inv mo"
  shows "mon_inv (migration_returns h hs mo)"
proof -
  have l: "mo_running (migration_returns h hs mo) = filter (\<lambda>(h', _). h' \<noteq> h) (mo_running mo)"
    "mo_cancelled (migration_returns h hs mo) = mo_cancelled mo" "mo_nextHandle (migration_returns h hs mo) = mo_nextHandle mo"
    "map_of (mo_activeMigrations (migration_returns h hs mo)) =
       (if map_of (mo_activeMigrations mo) hs = Some h then (map_of (mo_activeMigrations mo))(hs := None) else map_of (mo_activeMigrations mo))"
    by (simp_all add: migration_returns_def Let_def delete_conv')
  have act: "map_of (mo_activeMigrations (migration_returns h hs mo)) (mig_hashslot m) = Some h'"
    if "(h', s, m) \<in> set (mo_running mo)" "h' \<noteq> h" "h' \<notin> set (mo_cancelled mo)" for h' s m
  proof -
    have "map_of (mo_activeMigrations mo) (mig_hashslot m) = Some h'" using assms that by (auto simp: mon_inv_def)
    with that(2) show ?thesis unfolding l by auto
  qed
  have "distinct (map fst (mo_running (migration_returns h hs mo)))"
    using assms unfolding l by (intro distinct_map_filter) (simp add: mon_inv_def)
  moreover have "\<forall>hs' h'. map_of (mo_activeMigrations (migration_returns h hs mo)) hs' = Some h' \<longrightarrow> h' < mo_nextHandle mo"
    using assms unfolding l by (auto simp: mon_inv_def split: if_splits)
  ultimately show ?thesis using assms act unfolding mon_inv_def l(2,3) by (auto simp: l(1))
qed

lemma mon_inv_step: "mon_step mo mo' \<Longrightarrow> mon_inv mo \<Longrightarrow> mon_inv mo'"
  by (induction rule: mon_step.induct) (auto simp: mon_inv_launch mon_inv_returns, auto simp: mon_inv_def)

interpretation monsys: transition_system "\<lambda>mo. mo = newTopologyMonitor" mon_step mon_inv
proof unfold_locales
  show "mon_inv mo" if "mo = newTopologyMonitor" for mo using that by (simp add: mon_inv_def newTopologyMonitor_def)
  show "mon_inv t" if "mon_inv s" "mon_step s t" for s t using mon_inv_step that by blast
qed

subsection \<open>Accounting of the resubscription pass\<close>

lemma resub_one_counts:
  "resub_one c ty ch ps sub (w, tasks, n) = (w', tasks', n') \<Longrightarrow> n' + length tasks' = Suc (n + length tasks)"
  by (auto simp: resub_one_def Let_def split: option.splits if_splits)

lemma resub_subs_counts:
  "resub_subs c ty ch ps subs k (w, tasks, n) = (w', tasks', n') \<Longrightarrow> n' + length tasks' = n + length tasks + length subs"
proof (induction subs arbitrary: k w tasks n)
  case (Cons x subs)
  obtain v t m where one: "resub_one (c k) ty ch ps x (w, tasks, n) = (v, t, m)" by (cases "resub_one (c k) ty ch ps x (w, tasks, n)")
  with Cons.prems have "resub_subs c ty ch ps subs (Suc k) (v, t, m) = (w', tasks', n')" by simp
  from Cons.IH [OF this] resub_one_counts [OF one] show ?case by simp
qed simp

lemma resub_groups_counts:
  "resub_groups c conn i gs (w, tasks, n) = (w', tasks', n') \<Longrightarrow> \<forall>j. \<not> c j 1 \<Longrightarrow>
   n' + length tasks' = n + length tasks + length (all_slices gs)"
proof (induction gs arbitrary: i w tasks n)
  case (Cons g gs)
  obtain ty ch subs where g: "g = ((ty, ch), subs)" by (metis prod.collapse)
  obtain w1 r where c1: "conn i w = (w1, r)" by fastforce
  obtain v t m where one: "resub_subs (c i) ty ch (projr r) subs 2 (w1, tasks, n) = (v, t, m)"
    by (cases "resub_subs (c i) ty ch (projr r) subs 2 (w1, tasks, n)")
  have all: "length (all_slices (g # gs)) = length subs + length (all_slices gs)" by (simp add: all_slices_def g)
  consider "c i 0" | e where "\<not> c i 0" "r = Inl e" | p where "\<not> c i 0" "r = Inr p" by (cases r) auto
  then show ?case
  proof cases
    case 1
    with Cons.prems have "resub_groups c conn (Suc i) gs (w, tasks, n + length subs) = (w', tasks', n')" by (simp add: g)
    from Cons.IH [OF this Cons.prems(2)] show ?thesis unfolding all by simp
  next
    case 2
    with Cons.prems c1 have "resub_groups c conn (Suc i) gs (w1, tasks, n + length subs) = (w', tasks', n')" by (simp add: g)
    from Cons.IH [OF this Cons.prems(2)] show ?thesis unfolding all by simp
  next
    case 3
    with Cons.prems c1 one have "resub_groups c conn (Suc i) gs (v, t, m) = (w', tasks', n')" by (simp add: g)
    from Cons.IH [OF this Cons.prems(2)] resub_subs_counts [OF one] show ?thesis unfolding all by simp
  qed
qed (simp add: all_slices_def)

lemma length_append_at: "wf_gomap m \<Longrightarrow> length (all_slices (append_at k x m)) = Suc (length (all_slices m))"
proof (induction m)
  case Nil
  then show ?case by (simp add: append_at_def all_slices_def)
next
  case (Cons e m)
  obtain k' xs where e: "e = (k', xs)" by (cases e)
  have "append_at k x (e # m) = (if k' = k then (k, xs @ [x]) # m else e # append_at k x m)"
    by (simp add: append_at_def e slice_at_def)
  moreover have "wf_gomap m" using Cons.prems by (simp add: wf_gomap_def e)
  ultimately show ?case using Cons.IH by (simp add: all_slices_def e)
qed

lemma length_nested_groups:
  "length (all_slices (nested_groups m)) = sum_list (map (length \<circ> all_slices \<circ> snd) m)"
  by (induction m) (auto simp: nested_groups_def all_slices_def comp_def case_prod_beta)

lemma sum_update:
  assumes "wf_gomap m" and "f [] = (0::nat)"
  shows "sum_list (map (f \<circ> snd) (AList.update k v m)) + f (slice_at m k) = sum_list (map (f \<circ> snd) m) + f v"
  using assms by (induction m) (auto simp: slice_at_def wf_gomap_def)

lemma length_channelsByType: "length (all_slices (nested_groups (channelsByType subs w))) = length subs"
proof -
  let ?f = "length \<circ> all_slices :: (string, sub_ref list) gomap \<Rightarrow> nat"
  let ?add = "\<lambda>s m. AList.update (sub_subType (w_subs w s))
             (append_at (sub_channel (w_subs w s)) s (slice_at m (sub_subType (w_subs w s)))) m"
  have one: "wf_gomap (?add s m) \<and> (\<forall>ty. wf_gomap (slice_at (?add s m) ty))
      \<and> sum_list (map (?f \<circ> snd) (?add s m)) = Suc (sum_list (map (?f \<circ> snd) m))"
    if "wf_gomap m" "\<forall>ty. wf_gomap (slice_at m ty)" for s m
  proof -
    let ?ty = "sub_subType (w_subs w s)" and ?ch = "sub_channel (w_subs w s)"
    have "?f (append_at ?ch s (slice_at m ?ty)) = Suc (?f (slice_at m ?ty))"
      using that by (simp add: length_append_at)
    moreover have "sum_list (map (?f \<circ> snd) (?add s m)) + ?f (slice_at m ?ty) =
        sum_list (map (?f \<circ> snd) m) + ?f (append_at ?ch s (slice_at m ?ty))"
      by (rule sum_update [OF that(1)]) (simp add: all_slices_def)
    moreover have "slice_at (?add s m) ty = (if ty = ?ty then append_at ?ch s (slice_at m ?ty) else slice_at m ty)" for ty
      by (simp add: slice_at_def update_conv')
    then have "wf_gomap (slice_at (?add s m) ty)" for ty using that(2) by (simp add: wf_gomap_append_at)
    ultimately show ?thesis using that(1) by (simp add: wf_gomap_def distinct_update)
  qed
  have "wf_gomap m \<Longrightarrow> \<forall>ty. wf_gomap (slice_at m ty) \<Longrightarrow>
      sum_list (map (?f \<circ> snd) (fold ?add subs m)) = sum_list (map (?f \<circ> snd) m) + length subs" for m
  proof (induction subs arbitrary: m)
    case (Cons s subs)
    from one [OF Cons.prems, of s] show ?case using Cons.IH [of "?add s m"] by (simp add: comp_def)
  qed simp
  from this [of "[]"] show ?thesis
    by (simp add: length_nested_groups channelsByType_def wf_gomap_def slice_at_def)
qed

subsection \<open>Which migrations concern a subscription\<close>

lemma detected_for_subscription:
  fixes new old
  defines "migs \<equiv> compareAndDetectChanges new old"
  assumes wf: "wf_gomap (ts_hashslotToNode new)" "wf_gomap (ts_hashslotToNode old)"
  shows "filter (\<lambda>m. r \<in> set (findAffectedSubscriptions (mig_hashslot m) w)) migs =
      (if r \<in> set (findAffectedSubscriptions (sub_hashslot (w_subs w r)) w)
          \<and> ts_getNodeForHashslot (sub_hashslot (w_subs w r)) new \<noteq> ts_getNodeForHashslot (sub_hashslot (w_subs w r)) old
       then [slot_change new old (sub_hashslot (w_subs w r))] else [])"
proof -
  let ?hs = "sub_hashslot (w_subs w r)"
  note set = compare_set [OF wf, folded migs_def] and dist = compare_distinct [OF wf, folded migs_def]
  have "filter (\<lambda>m. r \<in> set (findAffectedSubscriptions (mig_hashslot m) w)) migs =
      filter (\<lambda>m. r \<in> set (findAffectedSubscriptions ?hs w) \<and> mig_hashslot m = ?hs) migs"
    by (rule filter_cong) (auto simp: findAffectedSubscriptions_def)
  moreover have "filter (\<lambda>m. mig_hashslot m = ?hs) migs =
      (if ts_getNodeForHashslot ?hs new \<noteq> ts_getNodeForHashslot ?hs old then [slot_change new old ?hs] else [])"
  proof (cases "ts_getNodeForHashslot ?hs new \<noteq> ts_getNodeForHashslot ?hs old")
    case True
    then have "slot_change new old ?hs \<in> set migs" using set by blast
    from filter_hashslot [OF dist this] True show ?thesis by (simp add: slot_change_def)
  next
    case False
    then have "m \<in> set migs \<Longrightarrow> mig_hashslot m \<noteq> ?hs" for m using set by (auto simp: slot_change_def)
    with False show ?thesis by (simp add: filter_empty_conv)
  qed
  ultimately show ?thesis by (cases "r \<in> set (findAffectedSubscriptions ?hs w)") auto
qed

section \<open>Properties\<close>



text \<open>C21. Cancel and replace: however refreshes start migrations and migration goroutines return, at most one
  migration goroutine per hashslot is running uncancelled, and it is the one the monitor has on record.\<close>

theorem one_live_migration_per_slot:
  assumes "mon_step\<^sup>*\<^sup>* newTopologyMonitor mo"
  shows "length (live_migrations hs mo) \<le> 1
    \<and> (\<forall>h \<in> set (live_migrations hs mo). map_of (mo_activeMigrations mo) hs = Some h)"
proof -
  have inv: "mon_inv mo" by (rule monsys.inv_reachable [OF refl assms])
  have act: "h \<in> set (live_migrations hs mo) \<Longrightarrow> map_of (mo_activeMigrations mo) hs = Some h" for h
    using inv by (auto simp: live_migrations_def mon_inv_def)
  have d: "distinct (live_migrations hs mo)"
    using inv unfolding live_migrations_def mon_inv_def by (intro distinct_map_filter) blast
  have "length (live_migrations hs mo) \<le> 1"
  proof (rule ccontr)
    assume "\<not> length (live_migrations hs mo) \<le> 1"
    then obtain a b xs where "live_migrations hs mo = a # b # xs" by (cases "live_migrations hs mo" rule: remdups_adj.cases) auto
    with d act [of a] act [of b] show False by auto
  qed
  with act show ?thesis by blast
qed

theorem one_live_migration_per_slot_witness:
  "length (live_migrations 7 (launch [4] \<lparr>mig_hashslot = 7, mig_oldNode = [], mig_newNode = ''b''\<rparr>
     (launch [4] \<lparr>mig_hashslot = 7, mig_oldNode = [], mig_newNode = ''a''\<rparr> newTopologyMonitor))) \<le> 1"
proof -
  let ?m = "\<lambda>n. \<lparr>mig_hashslot = 7, mig_oldNode = [], mig_newNode = n\<rparr>"
  have "mon_step\<^sup>*\<^sup>* newTopologyMonitor (launch [4] (?m ''b'') (launch [4] (?m ''a'') newTopologyMonitor))"
    by (meson mon_step.launched converse_rtranclp_into_rtranclp r_into_rtranclp)
  from one_live_migration_per_slot [OF this, of 7] show ?thesis by blast
qed

text \<open>The resubscription pass accounts for every subscription of the migration exactly once: unless it is
  cut short after a failed connection attempt, the progress counter and the command goroutines (each of
  which counts once when it ends) add up to the number of subscriptions, so the progress monitor can see
  completion.\<close>

theorem resubscription_accounted:
  assumes "resubscribeOnNewNode ctxDone conn subs mig w = (w', tasks, processed)" and "\<forall>i. \<not> ctxDone i 1"
  shows "processed + length tasks = length subs"
  using resub_groups_counts [of ctxDone conn 0 "nested_groups (channelsByType subs w)"] assms
  by (fastforce simp: resubscribeOnNewNode_def length_channelsByType)

theorem resubscription_accounted_witness:
  "snd (snd (resubscribeOnNewNode (\<lambda>i k. k = 0) (\<lambda>i w. (w, Inl ContextCanceled)) [4, 5]
     \<lparr>mig_hashslot = 7, mig_oldNode = [], mig_newNode = ''a''\<rparr> world1)) +
   length (fst (snd (resubscribeOnNewNode (\<lambda>i k. k = 0) (\<lambda>i w. (w, Inl ContextCanceled)) [4, 5]
     \<lparr>mig_hashslot = 7, mig_oldNode = [], mig_newNode = ''a''\<rparr> world1))) = 2"
proof -
  let ?r = "resubscribeOnNewNode (\<lambda>i k. k = 0) (\<lambda>i w. (w, Inl ContextCanceled)) [4, 5]
     \<lparr>mig_hashslot = 7, mig_oldNode = [], mig_newNode = ''a''\<rparr> world1"
  obtain w' t p where r: "?r = (w', t, p)" by (cases ?r)
  from resubscription_accounted [OF this] show ?thesis by (simp add: r)
qed

text \<open>The migration context outlives the timeout it supervises: for all configurations whose durations do
  not overflow, its deadline lies at least one second and at least two stall-check intervals beyond the
  migration timeout.\<close>

theorem deadline_leaves_headroom:
  assumes "config_ok cfg" and "cfg_migrationTimeout cfg + 2 * cfg_migrationStallCheck cfg + Second \<le> maxInt64"
  shows "ctxDeadline cfg \<ge> cfg_migrationTimeout cfg + Second
    \<and> ctxDeadline cfg \<ge> cfg_migrationTimeout cfg + 2 * cfg_migrationStallCheck cfg"
proof -
  have pos: "cfg_migrationTimeout cfg \<ge> 1000000000" "cfg_migrationStallCheck cfg \<ge> 100000000"
    using assms(1) by (simp_all add: config_ok_def Second_def Millisecond_def)
  have s: "wrap64 (2 * cfg_migrationStallCheck cfg) = 2 * cfg_migrationStallCheck cfg"
    using assms(2) pos by (intro wrap64_in_range) (simp_all add: maxInt64_def Second_def)
  have "wrap64 (cfg_migrationTimeout cfg + max (2 * cfg_migrationStallCheck cfg) Second) =
      cfg_migrationTimeout cfg + max (2 * cfg_migrationStallCheck cfg) Second"
    using assms(2) pos by (intro wrap64_in_range) (simp_all add: maxInt64_def Second_def max_def)
  then show ?thesis by (simp add: ctxDeadline_def s Let_def)
qed

theorem deadline_leaves_headroom_witness:
  "ctxDeadline defaultConfig \<ge> 31 * Second"
  using deadline_leaves_headroom [of defaultConfig] config_ok_default
  by (simp add: defaultConfig_def maxInt64_def Second_def)

text \<open>A very long migration timeout makes the context expire at once: within one second of the largest
  duration the sum wraps around and the deadline is in the past.\<close>

theorem deadline_overflows:
  assumes "maxInt64 - Second < cfg_migrationTimeout cfg" and "cfg_migrationTimeout cfg \<le> maxInt64"
    and "cfg_migrationStallCheck cfg = 2 * Second"
  shows "ctxDeadline cfg < 0"
proof -
  let ?n = "cfg_migrationTimeout cfg + 4 * Second"
  have "max (wrap64 (2 * cfg_migrationStallCheck cfg)) Second = 4 * Second"
    using assms(3) wrap64_in_range [of "4 * Second"] by (simp add: Second_def maxInt64_def)
  then have d: "ctxDeadline cfg = wrap64 ?n" by (simp add: ctxDeadline_def Let_def)
  have "wrap64 ?n = wrap64 (?n - 2 ^ 64)"
    by (rule wrap64_period)
  also have "\<dots> = ?n - 2 ^ 64"
    using assms(1,2) by (intro wrap64_in_range) (simp_all add: maxInt64_def Second_def)
  finally show ?thesis using d assms(2) by (simp add: maxInt64_def Second_def)
qed

theorem deadline_overflows_witness:
  "ctxDeadline (WithMigrationTimeout maxInt64 defaultConfig) < 0"
  by (rule deadline_overflows)
     (simp_all add: WithMigrationTimeout_def defaultConfig_def maxInt64_def Second_def)


text \<open>A second connection without subscriptions beside the one of the first concrete world.\<close>

definition world2 :: world where
  "world2 = world1\<lparr>w_metas := (w_metas world1)(3 := newMetadata ''n:2''),
     w_pool := (w_pool world1)\<lparr>pl_pubSubMetadata := [(2, 2), (3, 3)]\<rparr>\<rparr>"


end
