(* ===== verification/Client.thy ===== *)
theory Client
  imports Monitor
begin

text \<open>
  The exported calls of \<open>submux.go\<close> as wholes: \<open>New\<close>, the three \<open>Sync\<close> methods over \<open>subscribe\<close>, and
  \<open>Unsubscribe\<close>. They compose the parts of the earlier theories at their waits; what the other goroutines
  do during a wait is an argument, a function on the state. \<open>None\<close> means that a wait does not end.
\<close>

section \<open>Construction\<close>

text \<open>The SubMux that \<open>New\<close> returns, with no object allocated yet, and its monitor.\<close>

definition New ::
  "nat \<Rightarrow> bool \<Rightarrow> (config \<Rightarrow> config) list \<Rightarrow> goerror + monitor \<times> world" where
  "New numCPU clusterClientNil opts =
     (if clusterClientNil then Inl (Wrapf [] ErrInvalidClusterClient)
      else (let cfg = applyOptions opts;
                (workerPool, _) = Start (NewWorkerPool numCPU (cfg_callbackWorkers cfg) (cfg_callbackQueueSize cfg))
            in Inr (newTopologyMonitor,
                 \<lparr>w_subs = (\<lambda>_. newSubscription [] subTypeSubscribe None 0 0 0), w_metas = (\<lambda>_. newMetadata []),
                  w_responses = (\<lambda>_. []), w_next = 1, w_pool = newPubSubPool, w_subscriptions = [], w_closed = False,
                  w_lifecycleDone = False, w_config = cfg, w_topology = newTopologyState, w_workerPool = Some workerPool,
                  w_goDrains = [], w_blocked = [], w_signals = [], w_wg = 0, w_metrics = [], w_refreshes = [],
                  w_psCloses = [], w_panicked = False\<rparr>)))"

section \<open>Whole calls\<close>

text \<open>
  What one call of \<open>subscribeToChannel\<close> meets: the caller's context (its name, its error at the start and
  at the waits), the answers of the cluster, random choices, the result of another goroutine's pending
  connection, and what the other goroutines do while the call waits for a connection, for room in the
  command channel and for the confirmation.
\<close>

record call_env =
  ce_ctx :: "ctx_ref option"
  ce_ctxErr :: "goerror option"
  ce_refresh :: "world \<Rightarrow> world"
  ce_slots :: "goerror + ClusterSlot list"
  ce_rnd :: nat
  ce_pick :: nat
  ce_pending :: "ps_ref option \<times> goerror option"
  ce_connecting :: "world \<Rightarrow> world"
  ce_sending :: "world \<Rightarrow> world"
  ce_waiting :: "world \<Rightarrow> world"
  ce_ctxErrLater :: "goerror option"

text \<open>From a wait for a confirmation on.\<close>

definition confirm_call :: "call_env \<Rightarrow> sub_ref \<Rightarrow> meta_ref \<Rightarrow> world \<Rightarrow> (world \<times> sub_progress) option" where
  "confirm_call e sub mr w =
     (let w1 = ce_waiting e w
      in case waitForConfirmation (ce_pick e) (ce_ctxErrLater e) (w_subs w1 sub) of
           None \<Rightarrow> None
         | Some (s, result) \<Rightarrow> Some (finish_confirm sub mr result (upd_sub sub (\<lambda>_. s) w1)))"

text \<open>From any wait of \<open>subscribeToChannel\<close> after the registration on.\<close>

definition progress_call :: "call_env \<Rightarrow> sub_progress \<Rightarrow> world \<Rightarrow> (world \<times> sub_progress) option" where
  "progress_call e pr w = (case pr of
       SubFails err \<Rightarrow> Some (w, SubFails err)
     | SubSucceeds sub \<Rightarrow> Some (w, SubSucceeds sub)
     | WaitConfirm sub mr \<Rightarrow> confirm_call e sub mr w
     | WaitOther sub mr pending ch \<Rightarrow>
         (let w1 = ce_waiting e w
          in case waitForActive_wait (ce_pick e) (ce_ctxErrLater e) ch (w_subs w1 pending) of
               None \<Rightarrow> None
             | Some result \<Rightarrow> Some (finish_other sub mr pending result w1))
     | SendBlocks sub mr cmd \<Rightarrow>
         (let w1 = ce_sending e w
          in case sendCommand (ce_pick e) (ce_ctxErrLater e) cmd (w_metas w1 mr) of
               None \<Rightarrow> None
             | Some (m, result) \<Rightarrow>
                 (case after_sendCommand sub mr result (upd_meta mr (\<lambda>_. m) w1) of
                    (w2, WaitConfirm sub' mr') \<Rightarrow> confirm_call e sub' mr' w2
                  | (w2, other) \<Rightarrow> Some (w2, other))))"

text \<open>The whole call: an error or the internal subscription.\<close>

definition subscribeToChannel_call ::
  "call_env \<Rightarrow> string \<Rightarrow> subscriptionType \<Rightarrow> string \<Rightarrow> callback_ref \<Rightarrow> int \<Rightarrow> world \<Rightarrow> (world \<times> (goerror + sub_ref)) option" where
  "subscribeToChannel_call e channel subType cmdName callback queueLimit w =
     (let (w1, start) = subscribeToChannel (ce_refresh e) (ce_slots e) (ce_rnd e) (ce_pick e) (ce_ctx e) (ce_ctxErr e)
            channel subType cmdName callback queueLimit w;
          (w2, pr) = (case start of
              Inl pr \<Rightarrow> (w1, pr)
            | Inr (pending, hashslot) \<Rightarrow>
                (let v = ce_connecting e w1
                 in case await_finished hashslot (ce_pending e) (w_pool v) of
                      (p, Inr (Some pubsub)) \<Rightarrow>
                        after_connection (ce_pick e) (ce_ctx e) (ce_ctxErrLater e) channel subType cmdName callback
                          queueLimit hashslot pubsub (v\<lparr>w_pool := p\<rparr>)
                    | (p, Inr None) \<Rightarrow> (v\<lparr>w_pool := p\<rparr>, SubFails (Errorf ''no metadata found for PubSub''))
                    | (p, Inl err) \<Rightarrow> (v\<lparr>w_pool := p\<rparr>,
                        SubFails (Wrapf (''failed to get PubSub for hashslot '' @ showInt hashslot @ '': '') err))))
      in case progress_call e pr w2 of
           Some (w3, SubFails err) \<Rightarrow> Some (w3, Inl err)
         | Some (w3, SubSucceeds sub) \<Rightarrow> Some (w3, Inr sub)
         | _ \<Rightarrow> None)"

text \<open>Phases 2 and 3 of \<open>unsubscribeSubscription\<close>: \<open>others k\<close> is what happens during the \<open>k\<close>-th wait.\<close>

fun unsub_waits ::
  "(nat \<Rightarrow> world \<Rightarrow> world) \<Rightarrow> nat \<Rightarrow> goerror option \<Rightarrow> nat \<Rightarrow> pendingUnsub list \<Rightarrow> world \<times> goerror option \<Rightarrow>
   (world \<times> goerror option) option" where
  "unsub_waits others pick ctxErr k [] acc = Some acc"
| "unsub_waits others pick ctxErr k (p # ps) (w, firstErr) =
     (case unsub_wait pick ctxErr p (others k w) of
        None \<Rightarrow> None
      | Some (w1, err) \<Rightarrow>
          unsub_waits others pick ctxErr (Suc k) ps (w1, if err \<noteq> None \<and> firstErr = None then err else firstErr))"

definition unsubscribeSubscription ::
  "(nat \<Rightarrow> world \<Rightarrow> world) \<Rightarrow> nat \<Rightarrow> goerror option \<Rightarrow> sub_ref list \<Rightarrow> world \<Rightarrow> (world \<times> goerror option) option" where
  "unsubscribeSubscription others pick ctxErr subs w =
     (case unsubscribe_start pick subs w of
        None \<Rightarrow> None
      | Some (w1, Inl result) \<Rightarrow> Some (w1, result)
      | Some (w1, Inr (firstErr, pending)) \<Rightarrow> unsub_waits others pick ctxErr 0 pending (w1, firstErr))"

text \<open>\<open>Unsubscribe\<close>; \<open>None\<close>: a nil handle or one without a SubMux.\<close>

definition Unsubscribe ::
  "(nat \<Rightarrow> world \<Rightarrow> world) \<Rightarrow> nat \<Rightarrow> goerror option \<Rightarrow> sub_ref list option \<Rightarrow> world \<Rightarrow> (world \<times> goerror option) option" where
  "Unsubscribe others pick ctxErr handle w =
     (case handle of None \<Rightarrow> Some (w, None) | Some subs \<Rightarrow> unsubscribeSubscription others pick ctxErr subs w)"

text \<open>The loop of \<open>subscribe\<close>, with one environment per channel: the subscriptions obtained and the failure
  that ended it, if any.\<close>

fun subscribe_loop ::
  "(nat \<Rightarrow> call_env) \<Rightarrow> subscriptionType \<Rightarrow> string \<Rightarrow> callback_ref \<Rightarrow> int \<Rightarrow> nat \<Rightarrow> string list \<Rightarrow> sub_ref list \<Rightarrow> world \<Rightarrow>
   (world \<times> sub_ref list \<times> (string \<times> goerror) option) option" where
  "subscribe_loop es subType cmdName callback limit i [] subs w = Some (w, subs, None)"
| "subscribe_loop es subType cmdName callback limit i (channel # channels) subs w =
     (case subscribeToChannel_call (es i) channel subType cmdName callback limit w of
        None \<Rightarrow> None
      | Some (w1, Inl err) \<Rightarrow> Some (w1, subs, Some (channel, err))
      | Some (w1, Inr sub) \<Rightarrow>
          subscribe_loop es subType cmdName callback limit (Suc i) channels (subs @ [sub]) w1)"

text \<open>\<open>cleanup\<close> is what happens during the waits of the clean-up after a failure, \<open>pick\<close> its choices.\<close>

definition subscribe ::
  "(nat \<Rightarrow> call_env) \<Rightarrow> (nat \<Rightarrow> world \<Rightarrow> world) \<Rightarrow> nat \<Rightarrow> string list \<Rightarrow> subscriptionType \<Rightarrow> callback_ref \<Rightarrow>
   (subscribeConfig \<Rightarrow> subscribeConfig) list \<Rightarrow> world \<Rightarrow> (world \<times> (goerror + sub_ref list)) option" where
  "subscribe es cleanup pick channels subType callback opts w =
     (case subscribe_guards channels subType w of
        Some err \<Rightarrow> Some (w, Inl err)
      | None \<Rightarrow>
          (case subscribe_loop es subType (subscribeCommandName subType) callback
                  (effectiveQueueLimit (w_config w) opts) 0 channels [] w of
             None \<Rightarrow> None
           | Some (w1, subs, None) \<Rightarrow> Some (w1, Inr subs)
           | Some (w1, subs, Some (channel, err)) \<Rightarrow>
               (case unsubscribeSubscription cleanup pick None subs w1 of
                  None \<Rightarrow> None
                | Some (w2, _) \<Rightarrow> Some (w2, Inl (Wrapf (''failed to subscribe to channel '' @ channel @ '': '') err)))))"

definition SubscribeSync where
  "SubscribeSync es cleanup pick channels callback opts w =
     subscribe es cleanup pick channels subTypeSubscribe callback opts w"

definition PSubscribeSync where
  "PSubscribeSync es cleanup pick patterns callback opts w =
     subscribe es cleanup pick patterns subTypePSubscribe callback opts w"

definition SSubscribeSync where
  "SSubscribeSync es cleanup pick patterns callback opts w =
     subscribe es cleanup pick patterns subTypeSSubscribe callback opts w"

section \<open>Lemmas\<close>

subsection \<open>Subscriptions keep their identity\<close>

text \<open>The fields of a subscription that are set at its creation only.\<close>

definition identity :: "subscription \<Rightarrow> string \<times> subscriptionType \<times> callback_ref \<times> int" where
  "identity s = (sub_channel s, sub_subType s, sub_callback s, s_maxQueueSize (sub_sequencer s))"

text \<open>Later states have more objects, and the old ones keep their identity.\<close>

definition grows :: "world \<Rightarrow> world \<Rightarrow> bool" where
  "grows w w' \<longleftrightarrow> w_next w \<le> w_next w' \<and> (\<forall>r < w_next w. identity (w_subs w' r) = identity (w_subs w r))"

lemma grows_refl [simp]: "grows w w"
  by (simp add: grows_def)

lemma grows_trans: "grows u v \<Longrightarrow> grows v w \<Longrightarrow> grows u w"
  by (auto simp: grows_def)

lemma grows_same: "w_next w' = w_next w \<Longrightarrow> w_subs w' = w_subs w \<Longrightarrow> grows w w'"
  by (simp add: grows_def)

lemma identity_keep [simp]:
  "identity (setState st err s) = identity s" "identity (setPubSub ps s) = identity s"
  "identity (resetConfirmation s) = identity s" "identity (s\<lparr>sub_confirmCh := c\<rparr>) = identity s"
  by (auto simp: identity_def setState_def setPubSub_def resetConfirmation_def Let_def split: option.split)

lemma grows_upd_sub: "identity (f (w_subs w r)) = identity (w_subs w r) \<Longrightarrow> grows w (upd_sub r f w)"
  by (simp add: grows_def)

lemma grows_sub_cleanup: "grows w (sub_cleanup sub mr w)"
  by (rule grows_same) (simp_all add: sub_cleanup_def Let_def removeSubscriptionFromMap_def record_metric_def)

lemma grows_sub_success: "grows w (sub_success sub w)"
  by (rule grows_same) (simp_all add: sub_success_def record_metric_def)

text \<open>What the other goroutines are assumed to respect.\<close>

definition env_ok :: "call_env \<Rightarrow> bool" where
  "env_ok e \<longleftrightarrow> (\<forall>w. grows w (ce_refresh e w) \<and> grows w (ce_connecting e w) \<and> grows w (ce_sending e w) \<and> grows w (ce_waiting e w))"

lemma grows_finish_confirm: "finish_confirm sub mr result w = (w', pr) \<Longrightarrow> grows w w'"
  by (auto simp: finish_confirm_def intro: grows_sub_cleanup grows_sub_success split: option.splits if_splits)

lemma grows_finish_other: "finish_other sub mr p result w = (w', pr) \<Longrightarrow> grows w w'"
  using grows_trans [OF grows_upd_sub grows_sub_success]
  by (auto simp: finish_other_def intro: grows_sub_cleanup split: option.splits if_splits)

lemma grows_upd_meta [simp]: "grows w (upd_meta mr f w)"
  by (simp add: grows_same)

lemma grows_after_send: "after_sendCommand sub mr result w = (w', pr) \<Longrightarrow> grows w w'"
  using grows_trans [OF grows_upd_meta grows_sub_cleanup]
  by (auto simp: after_sendCommand_def split: option.splits)

lemma grows_createPubSub: "createPubSubToNode node w = (w', ps) \<Longrightarrow> grows w w'"
  by (auto simp: createPubSubToNode_def grows_def record_metric_def Let_def)

lemma grows_select: "selectLeastLoadedAcrossNodes hs nodes w = (w', c) \<Longrightarrow> grows w w'"
  by (auto simp: selectLeastLoadedAcrossNodes_def createPubSubToNode_def grows_def record_metric_def Let_def
      split: prod.splits select_decision.splits)

lemma grows_getPubSub:
  assumes "\<And>v. grows v (refresh v)" and "getPubSubForHashslot refresh slots rnd hs w = (w', c)"
  shows "grows w w'"
proof -
  have pool: "grows u (v\<lparr>w_pool := p\<rparr>) \<longleftrightarrow> grows u v" for u v p by (simp add: grows_def)
  have c: "createPubSubForHashslot refresh slots rnd hs w = (w', c) \<Longrightarrow> grows w w'"
    using assms(1) [of w]
    by (auto simp: createPubSubForHashslot_def Let_def pool
        intro: grows_select grows_createPubSub grows_trans [OF assms(1) grows_createPubSub] split: if_splits sum.splits option.splits prod.splits)
  with assms(2) show ?thesis by (auto simp: getPubSubForHashslot_def split: option.splits)
qed

text \<open>The subscription that a call registers, and where it can be afterwards.\<close>

fun subject :: "sub_progress \<Rightarrow> sub_ref option" where
  "subject (SubFails err) = None"
| "subject (SubSucceeds sub) = Some sub"
| "subject (WaitConfirm sub mr) = Some sub"
| "subject (WaitOther sub mr p ch) = Some sub"
| "subject (SendBlocks sub mr cmd) = Some sub"

text \<open>\<open>created\<close>: a later state in which the subject of the call is a new object with the given identity.\<close>

definition created :: "string \<times> subscriptionType \<times> callback_ref \<times> int \<Rightarrow> world \<Rightarrow> world \<Rightarrow> sub_ref option \<Rightarrow> bool" where
  "created idn w w' r \<longleftrightarrow> grows w w' \<and> (\<forall>s. r = Some s \<longrightarrow> w_next w \<le> s \<and> s < w_next w'
     \<and> identity (w_subs w' s) = idn)"

lemma created_grows: "created idn w v r \<Longrightarrow> grows v w' \<Longrightarrow> r' = r \<or> r' = None \<Longrightarrow> created idn w w' r'"
  by (auto simp: created_def grows_def)

lemma created_later: "grows w v \<Longrightarrow> created idn v w' r \<Longrightarrow> created idn w w' r"
  by (auto simp: created_def grows_def)

lemma finish_subject:
  "finish_confirm sub mr result w = (w', pr) \<Longrightarrow> subject pr \<in> {None, Some sub}"
  "finish_other sub mr p result w = (w', pr) \<Longrightarrow> subject pr \<in> {None, Some sub}"
  "after_sendCommand sub mr result w = (w', pr) \<Longrightarrow> subject pr \<in> {None, Some sub}"
  by (auto simp: finish_confirm_def finish_other_def after_sendCommand_def split: option.splits if_splits)

lemma ended_send_grows:
  assumes "(case sendCommand pick ctxErr cmd (w_metas w mr) of
      None \<Rightarrow> (w, SendBlocks sub mr cmd)
    | Some (m', result) \<Rightarrow> after_sendCommand sub mr result (upd_meta mr (\<lambda>_. m') w)) = (w', pr)"
  shows "grows w w' \<and> subject pr \<in> {None, Some sub}"
proof (cases "sendCommand pick ctxErr cmd (w_metas w mr)")
  case None
  then show ?thesis using assms grows_refl by auto
next
  case (Some x)
  obtain m' result where x: "x = (m', result)" by (cases x)
  have s: "after_sendCommand sub mr result (upd_meta mr (\<lambda>_. m') w) = (w', pr)" using assms Some x by simp
  show ?thesis using grows_trans [OF grows_upd_meta grows_after_send [OF s]] finish_subject(3) [OF s] by blast
qed

lemma later_subscriber_grows:
  assumes "(case ex of
      Some pending \<Rightarrow> (case waitForActive_enter (w_subs w pending) of
          Inl result \<Rightarrow> finish_other sub mr pending result w
        | Inr ch \<Rightarrow> (w, WaitOther sub mr pending ch))
    | None \<Rightarrow> (sub_success sub (upd_sub sub (setState subStateActive None) w), SubSucceeds sub)) = (w', pr)"
  shows "grows w w' \<and> subject pr \<in> {None, Some sub}"
proof (cases ex)
  case None
  have "grows w (sub_success sub (upd_sub sub (setState subStateActive None) w))"
    by (rule grows_trans [OF grows_upd_sub grows_sub_success]) simp
  then show ?thesis using assms None by auto
next
  case (Some p)
  show ?thesis
  proof (cases "waitForActive_enter (w_subs w p)")
    case (Inl result)
    then have "finish_other sub mr p result w = (w', pr)" using assms Some by simp
    then show ?thesis using grows_finish_other finish_subject(2) by blast
  next
    case (Inr c)
    then show ?thesis using assms Some grows_refl by auto
  qed
qed

lemma register_grows:
  assumes "register_and_send pick ctx ctxErr cmdName mr s w = (w', pr)"
  shows "grows (w\<lparr>w_next := Suc (w_next w), w_subs := (w_subs w)(w_next w := s)\<rparr>) w' \<and> subject pr \<in> {None, Some (w_next w)}"
proof -
  let ?ch = "sub_channel s"
  let ?w1 = "w\<lparr>w_next := Suc (w_next w), w_subs := (w_subs w)(w_next w := s)\<rparr>"
  let ?w2 = "addSubscriptionToMapLocked ?ch (w_next w) ?w1"
  obtain m needs ex where add: "addSubscriptionAndCheckFirst (w_next w) ?ch (w_metas ?w2 mr) = (m, needs, ex)"
    by (metis prod.collapse)
  define w3 where "w3 = upd_meta mr (\<lambda>_. m) ?w2"
  define w4 where "w4 = w3\<lparr>w_next := Suc (w_next w3), w_responses := (w_responses w3)(w_next w3 := [])\<rparr>"
  define cmd where "cmd = \<lparr>c_ctx = ctx, c_cmd = cmdName, c_args = [?ch], c_sub = Some (w_next w), c_response = Some (w_next w3)\<rparr>"
  have g3: "grows ?w1 w3" by (rule grows_same) (simp_all add: w3_def addSubscriptionToMapLocked_def)
  have g4: "grows ?w1 w4" using g3 by (auto simp: grows_def w4_def)
  have r: "register_and_send pick ctx ctxErr cmdName mr s w =
      (if needs then (case sendCommand pick ctxErr cmd (w_metas w4 mr) of
           None \<Rightarrow> (w4, SendBlocks (w_next w) mr cmd)
         | Some (m', result) \<Rightarrow> after_sendCommand (w_next w) mr result (upd_meta mr (\<lambda>_. m') w4))
       else (case ex of
           Some pending \<Rightarrow> (case waitForActive_enter (w_subs w3 pending) of
               Inl result \<Rightarrow> finish_other (w_next w) mr pending result w3
             | Inr ch \<Rightarrow> (w3, WaitOther (w_next w) mr pending ch))
         | None \<Rightarrow> (sub_success (w_next w) (upd_sub (w_next w) (setState subStateActive None) w3), SubSucceeds (w_next w))))"
    unfolding register_and_send_def Let_def add case_prod_conv w3_def w4_def cmd_def by simp
  note eq = assms [unfolded r]
  show ?thesis
  proof (cases needs)
    case True
    then show ?thesis using ended_send_grows [where sub = "w_next w" and w = w4 and w' = w' and pr = pr] eq grows_trans [OF g4] by auto
  next
    case False
    then show ?thesis using later_subscriber_grows [where sub = "w_next w" and w = w3 and w' = w' and pr = pr] eq grows_trans [OF g3] by auto
  qed
qed

lemma created_register:
  assumes "register_and_send pick ctx ctxErr cmdName mr s w = (w', pr)"
  shows "created (identity s) w w' (subject pr)"
proof (rule created_grows)
  show "created (identity s) w
      (w\<lparr>w_next := Suc (w_next w), w_subs := (w_subs w)(w_next w := s)\<rparr>) (Some (w_next w))"
    by (simp add: created_def grows_def)
qed (use register_grows [OF assms] in auto)

lemma created_progress:
  assumes "env_ok e" and "progress_call e pr w = Some (w', pr')"
  shows "grows w w' \<and> subject pr' \<in> {None, subject pr}"
proof -
  have env: "grows v (ce_waiting e v)" "grows v (ce_sending e v)" for v using assms(1) by (auto simp: env_ok_def)
  have confirm: "grows v w' \<and> subject pr' \<in> {None, Some sub}"
    if call: "confirm_call e sub mr v = Some (w', pr')" for sub mr v
  proof -
    obtain s result where s: "waitForConfirmation (ce_pick e) (ce_ctxErrLater e) (w_subs (ce_waiting e v) sub) = Some (s, result)"
      and f: "finish_confirm sub mr result (upd_sub sub (\<lambda>_. s) (ce_waiting e v)) = (w', pr')"
      using call by (auto simp: confirm_call_def Let_def split: option.splits)
    have "identity s = identity (w_subs (ce_waiting e v) sub)"
      using s by (auto simp: waitForConfirmation_def dest!: go_select_ready split: option.splits)
    then have "grows (ce_waiting e v) w'"
      by (intro grows_trans [OF grows_upd_sub grows_finish_confirm [OF f]]) simp
    then show ?thesis using grows_trans [OF env(1)] finish_subject(1) [OF f] by blast
  qed
  show ?thesis
  proof (cases pr)
    case (WaitConfirm sub mr)
    then show ?thesis using confirm assms(2) by (simp add: progress_call_def)
  next
    case (WaitOther sub mr p c)
    then obtain result where f: "finish_other sub mr p result (ce_waiting e w) = (w', pr')"
      using assms(2) by (auto simp: progress_call_def Let_def split: option.splits)
    from grows_trans [OF env(1) grows_finish_other [OF f]] finish_subject(2) [OF f] WaitOther show ?thesis by simp
  next
    case (SendBlocks sub mr cmd)
    then obtain m result v pv where s: "after_sendCommand sub mr result (upd_meta mr (\<lambda>_. m) (ce_sending e w)) = (v, pv)"
      and c: "(case pv of WaitConfirm sub' mr' \<Rightarrow> confirm_call e sub' mr' v | _ \<Rightarrow> Some (v, pv)) = Some (w', pr')"
      using assms(2) by (auto simp: progress_call_def Let_def split: option.splits prod.splits sub_progress.splits)
    have g: "grows w v" by (rule grows_trans [OF env(2) grows_trans [OF grows_upd_meta grows_after_send [OF s]]])
    have "pv = WaitConfirm sub mr \<or> (\<exists>err. pv = SubFails err)"
      using s by (auto simp: after_sendCommand_def split: option.splits)
    then show ?thesis
    proof
      assume pv: "pv = WaitConfirm sub mr"
      with c have "confirm_call e sub mr v = Some (w', pr')" by simp
      from confirm [OF this] grows_trans [OF g] SendBlocks show ?thesis by simp
    qed (use c g in auto)
  qed (use assms(2) in \<open>auto simp: progress_call_def\<close>)
qed

lemma created_none: "grows w w' \<Longrightarrow> created idn w w' None"
  by (simp add: created_def)

lemma created_after_connection:
  "after_connection pick ctx ctxErr ch ty cmd cb limit hs ps w = (w', pr) \<Longrightarrow> created (ch, ty, cb, limit) w w' (subject pr)"
  using created_register [where s = "newSubscription ch ty (Some ps) cb hs limit"]
  by (fastforce simp: after_connection_def newSubscription_def newSequencer_def identity_def intro: created_none split: option.splits)

lemma created_start:
  assumes "\<And>v. grows v (refresh v)"
    and "subscribeToChannel refresh slots rnd pick ctx ctxErr ch ty cmd cb limit w = (w1, start)"
  shows "case start of Inl pr \<Rightarrow> created (ch, ty, cb, limit) w w1 (subject pr) | Inr x \<Rightarrow> grows w w1"
proof (cases "ch = []")
  case True
  then show ?thesis using assms(2) by (auto simp: subscribeToChannel_def created_none)
next
  case False
  let ?hs = "Hashslot rnd ch"
  obtain v c where v: "getPubSubForHashslot refresh slots rnd ?hs w = (v, c)" by fastforce
  have g: "grows w v" using grows_getPubSub [OF assms(1) v] .
  show ?thesis
  proof (cases c)
    case (Connected ps)
    obtain u pr where u: "after_connection pick ctx ctxErr ch ty cmd cb limit ?hs ps v = (u, pr)" by fastforce
    have "start = Inl pr" "w1 = u" using assms(2) False v Connected u by (auto simp: subscribeToChannel_def Let_def)
    then show ?thesis using created_later [OF g created_after_connection [OF u]] by simp
  qed (use assms(2) False v g in \<open>auto simp: subscribeToChannel_def Let_def created_none\<close>)
qed

lemma created_call:
  assumes "env_ok e" and "subscribeToChannel_call e ch ty cmd cb limit w = Some (w', res)"
  shows "created (ch, ty, cb, limit) w w' (case res of Inl _ \<Rightarrow> None | Inr s \<Rightarrow> Some s)"
proof -
  have env: "grows v (ce_refresh e v)" "grows v (ce_connecting e v)" for v using assms(1) by (auto simp: env_ok_def)
  obtain w1 start where s: "subscribeToChannel (ce_refresh e) (ce_slots e) (ce_rnd e) (ce_pick e) (ce_ctx e) (ce_ctxErr e)
      ch ty cmd cb limit w = (w1, start)" by fastforce
  note st = created_start [OF env(1) s]
  obtain w2 pr where c: "created (ch, ty, cb, limit) w w2 (subject pr)"
    and p: "(case progress_call e pr w2 of Some (w3, SubFails err) \<Rightarrow> Some (w3, Inl err)
       | Some (w3, SubSucceeds sub) \<Rightarrow> Some (w3, Inr sub) | _ \<Rightarrow> None) = Some (w', res)"
  proof (cases start)
    case (Inl pr)
    then show ?thesis using that [of w1 pr] st assms(2) by (simp add: subscribeToChannel_call_def s)
  next
    case (Inr x)
    obtain pending hs where x: "x = (pending, hs)" by (cases x)
    define v where "v = ce_connecting e w1"
    have g: "grows w v" unfolding v_def using st Inr env(2) grows_trans by auto
    obtain p r where a: "await_finished hs (ce_pending e) (w_pool v) = (p, r)" by fastforce
    define start2 where "start2 = (case r of
        Inr (Some ps) \<Rightarrow> after_connection (ce_pick e) (ce_ctx e) (ce_ctxErrLater e) ch ty cmd cb limit hs ps (v\<lparr>w_pool := p\<rparr>)
      | Inr None \<Rightarrow> (v\<lparr>w_pool := p\<rparr>, SubFails (Errorf ''no metadata found for PubSub''))
      | Inl err \<Rightarrow> (v\<lparr>w_pool := p\<rparr>, SubFails (Wrapf (''failed to get PubSub for hashslot '' @ showInt hs @ '': '') err)))"
    obtain w2 pr where w2: "start2 = (w2, pr)" by fastforce
    have gp: "grows w (v\<lparr>w_pool := p\<rparr>)" using g by (simp add: grows_def)
    have "created (ch, ty, cb, limit) w w2 (subject pr)"
      using w2 created_later [OF gp created_after_connection] created_none [OF gp]
      by (auto simp: start2_def split: sum.splits option.splits)
    then show ?thesis using that [of w2 pr] assms(2) w2
      by (simp add: subscribeToChannel_call_def s Inr x v_def [symmetric] a start2_def Let_def split: sum.splits option.splits)
  qed
  obtain w3 pr' where q: "progress_call e pr w2 = Some (w3, pr')" using p by (auto split: option.splits)
  from created_progress [OF assms(1) q] have g: "grows w2 w3" "subject pr' \<in> {None, subject pr}" by auto
  have "w3 = w' \<and> (case res of Inl _ \<Rightarrow> None | Inr s \<Rightarrow> Some s) \<in> {None, subject pr'}"
    using p q by (auto split: sub_progress.splits)
  then show ?thesis using created_grows [OF c g(1)] g(2) by auto
qed

text \<open>What the loop has obtained: one new subscription per channel done, in order.\<close>

lemma loop_created:
  assumes "\<And>i. env_ok (es i)"
  shows "subscribe_loop es ty cmd cb limit i chs subs w = Some (w', subs', failed) \<Longrightarrow>
    \<exists>new. subs' = subs @ new \<and> grows w w' \<and> sorted_wrt (<) new
      \<and> (\<forall>s \<in> set new. w_next w \<le> s \<and> s < w_next w')
      \<and> map (\<lambda>s. identity (w_subs w' s)) new = map (\<lambda>ch. (ch, ty, cb, limit)) (take (length new) chs)
      \<and> (failed = None \<longleftrightarrow> length new = length chs)"
proof (induction chs arbitrary: i subs w)
  case Nil
  then show ?case by (intro exI [of _ "[]"]) auto
next
  case (Cons ch chs)
  obtain w1 res where c: "subscribeToChannel_call (es i) ch ty cmd cb limit w = Some (w1, res)"
    using Cons.prems by (auto split: option.splits)
  note cr = created_call [OF assms c]
  show ?case
  proof (cases res)
    case (Inl err)
    with c Cons.prems cr show ?thesis by (intro exI [of _ "[]"]) (auto simp: created_def)
  next
    case (Inr s)
    then have "subscribe_loop es ty cmd cb limit (Suc i) chs (subs @ [s]) w1 = Some (w', subs', failed)"
      using Cons.prems c by simp
    from Cons.IH [OF this] obtain new where new: "subs' = (subs @ [s]) @ new" "grows w1 w'" "sorted_wrt (<) new"
      "\<forall>s \<in> set new. w_next w1 \<le> s \<and> s < w_next w'"
      "map (\<lambda>s. identity (w_subs w' s)) new = map (\<lambda>ch. (ch, ty, cb, limit)) (take (length new) chs)"
      "failed = None \<longleftrightarrow> length new = length chs" by blast
    have s: "grows w w1" "w_next w \<le> s" "s < w_next w1" "identity (w_subs w1 s) = (ch, ty, cb, limit)"
      using cr Inr by (auto simp: created_def)
    have "identity (w_subs w' s) = (ch, ty, cb, limit)" "s < w_next w'" using s new(2) by (auto simp: grows_def)
    moreover have "grows w w'" by (rule grows_trans [OF s(1) new(2)])
    moreover have "\<forall>x \<in> set new. s < x \<and> w_next w \<le> x" using s new(4) by (auto simp: grows_def)
    ultimately show ?thesis using s new by (intro exI [of _ "s # new"]) auto
  qed
qed

subsection \<open>Cleaning up\<close>

text \<open>The other goroutines revive no closed subscription and register none.\<close>

definition calm :: "(world \<Rightarrow> world) \<Rightarrow> bool" where
  "calm f \<longleftrightarrow> (\<forall>w r. sub_state (w_subs w r) = subStateClosed \<longrightarrow> sub_state (w_subs (f w) r) = subStateClosed
     \<and> (\<forall>ch. r \<in> set (slice_at (w_subscriptions (f w)) ch) \<longrightarrow> r \<in> set (slice_at (w_subscriptions w) ch)))"

lemma unsub_waits_calm:
  "unsub_waits others pick ctxErr k ps (w, e) = Some (w', e') \<Longrightarrow> (\<And>k. calm (others k)) \<Longrightarrow>
   sub_state (w_subs w r) = subStateClosed \<and> r \<notin> set (slice_at (w_subscriptions w) ch) \<Longrightarrow>
   sub_state (w_subs w' r) = subStateClosed \<and> r \<notin> set (slice_at (w_subscriptions w') ch)"
proof (induction ps arbitrary: k w e)
  case (Cons p ps)
  obtain mr xs resp where p: "p = (mr, xs, resp)" by (cases p) auto
  obtain w1 err where u: "unsub_wait pick ctxErr p (others k w) = Some (w1, err)"
    and rest: "unsub_waits others pick ctxErr (Suc k) ps (w1, if err \<noteq> None \<and> e = None then err else e) = Some (w', e')"
    using Cons.prems(1) by (auto split: option.splits)
  from unsub_wait_removes [OF u [unfolded p]] have "w_subs w1 = w_subs (others k w)"
    "w_subscriptions w1 = w_subscriptions (others k w)" by auto
  with Cons.prems(2) [of k] Cons.prems(3) have "sub_state (w_subs w1 r) = subStateClosed
      \<and> r \<notin> set (slice_at (w_subscriptions w1) ch)" unfolding calm_def by (metis (no_types))
  from Cons.IH [OF rest Cons.prems(2) this] show ?case .
qed simp

section \<open>Properties\<close>

text \<open>C17. A successful subscription call returns exactly what was asked for: one new internal subscription per
  channel, in the order of the channels, pairwise distinct, each with the requested type and callback and
  the resolved queue limit, whatever the other goroutines do while the call waits (they may create objects
  but not change the identity of existing ones).\<close>

theorem subscribe_handle_exact:
  assumes "\<And>i. env_ok (es i)" and "subscribe es cleanup pick channels subType callback opts w = Some (w', Inr subs)"
  shows "map (\<lambda>s. sub_channel (w_subs w' s)) subs = channels \<and> distinct subs
    \<and> (\<forall>s \<in> set subs. w_next w \<le> s \<and> sub_subType (w_subs w' s) = subType \<and> sub_callback (w_subs w' s) = callback
        \<and> s_maxQueueSize (sub_sequencer (w_subs w' s)) = effectiveQueueLimit (w_config w) opts)"
proof -
  have l: "subscribe_loop es subType (subscribeCommandName subType) callback (effectiveQueueLimit (w_config w) opts)
      0 channels [] w = Some (w', subs, None)"
    using assms(2) by (auto simp: subscribe_def split: option.splits prod.splits)
  from loop_created [OF assms(1) l] have
    id: "map (\<lambda>s. identity (w_subs w' s)) subs = map (\<lambda>ch. (ch, subType, callback, effectiveQueueLimit (w_config w) opts)) channels"
    and s: "sorted_wrt (<) subs" "\<forall>s \<in> set subs. w_next w \<le> s" by auto
  have "map (\<lambda>s. sub_channel (w_subs w' s)) subs = map fst (map (\<lambda>s. identity (w_subs w' s)) subs)"
    by (simp add: identity_def)
  then have "map (\<lambda>s. sub_channel (w_subs w' s)) subs = channels" by (simp add: id comp_def)
  moreover have "snd (identity (w_subs w' x)) = (subType, callback, effectiveQueueLimit (w_config w) opts)"
    if "x \<in> set subs" for x
  proof -
    from that have "identity (w_subs w' x) \<in> set (map (\<lambda>s. identity (w_subs w' s)) subs)" by simp
    then show ?thesis unfolding id by auto
  qed
  moreover have "distinct subs" using s(1) strict_sorted_iff by blast
  ultimately show ?thesis using s(2) by (auto simp: identity_def)
qed

text \<open>A SubMux whose connection 2 serves the slot of channel \<open>c\<close>, on which subscription 4 is active, and a call
  that nobody disturbs.\<close>

definition worldC :: world where
  "worldC = world1\<lparr>w_pool := (w_pool world1)\<lparr>pl_hashslotPubSubs := [(Hashslot 0 ''c'', [2])]\<rparr>\<rparr>"

definition env0 :: call_env where
  "env0 = \<lparr>ce_ctx = None, ce_ctxErr = None, ce_refresh = (\<lambda>w. w), ce_slots = Inr [], ce_rnd = 0, ce_pick = 0,
     ce_pending = (None, None), ce_connecting = (\<lambda>w. w), ce_sending = (\<lambda>w. w), ce_waiting = (\<lambda>w. w), ce_ctxErrLater = None\<rparr>"

lemma env0_ok: "env_ok env0"
  by (simp add: env_ok_def env0_def)

lemma worldC_call:
  "\<exists>w1. subscribeToChannel_call env0 ''c'' subTypeSubscribe cmd 7 limit worldC = Some (w1, Inr 10)
     \<and> \<not> w_closed w1 \<and> getMetadata (getPubSub (w_subs w1 10)) (w_pool w1) = Some 2
     \<and> sub_channel (w_subs w1 10) = ''c'' \<and> is_last [10] w1 10 = False"
proof -
  have cached: "getPubSub_cached (w_pool worldC) (w_metas worldC) (Hashslot 0 ''c'') = Some 2"
    by (simp add: getPubSub_cached_def findLeastLoadedPubSub_def worldC_def world1_def meta1_def newMetadata_def slice_at_def
        least_step_def meta_getState_def meta_subscriptionCount_def maxInt64_def)
  have conn: "getPubSubForHashslot (\<lambda>w. w) (Inr []) 0 (Hashslot 0 ''c'') worldC = (worldC, Connected 2)"
    by (simp add: getPubSubForHashslot_def cached)
  have meta: "getMetadata (Some 2) (w_pool worldC) = Some 2" by (simp add: getMetadata_def worldC_def world1_def)
  let ?s = "newSubscription ''c'' subTypeSubscribe (Some 2) 7 (Hashslot 0 ''c'') limit"
  have "\<exists>w1. register_and_send 0 None None cmd 2 ?s worldC = (w1, SubSucceeds 10)
     \<and> \<not> w_closed w1 \<and> getMetadata (getPubSub (w_subs w1 10)) (w_pool w1) = Some 2
     \<and> sub_channel (w_subs w1 10) = ''c'' \<and> is_last [10] w1 10 = False"
    by (simp add: register_and_send_def Let_def addSubscriptionToMapLocked_def addSubscriptionAndCheckFirst_def
        worldC_def world1_def meta1_def newMetadata_def slice_at_def sub_success_def record_metric_def newSubscription_def
        getPendingSubscription_def getSubscriptions_def getMetadata_def getPubSub_def is_last_def upd_sub_def upd_meta_def
        cow_append_def go_copy_def)
  then show ?thesis
    by (auto simp: subscribeToChannel_call_def subscribeToChannel_def env0_def conn after_connection_def meta progress_call_def)
qed

theorem subscribe_handle_exact_witness:
  "\<exists>w'. subscribe (\<lambda>_. env0) (\<lambda>_ w. w) 0 [''c''] subTypeSubscribe 7 [] worldC = Some (w', Inr [10])
     \<and> sub_channel (w_subs w' 10) = ''c'' \<and> sub_callback (w_subs w' 10) = 7"
proof -
  obtain w1 where "subscribeToChannel_call env0 ''c'' subTypeSubscribe (subscribeCommandName subTypeSubscribe) 7
      (effectiveQueueLimit (w_config worldC) []) worldC = Some (w1, Inr 10)" using worldC_call by blast
  then have s: "subscribe (\<lambda>_. env0) (\<lambda>_ w. w) 0 [''c''] subTypeSubscribe 7 [] worldC = Some (w1, Inr [10])"
    by (simp add: subscribe_def subscribe_guards_def worldC_def world1_def subscribeCommandName_def cmdSubscribe_def)
  from subscribe_handle_exact [OF env0_ok s] s show ?thesis by auto
qed



text \<open>C30. \<open>New\<close> rejects a nil client; otherwise, for every list of options a caller can build, the SubMux it
  returns satisfies the invariants of all its components, is open and registers nothing.\<close>

theorem New_establishes:
  assumes "\<And>opt. opt \<in> set opts \<Longrightarrow> library_option opt" and "numCPU > 0"
  shows "New numCPU True opts = Inl (Wrapf [] ErrInvalidClusterClient)
    \<and> (\<exists>mo w wp. New numCPU False opts = Inr (mo, w) \<and> delivery_ok w \<and> (\<forall>mr. regs_ok mr w) \<and> topo_inv (w_topology w)
        \<and> pool_ok (w_metas w) (w_pool w) \<and> config_ok (w_config w) \<and> mon_inv mo
        \<and> w_workerPool w = Some wp \<and> wp_started wp \<and> wp_workers wp > 0 \<and> wp_cap wp > 0
        \<and> \<not> w_closed w \<and> sm_subscriptionCount w = 0)"
proof -
  have cfg: "config_ok c \<Longrightarrow> config_ok (fold (\<lambda>opt c. opt c) opts c)" for c
    using assms(1) by (induction opts arbitrary: c) (auto intro: config_ok_option)
  have c: "config_ok (applyOptions opts)" unfolding applyOptions_def by (rule cfg [OF config_ok_default])
  show ?thesis using c assms(2)
    by (simp add: New_def Let_def Start_def NewWorkerPool_def delivery_ok_def newSubscription_def seq_ok_newSequencer pool_safe_def
        regs_ok_def regs_inv_new map_ok_def topo_inv_new pool_ok_def newPubSubPool_def conns_def sm_subscriptionCount_def
        monsys.inv_init no_empty_def wf_gomap_def)
qed

theorem New_establishes_witness:
  "\<exists>mo w. New 4 False [WithAutoResubscribe True, WithCallbackWorkers 8] = Inr (mo, w) \<and> delivery_ok w \<and> config_ok (w_config w)"
proof -
  let ?opts = "[WithAutoResubscribe True, WithCallbackWorkers 8]"
  have "library_option opt" if "opt \<in> set ?opts" for opt using that by (auto intro: library_option.intros)
  then show ?thesis using New_establishes [of ?opts 4] by auto
qed

end
