(* ===== verification/Gauges.thy ===== *)
theory Gauges
  imports Client
begin

text \<open>
  \<open>metrics_otel.go\<close>, the observable gauges: which ones are registered, under which names, and what their
  callbacks observe of the state.
\<close>

section \<open>The gauges\<close>

datatype gauge = workerPoolQueueDepth | workerPoolQueueCap | activeConnections | redisSubscriptions | submuxSubscriptions

definition gaugeName :: "gauge \<Rightarrow> string" where
  "gaugeName g = (case g of
       workerPoolQueueDepth \<Rightarrow> ''submux.workerpool.queue_depth''
     | workerPoolQueueCap \<Rightarrow> ''submux.workerpool.queue_capacity''
     | activeConnections \<Rightarrow> ''submux.connections.active''
     | redisSubscriptions \<Rightarrow> ''submux.subscriptions.redis''
     | submuxSubscriptions \<Rightarrow> ''submux.subscriptions.active'')"

text \<open>The gauges a call registers; the arguments tell which pointers are nil.\<close>

definition registerWorkerPoolGauges :: "bool \<Rightarrow> bool \<Rightarrow> gauge list" where
  "registerWorkerPoolGauges poolNil meterNil =
     (if poolNil \<or> meterNil then [] else [workerPoolQueueDepth, workerPoolQueueCap])"

definition registerPoolGauges :: "bool \<Rightarrow> bool \<Rightarrow> bool \<Rightarrow> gauge list" where
  "registerPoolGauges poolNil subMuxNil meterNil =
     (if poolNil \<or> subMuxNil \<or> meterNil then [] else [activeConnections, redisSubscriptions, submuxSubscriptions])"

text \<open>The callbacks; the worker pool is that of the SubMux (\<open>New\<close> always sets it).\<close>

definition observe :: "gauge \<Rightarrow> world \<Rightarrow> int" where
  "observe g w = (case g of
       workerPoolQueueDepth \<Rightarrow> (case w_workerPool w of None \<Rightarrow> 0 | Some wp \<Rightarrow> int (QueueLength wp))
     | workerPoolQueueCap \<Rightarrow> (case w_workerPool w of None \<Rightarrow> 0 | Some wp \<Rightarrow> int (QueueCapacity wp))
     | activeConnections \<Rightarrow> int (connectionCount (w_pool w))
     | redisSubscriptions \<Rightarrow> int (redisSubscriptionCount (w_metas w) (w_pool w))
     | submuxSubscriptions \<Rightarrow> int (sm_subscriptionCount w))"

section \<open>Lemmas\<close>

lemma meta_count_eq: "meta_subscriptionCount m = length (all_slices (m_subscriptions m))"
  by (simp add: meta_subscriptionCount_def fold_count)

lemma redis_count_eq:
  "redisSubscriptionCount metas p = sum_list (map (\<lambda>(ps, mr). length (all_slices (m_subscriptions (metas mr)))) (pl_pubSubMetadata p))"
proof -
  have "fold (\<lambda>(ps, mr) count. count + f mr) xs n = n + sum_list (map (\<lambda>(ps, mr). f mr) xs)"
    for f :: "meta_ref \<Rightarrow> nat" and xs :: "(ps_ref \<times> meta_ref) list" and n
    by (induction xs arbitrary: n) auto
  then show ?thesis by (simp add: redisSubscriptionCount_def meta_count_eq)
qed

lemmas count_eqs = connectionCount_def sm_subscriptionCount_def fold_count redis_count_eq

lemma Close_empties: "\<not> w_lifecycleDone w \<Longrightarrow> w_pool (Close w) = newPubSubPool \<and> w_subscriptions (Close w) = []"
  by (simp add: Close_def closeAll_eq close_entries Let_def)

section \<open>Properties\<close>

text \<open>What the gauges show: the number of connections of the pool, the number of subscriptions of the global
  map, and, under the name of Redis subscriptions, the number of subscriptions registered on the
  connections (subscribers, not channels); after \<open>Close\<close> all three are zero.\<close>

theorem gauges_observe:
  assumes "\<not> w_lifecycleDone v"
  shows "observe activeConnections w = int (length (all_slices (pl_nodePubSubs (w_pool w))))
    \<and> observe submuxSubscriptions w = int (length (all_slices (w_subscriptions w)))
    \<and> observe redisSubscriptions w =
        int (sum_list (map (\<lambda>(ps, mr). length (all_slices (m_subscriptions (w_metas w mr)))) (pl_pubSubMetadata (w_pool w))))
    \<and> (\<forall>g \<in> {activeConnections, submuxSubscriptions, redisSubscriptions}. observe g (Close v) = 0)"
  using Close_empties [OF assms]
  by (simp add: observe_def count_eqs newPubSubPool_def all_slices_def)

theorem gauges_observe_witness:
  "observe activeConnections world1 = 1 \<and> observe redisSubscriptions world1 = 2 \<and> observe redisSubscriptions (Close world1) = 0"
proof -
  have "\<not> w_lifecycleDone world1" by (simp add: world1_def)
  from gauges_observe [OF this, of world1] show ?thesis
    by (simp add: world1_def meta1_def newMetadata_def all_slices_def)
qed

text \<open>The gauge of Redis subscriptions counts subscribers: a second subscriber of a channel that is already
  subscribed on the connection sends no command to Redis, and still the gauge goes up by one.\<close>

theorem redis_gauge_counts_subscribers:
  assumes "length (filter (\<lambda>(ps, m). m = mr) (pl_pubSubMetadata (w_pool w))) = 1" and "regs_inv (w_metas w mr)"
    and "getPendingSubscription (sub_channel s) (w_metas w mr) = None" and "getSubscriptions (sub_channel s) (w_metas w mr) \<noteq> []"
    and "register_and_send pick ctx ctxErr cmdName mr s w = (w', pr)"
  shows "pr = SubSucceeds (w_next w) \<and> m_cmdCh (w_metas w' mr) = m_cmdCh (w_metas w mr)
    \<and> observe redisSubscriptions w' = observe redisSubscriptions w + 1"
proof -
  let ?ch = "sub_channel s" and ?f = "\<lambda>v m. length (all_slices (m_subscriptions (w_metas v m)))"
  have w': "pr = SubSucceeds (w_next w)" "w_pool w' = w_pool w"
    "w_metas w' = (w_metas w)(mr := (w_metas w mr)\<lparr>m_subscriptions := append_at ?ch (w_next w) (m_subscriptions (w_metas w mr))\<rparr>)"
    using assms(3-5)
    by (auto simp: register_and_send_def addSubscriptionToMapLocked_def addSubscriptionAndCheckFirst_def Let_def
      getPendingSubscription_def getSubscriptions_def sub_success_def append_at_def cow_append_def go_copy_def fun_eq_iff)
  have "?f w' mr = Suc (?f w mr)"
    using assms(2) by (simp add: w'(3) length_append_at regs_inv_def)
  then have f: "?f w' m = (if m = mr then Suc (?f w m) else ?f w m)" for m by (simp add: w'(3))
  have "sum_list (map (\<lambda>(ps, m). ?f w' m) xs) = sum_list (map (\<lambda>(ps, m). ?f w m) xs) + length (filter (\<lambda>(ps, m). m = mr) xs)" for xs
    unfolding f by (induction xs) auto
  from this [of "pl_pubSubMetadata (w_pool w)"] assms(1)
  have "redisSubscriptionCount (w_metas w') (w_pool w') = redisSubscriptionCount (w_metas w) (w_pool w) + 1"
    unfolding redis_count_eq w'(2) by linarith
  then have "observe redisSubscriptions w' = observe redisSubscriptions w + 1" by (simp add: observe_def)
  with w' show ?thesis by simp
qed

theorem redis_gauge_counts_subscribers_witness:
  "\<exists>w' pr. register_and_send 0 None None ''SUBSCRIBE'' 2 (newSubscription ''c'' subTypeSubscribe (Some 2) 0 7 2) world1 = (w', pr)
     \<and> observe redisSubscriptions w' = 3"
proof -
  let ?s = "newSubscription ''c'' subTypeSubscribe (Some 2) 0 7 2"
  obtain w' pr where r: "register_and_send 0 None None ''SUBSCRIBE'' 2 ?s world1 = (w', pr)" by fastforce
  have ch: "sub_channel ?s = ''c''" by (simp add: newSubscription_def)
  have a: "length (filter (\<lambda>(ps, m). m = 2) (pl_pubSubMetadata (w_pool world1))) = 1" "regs_inv (w_metas world1 2)"
    "getPendingSubscription (sub_channel ?s) (w_metas world1 2) = None" "getSubscriptions (sub_channel ?s) (w_metas world1 2) \<noteq> []"
    unfolding ch by (simp_all add: world1_def meta1_def newMetadata_def regs_inv_def wf_gomap_def no_empty_def slice_at_def
        getPendingSubscription_def getSubscriptions_def)
  have "observe redisSubscriptions world1 = 2"
    by (simp add: observe_def redis_count_eq world1_def meta1_def newMetadata_def all_slices_def)
  with redis_gauge_counts_subscribers [OF a r] r show ?thesis by auto
qed

end
