(* ===== verification/Lifecycle.thy ===== *)
theory Lifecycle
  imports Monitor
begin

text \<open>
  \<open>topology.go\<close>, the goroutines of the monitor: the polling loop, refreshes triggered by redirects, and how
  \<open>stop\<close> waits for all of them. Every goroutine is announced in the wait group before the \<open>done\<close> channel is
  consulted; the protocol is a transition system over the counters.
\<close>

section \<open>The polling loop\<close>

text \<open>What one refresh meets: choices, times and the answers of the cluster.\<close>

record refresh_env =
  re_pick :: nat
  re_now :: int
  re_elapsed :: int
  re_main :: "goerror + ClusterSlot list"
  re_seeds :: "((goerror + string) \<times> (goerror + ClusterSlot list)) list"
  re_nodes :: "goerror + string"

definition do_refresh :: "refresh_env \<Rightarrow> monitor \<times> world \<Rightarrow> monitor \<times> world" where
  "do_refresh r st = fst (refreshTopology (re_pick r) (re_now r) (re_elapsed r) (re_main r) (re_seeds r) (re_nodes r) st)"

text \<open>The two cases of the loop's \<open>select\<close>. \<open>None\<close>: the case is not ready.\<close>

datatype monitor_event = Tick refresh_env | DoneReady

fun monitor_loop :: "monitor_event list \<Rightarrow> monitor \<times> world \<Rightarrow> ((monitor \<times> world) \<times> bool) option" where
  "monitor_loop [] st = Some (st, False)"
| "monitor_loop (Tick r # evs) st = monitor_loop evs (do_refresh r st)"
| "monitor_loop (DoneReady # evs) st = (if mo_done (fst st) then Some (st, True) else None)"

definition monitor_run :: "refresh_env \<Rightarrow> monitor_event list \<Rightarrow> monitor \<times> world \<Rightarrow> ((monitor \<times> world) \<times> bool) option" where
  "monitor_run r0 evs st = monitor_loop evs (do_refresh r0 st)"

section \<open>Stopping\<close>

text \<open>
  \<open>li_wg\<close> is the counter of the wait group; \<open>li_entering\<close> counts the goroutines between \<open>wg.Add(1)\<close> and the
  check of \<open>done\<close> (in \<open>triggerRefresh\<close>, \<open>handleMigration\<close> and \<open>recoverFailedSubscriptions\<close>), \<open>li_running\<close> the
  announced goroutines that have been started and have not returned.
\<close>

datatype stop_phase = NotStopped | StopWaits | StopReturned

record life =
  li_done :: bool
  li_wg :: nat
  li_entering :: nat
  li_running :: nat
  li_stop :: stop_phase

definition start_monitor :: "life \<Rightarrow> life" where
  "start_monitor l = l\<lparr>li_wg := Suc (li_wg l), li_running := Suc (li_running l)\<rparr>"

text \<open>\<open>wg.Done\<close> panics (\<open>None\<close>) below zero.\<close>

definition wg_Done :: "life \<Rightarrow> life option" where
  "wg_Done l = (if li_wg l = 0 then None else Some (l\<lparr>li_wg := li_wg l - 1\<rparr>))"

text \<open>\<open>triggerRefresh\<close> and the same pattern in the other two functions: announce, then check.\<close>

definition trigger_enter :: "life \<Rightarrow> life" where
  "trigger_enter l = l\<lparr>li_wg := Suc (li_wg l), li_entering := Suc (li_entering l)\<rparr>"

definition trigger_check :: "life \<Rightarrow> life option" where
  "trigger_check l =
     (let l1 = l\<lparr>li_entering := li_entering l - 1\<rparr>
      in if li_done l then wg_Done l1 else Some (l1\<lparr>li_running := Suc (li_running l1)\<rparr>))"

definition goroutine_returns :: "life \<Rightarrow> life option" where
  "goroutine_returns l = wg_Done (l\<lparr>li_running := li_running l - 1\<rparr>)"

text \<open>\<open>stop\<close>: closing a closed channel panics (\<open>None\<close>).\<close>

definition stop_begin :: "life \<Rightarrow> life option" where
  "stop_begin l = (if li_done l then None else Some (l\<lparr>li_done := True, li_stop := StopWaits\<rparr>))"

definition stop_end :: "life \<Rightarrow> life" where
  "stop_end l = l\<lparr>li_stop := StopReturned\<rparr>"

definition life0 :: life where
  "life0 = \<lparr>li_done = False, li_wg = 0, li_entering = 0, li_running = 0, li_stop = NotStopped\<rparr>"

text \<open>\<open>closeOnce\<close> calls \<open>stop\<close> once, and \<open>New\<close> starts the monitor before anybody can stop it. A panic is a
  step to \<open>None\<close>.\<close>

inductive life_step :: "life option \<Rightarrow> life option \<Rightarrow> bool" where
  enter: "life_step (Some l) (Some (trigger_enter l))"
| check: "li_entering l > 0 \<Longrightarrow> life_step (Some l) (trigger_check l)"
| returns: "li_running l > 0 \<Longrightarrow> life_step (Some l) (goroutine_returns l)"
| stop_called: "li_stop l = NotStopped \<Longrightarrow> life_step (Some l) (stop_begin l)"
| stop_done: "li_stop l = StopWaits \<Longrightarrow> li_wg l = 0 \<Longrightarrow> life_step (Some l) (Some (stop_end l))"

section \<open>Lemmas\<close>

definition life_inv :: "life option \<Rightarrow> bool" where
  "life_inv s \<longleftrightarrow> (\<exists>l. s = Some l \<and> li_wg l = li_entering l + li_running l \<and> (li_done l \<longleftrightarrow> li_stop l \<noteq> NotStopped)
     \<and> (li_stop l = StopReturned \<longrightarrow> li_running l = 0))"

lemmas life_defs = trigger_enter_def trigger_check_def goroutine_returns_def wg_Done_def stop_begin_def stop_end_def
  start_monitor_def life0_def

lemma life_inv_step: "life_step s t \<Longrightarrow> life_inv s \<Longrightarrow> life_inv t"
  by (induction rule: life_step.induct) (auto simp: life_inv_def life_defs Let_def)

interpretation lifesys: transition_system "\<lambda>s. s = Some (start_monitor life0)" life_step life_inv
  by unfold_locales (simp add: life_inv_def life_defs, blast intro: life_inv_step)

text \<open>A stop that waits can always be led to its end: those who enter see \<open>done\<close>, those who run return.\<close>

lemma stop_can_return:
  assumes "li_stop l = StopWaits" and "life_inv (Some l)"
  shows "\<exists>l'. life_step\<^sup>*\<^sup>* (Some l) (Some l') \<and> li_stop l' = StopReturned"
  using assms
proof (induction "li_wg l" arbitrary: l rule: less_induct)
  case less
  have inv: "li_wg l = li_entering l + li_running l" "li_done l" using less.prems by (auto simp: life_inv_def)
  consider "li_wg l = 0" | "li_entering l > 0" | "li_running l > 0" using inv by linarith
  then show ?case
  proof cases
    case 1
    then show ?thesis using life_step.stop_done [OF less.prems(1)] by (intro exI [of _ "stop_end l"]) (auto simp: stop_end_def)
  next
    case 2
    let ?l = "l\<lparr>li_entering := li_entering l - 1, li_wg := li_wg l - 1\<rparr>"
    have s: "life_step (Some l) (Some ?l)"
      using life_step.check [OF 2] inv 2 by (simp add: life_defs Let_def)
    have "\<exists>l'. life_step\<^sup>*\<^sup>* (Some ?l) (Some l') \<and> li_stop l' = StopReturned"
      using less.prems 2 inv life_inv_step [OF s less.prems(2)] by (intro less.hyps) auto
    then show ?thesis using s by (meson converse_rtranclp_into_rtranclp)
  next
    case 3
    let ?l = "l\<lparr>li_running := li_running l - 1, li_wg := li_wg l - 1\<rparr>"
    have s: "life_step (Some l) (Some ?l)"
      using life_step.returns [OF 3] inv 3 by (simp add: life_defs)
    have "\<exists>l'. life_step\<^sup>*\<^sup>* (Some ?l) (Some l') \<and> li_stop l' = StopReturned"
      using less.prems 3 inv life_inv_step [OF s less.prems(2)] by (intro less.hyps) auto
    then show ?thesis using s by (meson converse_rtranclp_into_rtranclp)
  qed
qed

text \<open>A refresh replaces the topology exactly when it gets the slots.\<close>

lemma handleMigration_topology: "w_topology (snd (handleMigration pick now mig st)) = w_topology (snd st)"
proof -
  have b: "w_topology (broadcastSignal pick now subs sig w) = w_topology w" for subs sig w
    unfolding broadcastSignal_def by (induction subs arbitrary: w) simp_all
  show ?thesis
    by (cases st) (simp add: handleMigration_def Let_def sendSignalMessages_def b record_metric_def)
qed

lemma refresh_topology:
  "w_topology (snd (do_refresh r (mo, w))) =
     (case fetch_slots (re_main r) (re_seeds r) of Inl _ \<Rightarrow> w_topology w | Inr slots \<Rightarrow> new_state slots (re_nodes r))"
proof -
  have m: "w_topology (snd (handleMigrations pick now migs st)) = w_topology (snd st)" for pick now migs st
    unfolding handleMigrations_def by (induction migs arbitrary: st) (simp_all add: handleMigration_topology)
  have rec: "w_topology (snd (recover_loop gs st)) = w_topology (snd st)" for gs st
    by (induction gs st rule: recover_loop.induct) (auto simp: record_metric_def Let_def split: option.splits)
  show ?thesis
    by (simp add: do_refresh_def refreshTopology_def record_metric_def Let_def m rec recoverFailedSubscriptions_def
        split: sum.split)
qed

text \<open>The refreshes of the loop, and those that got the slots.\<close>

fun ticks :: "monitor_event list \<Rightarrow> refresh_env list" where
  "ticks (Tick r # evs) = r # ticks evs"
| "ticks _ = []"

definition refreshed :: "refresh_env \<Rightarrow> topologyState option" where
  "refreshed r = (case fetch_slots (re_main r) (re_seeds r) of Inl _ \<Rightarrow> None | Inr slots \<Rightarrow> Some (new_state slots (re_nodes r)))"

definition latest :: "refresh_env list \<Rightarrow> topologyState \<Rightarrow> topologyState" where
  "latest rs ts = (case List.map_filter refreshed rs of [] \<Rightarrow> ts | news \<Rightarrow> last news)"

lemma latest_Nil: "latest [] ts = ts"
  by (simp add: latest_def List.map_filter_simps)

lemma latest_Cons: "latest (r # rs) ts = latest rs (case refreshed r of None \<Rightarrow> ts | Some new \<Rightarrow> new)"
  by (simp add: latest_def List.map_filter_simps split: option.split list.split)

lemma do_refresh_topology: "w_topology (snd (do_refresh r st)) = (case refreshed r of None \<Rightarrow> w_topology (snd st) | Some new \<Rightarrow> new)"
  by (cases st) (simp add: refresh_topology refreshed_def split: sum.split)

lemma loop_topology:
  "monitor_loop evs st = Some (st', b) \<Longrightarrow> w_topology (snd st') = latest (ticks evs) (w_topology (snd st))"
  by (induction evs st rule: monitor_loop.induct)
     (auto simp: do_refresh_topology latest_Cons latest_Nil split: if_splits)

lemma topo_inv_latest: "topo_inv ts \<Longrightarrow> topo_inv (latest rs ts)"
proof (induction rs arbitrary: ts)
  case (Cons r rs)
  have "topo_inv (case refreshed r of None \<Rightarrow> ts | Some new \<Rightarrow> new)"
    using Cons.prems by (auto simp: refreshed_def topo_inv_new_state split: sum.split)
  then show ?case using Cons.IH by (simp add: latest_Cons)
qed (simp add: latest_Nil)

section \<open>Properties\<close>



text \<open>The monitor follows the cluster: after the initial refresh and any number of ticks, the topology in
  place is the snapshot of the last refresh that got an answer (from the cluster client or a healthy seed
  node), or the old one if none did, and it satisfies the topology invariant. The loop is left only after
  \<open>done\<close> is closed.\<close>

theorem monitor_tracks_topology:
  assumes "monitor_run r0 evs st = Some (st', left)" and "topo_inv (w_topology (snd st))"
  shows "w_topology (snd st') = latest (r0 # ticks evs) (w_topology (snd st)) \<and> topo_inv (w_topology (snd st'))
    \<and> (left \<longrightarrow> mo_done (fst st'))"
proof -
  have l: "monitor_loop evs (do_refresh r0 st) = Some (st', left)" using assms(1) by (simp add: monitor_run_def)
  have "monitor_loop evs v = Some (st', left) \<Longrightarrow> left \<longrightarrow> mo_done (fst st')" for v
    by (induction evs v rule: monitor_loop.induct) (auto split: if_splits)
  moreover have "w_topology (snd st') = latest (r0 # ticks evs) (w_topology (snd st))"
    using loop_topology [OF l] by (simp add: do_refresh_topology latest_Cons)
  ultimately show ?thesis using l topo_inv_latest [OF assms(2), of "r0 # ticks evs"] by simp
qed

theorem monitor_tracks_topology_witness:
  "\<exists>st'. monitor_run \<lparr>re_pick = 0, re_now = 1, re_elapsed = 1, re_main = Inl ContextCanceled,
       re_seeds = [(Inr ''cluster_state:ok'', Inr [\<lparr>slot_Start = 7, slot_End = 7, slot_Nodes = [''m:1'']\<rparr>])],
       re_nodes = Inl ContextCanceled\<rparr> [] (newTopologyMonitor, world1) = Some (st', False)
     \<and> ts_getNodeForHashslot 7 (w_topology (snd st')) = Some ''m:1''"
proof -
  let ?r = "\<lparr>re_pick = 0, re_now = 1, re_elapsed = 1, re_main = Inl ContextCanceled,
       re_seeds = [(Inr ''cluster_state:ok'', Inr [\<lparr>slot_Start = 7, slot_End = 7, slot_Nodes = [''m:1'']\<rparr>])],
       re_nodes = Inl ContextCanceled\<rparr>"
  obtain st' where r: "monitor_run ?r [] (newTopologyMonitor, world1) = Some (st', False)"
    by (simp add: monitor_run_def)
  have "topo_inv (w_topology (snd (newTopologyMonitor, world1)))" by (simp add: world1_def topo_inv_new)
  note m = monitor_tracks_topology [OF r this]
  have "ts_getNodeForHashslot 7 (latest [?r] newTopologyState) = Some ''m:1''" by code_simp
  then show ?thesis using m r by (simp add: world1_def)
qed

end
