(* ===== verification/Migration.thy ===== *)
theory Migration
  imports Monitor
begin

text \<open>
  \<open>topology.go\<close>, \<open>resubscribeOnNewNodeWithMonitoring\<close> as a whole: the goroutine that watches the progress of a
  migration from its first tick to its final check, the goroutines that send the commands, and the end of
  the migration. The times of the ticks, the progress counts they read and what the other goroutines do
  during a wait are arguments.
\<close>

section \<open>Watching\<close>

text \<open>The loop of the watching goroutine over its ticks: it ends with the first signal.\<close>

fun watch_run :: "config \<Rightarrow> nat \<Rightarrow> (int \<times> nat) list \<Rightarrow> watch \<Rightarrow> watch \<times> verdict" where
  "watch_run cfg totalSubs [] wa = (wa, KeepWatching)"
| "watch_run cfg totalSubs ((now, currentCount) # ticks) wa =
     (case watch_tick cfg now currentCount totalSubs wa of
        (wa', KeepWatching) \<Rightarrow> watch_run cfg totalSubs ticks wa'
      | other \<Rightarrow> other)"

text \<open>The goroutine: the ticks, then, unless it has signalled, the final check when \<open>doneCh\<close> is closed.\<close>

definition watch_goroutine :: "config \<Rightarrow> sub_ref list \<Rightarrow> int \<Rightarrow> (int \<times> nat) list \<Rightarrow> int \<Rightarrow> world \<Rightarrow> verdict" where
  "watch_goroutine cfg subs startTime ticks doneTime w =
     (case watch_run cfg (length subs) ticks \<lparr>wa_start = startTime, wa_lastProgress = startTime, wa_lastCount = 0\<rparr> of
        (wa, KeepWatching) \<Rightarrow> watch_done cfg doneTime subs w wa
      | (wa, v) \<Rightarrow> v)"

text \<open>What it does with a verdict; \<open>shown\<close> is the text of the duration.\<close>

definition watch_act :: "nat \<Rightarrow> int \<Rightarrow> sub_ref list \<Rightarrow> hashslotMigration \<Rightarrow> string \<Rightarrow> verdict \<Rightarrow> world \<Rightarrow> world" where
  "watch_act pick now subs mig shown v w = (case v of
       SignalTimeout \<Rightarrow> sendMigrationTimeoutSignal pick now subs mig shown w
     | SignalStalled \<Rightarrow> sendMigrationStalledSignal pick now subs mig shown w
     | _ \<Rightarrow> w)"

section \<open>The command goroutines and the end\<close>

text \<open>A command goroutine: allocate the response channel, send the command (\<open>sending\<close>: what happens before it
  goes through), wait for the confirmation (\<open>waiting\<close>). The contexts are derived from the migration's.
  \<open>None\<close>: a wait does not end.\<close>

definition resub_goroutine ::
  "nat \<Rightarrow> ctx_ref \<Rightarrow> goerror option \<Rightarrow> goerror option \<Rightarrow> (world \<Rightarrow> world) \<Rightarrow> (world \<Rightarrow> world) \<Rightarrow> resub_task \<Rightarrow> world \<Rightarrow> world option" where
  "resub_goroutine pick cmdCtx ctxErr1 ctxErr2 sending waiting task w =
     (let (sub, cmdName, channel, mr) = task;
          response = w_next w;
          w1 = sending (w\<lparr>w_next := Suc response, w_responses := (w_responses w)(response := [])\<rparr>);
          cmd = \<lparr>c_ctx = Some cmdCtx, c_cmd = cmdName, c_args = [channel], c_sub = Some sub, c_response = Some response\<rparr>
      in case sendCommand pick ctxErr1 cmd (w_metas w1 mr) of
           None \<Rightarrow> None
         | Some (m, Some err) \<Rightarrow> Some (resub_send_failed task err (upd_meta mr (\<lambda>_. m) w1))
         | Some (m, None) \<Rightarrow>
             (let w2 = waiting (upd_meta mr (\<lambda>_. m) w1)
              in case waitForConfirmation pick ctxErr2 (w_subs w2 sub) of
                   None \<Rightarrow> None
                 | Some (s, result) \<Rightarrow> Some (resub_confirm_result task result (upd_sub sub (\<lambda>_. s) w2))))"

definition migration_end :: "int \<Rightarrow> world \<Rightarrow> world" where
  "migration_end duration w = record_metric MigrationCompleted (record_metric (MigrationDuration duration) w)"

section \<open>Lemmas\<close>

lemma tick_signals:
  "watch_tick cfg now n tot wa = (wa', v) \<Longrightarrow> v \<in> {KeepWatching, SignalTimeout, SignalStalled} \<and> wa_start wa' = wa_start wa"
  by (auto simp: watch_tick_def split: if_splits)

lemma late_tick: "n < tot \<Longrightarrow> now - wa_start wa > cfg_migrationTimeout cfg \<Longrightarrow> watch_tick cfg now n tot wa = (wa, SignalTimeout)"
  by (simp add: watch_tick_def)

lemma watch_run_late:
  "\<exists>(now, n) \<in> set ticks. n < tot \<and> now - wa_start wa > cfg_migrationTimeout cfg \<Longrightarrow>
   snd (watch_run cfg tot ticks wa) \<in> {SignalTimeout, SignalStalled}"
proof (induction ticks arbitrary: wa)
  case (Cons t ticks)
  obtain now n where t: "t = (now, n)" by (cases t)
  obtain wa' v where s: "watch_tick cfg now n tot wa = (wa', v)" by fastforce
  show ?case
  proof (cases "v = KeepWatching")
    case True
    then have "\<not> (n < tot \<and> now - wa_start wa > cfg_migrationTimeout cfg)" using s late_tick by fastforce
    then have "\<exists>(now, n) \<in> set ticks. n < tot \<and> now - wa_start wa' > cfg_migrationTimeout cfg"
      using Cons.prems tick_signals [OF s] by (auto simp: t)
    from Cons.IH [OF this] show ?thesis using True by (simp add: t s)
  next
    case False
    then show ?thesis using tick_signals [OF s] by (auto simp: t s split: verdict.split)
  qed
qed simp

lemma watch_run_start:
  "watch_run cfg tot ticks wa = (wa', v) \<Longrightarrow> wa_start wa' = wa_start wa \<and> v \<in> {KeepWatching, SignalTimeout, SignalStalled}"
proof (induction ticks arbitrary: wa)
  case (Cons t ticks)
  obtain now n where t: "t = (now, n)" by (cases t)
  obtain wb u where s: "watch_tick cfg now n tot wa = (wb, u)" by fastforce
  from Cons.prems Cons.IH [of wb] tick_signals [OF s] show ?case
    by (cases u) (auto simp: t s)
qed auto

text \<open>A tick in time: everything is processed, or neither deadline has passed.\<close>

definition in_time :: "config \<Rightarrow> nat \<Rightarrow> int \<Rightarrow> int \<times> nat \<Rightarrow> bool" where
  "in_time cfg tot start t \<longleftrightarrow> snd t \<ge> tot \<or>
     (start \<le> fst t \<and> fst t - start \<le> cfg_migrationTimeout cfg \<and> fst t - start \<le> cfg_migrationStallCheck cfg)"

lemma watch_run_in_time:
  "\<forall>t \<in> set ticks. in_time cfg tot (wa_start wa) t \<Longrightarrow> wa_start wa \<le> wa_lastProgress wa \<Longrightarrow>
   \<exists>wa'. watch_run cfg tot ticks wa = (wa', KeepWatching)"
proof (induction ticks arbitrary: wa)
  case (Cons t ticks)
  obtain now n where t: "t = (now, n)" by (cases t)
  obtain wb where "watch_tick cfg now n tot wa = (wb, KeepWatching)" "wa_start wb = wa_start wa" "wa_start wb \<le> wa_lastProgress wb"
  proof -
    have "snd (watch_tick cfg now n tot wa) = KeepWatching" "wa_start (fst (watch_tick cfg now n tot wa)) = wa_start wa"
      "wa_start wa \<le> wa_lastProgress (fst (watch_tick cfg now n tot wa))"
      using Cons.prems by (auto simp: watch_tick_def t in_time_def)
    then show ?thesis using that by (metis prod.collapse)
  qed
  with Cons.IH [of wb] Cons.prems show ?case by (auto simp: t)
qed simp

section \<open>Properties\<close>



text \<open>A migration revives a subscription that was unsubscribed in the meantime. The migration goroutine works
  on the subscriptions it collected before it was started and does not look at their state again: one that
  is closed by then is registered on the new connection and pending again, a command is sent for it, and
  the confirmation makes it active, so messages of the channel are dispatched to it once more.\<close>

theorem unsubscribed_revived:
  assumes "getState (w_subs w sub) = subStateClosed" and "ch = sub_channel (w_subs w sub)"
    and "getMetadata (getPubSub (w_subs w sub)) (w_pool w) \<noteq> Some mr" and "getMetadata (Some ps) (w_pool w) = Some mr"
    and "getSubscriptions ch (w_metas w mr) = []"
    and "resub_one False ty ch ps sub (w, [], 0) = (w', tasks, n)"
    and "kind \<in> {redisKindSubscribe, redisKindPSubscribe, redisKindSSubscribe}"
  shows "tasks = [(sub, subscribeCommandName ty, ch, mr)] \<and> getState (w_subs w' sub) = subStatePending
    \<and> getState (w_subs (handleSubscriptionConfirmation mr kind ch w') sub) = subStateActive
    \<and> getSubscriptions ch (w_metas (handleSubscriptionConfirmation mr kind ch w') mr) = [sub]"
proof -
  let ?new = "addSubscription ch sub (w_metas w mr)"
  have lo: "w_metas (leave_old sub w) mr = w_metas w mr" "w_pool (leave_old sub w) = w_pool w"
    "sub_channel (w_subs (leave_old sub w) sub) = ch"
    using assms(2,3) by (auto simp: leave_old_def Let_def split: option.splits)
  have new: "getSubscriptions ch ?new = [sub]"
    using assms(5) by (simp add: getSubscriptions_def addSubscription_def slice_simps Let_def)
  have w': "w_metas w' mr = addPendingSubscription ch sub ?new" "tasks = [(sub, subscribeCommandName ty, ch, mr)]"
    "w_subs w' sub = setState subStatePending None (resetConfirmation (setPubSub (Some ps) (w_subs (leave_old sub w) sub)))"
    using assms(4,6) new by (auto simp: resub_one_def lo Let_def)
  have st: "getState (w_subs w' sub) = subStatePending" by (simp add: w'(3) getState_def)
  have p: "getPendingSubscription ch (w_metas w' mr) = Some sub"
    by (simp add: w'(1) getPendingSubscription_def addPendingSubscription_def update_conv')
  have h: "handleSubscriptionConfirmation mr kind ch w' =
      upd_meta mr (removePendingSubscription ch) (upd_sub sub (setState subStateActive None) w')"
    using assms(7) p by (auto simp: handleSubscriptionConfirmation_def)
  have "getSubscriptions ch (removePendingSubscription ch (w_metas w' mr)) = [sub]"
    using new by (simp add: w'(1) removePendingSubscription_def addPendingSubscription_def getSubscriptions_def)
  with st w'(2) show ?thesis by (simp add: h getState_def)
qed

text \<open>Subscription 4 of the world with two connections, unsubscribed before the migration reaches it.\<close>

theorem unsubscribed_revived_witness:
  "\<exists>w' tasks n. resub_one False subTypeSubscribe ''c'' 3 4
        (upd_sub 4 (setState subStateClosed None) world2, [], 0) = (w', tasks, n)
     \<and> getState (w_subs (handleSubscriptionConfirmation 3 redisKindSubscribe ''c'' w') 4) = subStateActive"
proof -
  let ?w = "upd_sub 4 (setState subStateClosed None) world2"
  obtain w' tasks n where r: "resub_one False subTypeSubscribe ''c'' 3 4 (?w, [], 0) = (w', tasks, n)"
    by (cases "resub_one False subTypeSubscribe ''c'' 3 4 (?w, [], 0)")
  have a: "getState (w_subs ?w 4) = subStateClosed" "''c'' = sub_channel (w_subs ?w 4)"
    "getMetadata (getPubSub (w_subs ?w 4)) (w_pool ?w) \<noteq> Some 3" "getMetadata (Some 3) (w_pool ?w) = Some 3"
    "getSubscriptions ''c'' (w_metas ?w 3) = []"
    by (simp_all add: getState_def world2_def world1_def newSubscription_def getMetadata_def getPubSub_def newMetadata_def
        getSubscriptions_def)
  from unsubscribed_revived [OF a r, of redisKindSubscribe] r show ?thesis by blast
qed

end
