(* ===== verification/World_Inv.thy ===== *)
theory World_Inv
  imports Client Lifecycle Migration
begin

text \<open>
  The invariant of the shared state and what the operations keep of it. \<open>tame\<close> collects what most operations
  do at most: they remove registrations and connections, change states and queues, but register nothing and
  move nothing; it is reflexive, transitive and keeps the invariant, so an operation is tame if its parts are.
  The three operations that add something (registering a subscription, creating a connection, moving a
  subscription to another connection) are treated one by one.
\<close>

section \<open>The invariant\<close>

text \<open>The drain tasks that have been handed over and not started: in the queue of the worker pool, in
  goroutines of their own, blocked in \<open>Submit\<close>.\<close>

definition drain_tasks :: "world \<Rightarrow> sub_ref list" where
  "drain_tasks w = (case w_workerPool w of None \<Rightarrow> [] | Some wp \<Rightarrow> wp_taskQueue wp) @ w_goDrains w @ w_blocked w"

text \<open>With \<open>ds\<close> the drain tasks that run: a subscription has one drain task if its sequencer is active and none
  otherwise, and its sequencer is active while messages are queued; the worker pool has a queue.\<close>

definition drains_ok :: "sub_ref list \<Rightarrow> world \<Rightarrow> bool" where
  "drains_ok ds w \<longleftrightarrow> (\<exists>wp. w_workerPool w = Some wp \<and> wp_cap wp > 0) \<and> (\<forall>r. count_list (drain_tasks w @ ds) r = (if s_active (sub_sequencer (w_subs w r)) then 1 else 0)
     \<and> (queued w r \<noteq> [] \<longrightarrow> s_active (sub_sequencer (w_subs w r)))
     \<and> (s_active (sub_sequencer (w_subs w r)) \<longrightarrow> r < w_next w))"

definition map_fine :: "(string, sub_ref list) gomap \<Rightarrow> bool" where
  "map_fine m \<longleftrightarrow> map_ok m \<and> (\<forall>ch. distinct (slice_at m ch))"

text \<open>The subscriptions registered under a channel on a connection.\<close>

definition regs :: "world \<Rightarrow> meta_ref \<Rightarrow> string \<Rightarrow> sub_ref list" where
  "regs w mr ch = slice_at (m_subscriptions (w_metas w mr)) ch"

text \<open>Registrations are allocated subscriptions, filed under their channel; a subscription registered on a
  connection of the pool has that connection as its own.\<close>

definition filed :: "world \<Rightarrow> bool" where
  "filed w \<longleftrightarrow> (\<forall>mr ch x. x \<in> set (regs w mr ch) \<longrightarrow> x < w_next w \<and> sub_channel (w_subs w x) = ch)
     \<and> (\<forall>ch x. x \<in> set (slice_at (w_subscriptions w) ch) \<longrightarrow> x < w_next w \<and> sub_channel (w_subs w x) = ch)"

definition at_home :: "world \<Rightarrow> bool" where
  "at_home w \<longleftrightarrow> (\<forall>mr ch x. map_of (pl_pubSubMetadata (w_pool w)) mr \<noteq> None \<longrightarrow> x \<in> set (regs w mr ch) \<longrightarrow>
     sub_pubsub (w_subs w x) = Some mr)"

text \<open>The metadata of a connection have the reference of the connection; all connections are allocated.\<close>

definition conns_ok :: "world \<Rightarrow> bool" where
  "conns_ok w \<longleftrightarrow> pool_ok (w_metas w) (w_pool w) \<and> (\<forall>n. \<forall>ps \<in> set (conns (w_pool w) n). ps < w_next w)
     \<and> (\<forall>ps mr. map_of (pl_pubSubMetadata (w_pool w)) ps = Some mr \<longrightarrow> mr = ps \<and> ps < w_next w)"

text \<open>\<open>world_fine\<close> holds however the critical sections of all goroutines interleave; \<open>world_inv\<close> adds that the
  registrations of a connection are distinct and at home, which depends on how they interleave.\<close>

definition world_fine :: "world \<Rightarrow> bool" where
  "world_fine w \<longleftrightarrow> delivery_ok w \<and> (\<forall>mr. reg_ok (w_metas w mr)) \<and> map_fine (w_subscriptions w)
     \<and> topo_inv (w_topology w) \<and> filed w \<and> conns_ok w"

definition world_inv :: "world \<Rightarrow> bool" where
  "world_inv w \<longleftrightarrow> delivery_ok w \<and> (\<forall>mr. regs_inv (w_metas w mr)) \<and> map_fine (w_subscriptions w)
     \<and> topo_inv (w_topology w) \<and> filed w \<and> at_home w \<and> conns_ok w"

lemma world_inv_fine: "world_inv w \<Longrightarrow> world_fine w"
  by (simp add: world_inv_def world_fine_def regs_inv_def reg_ok_def)

section \<open>Tame changes\<close>

definition tame_subs :: "world \<Rightarrow> world \<Rightarrow> bool" where
  "tame_subs w w' \<longleftrightarrow> w_next w \<le> w_next w'
     \<and> (\<forall>x. sub_channel (w_subs w' x) = sub_channel (w_subs w x) \<and> sub_pubsub (w_subs w' x) = sub_pubsub (w_subs w x))"

definition tame_regs :: "world \<Rightarrow> world \<Rightarrow> bool" where
  "tame_regs w w' \<longleftrightarrow> (\<forall>mr. (regs_inv (w_metas w mr) \<longrightarrow> regs_inv (w_metas w' mr)) \<and> (reg_ok (w_metas w mr) \<longrightarrow> reg_ok (w_metas w' mr))
        \<and> m_nodeAddr (w_metas w' mr) = m_nodeAddr (w_metas w mr) \<and> (\<forall>ch. set (regs w' mr ch) \<subseteq> set (regs w mr ch)))
     \<and> (map_fine (w_subscriptions w) \<longrightarrow> map_fine (w_subscriptions w'))
     \<and> (\<forall>ch. set (slice_at (w_subscriptions w') ch) \<subseteq> set (slice_at (w_subscriptions w) ch))"

definition tame_pool :: "world \<Rightarrow> world \<Rightarrow> bool" where
  "tame_pool w w' \<longleftrightarrow> (pool_ok (w_metas w) (w_pool w) \<longrightarrow> pool_ok (w_metas w') (w_pool w'))
     \<and> (\<forall>n. set (conns (w_pool w') n) \<subseteq> set (conns (w_pool w) n))
     \<and> (\<forall>ps mr. map_of (pl_pubSubMetadata (w_pool w')) ps = Some mr \<longrightarrow> map_of (pl_pubSubMetadata (w_pool w)) ps = Some mr)"

definition tame_delivery :: "world \<Rightarrow> world \<Rightarrow> bool" where
  "tame_delivery w w' \<longleftrightarrow> (delivery_ok w \<longrightarrow> delivery_ok w' \<and> (\<forall>ds. drains_ok ds w \<longrightarrow> drains_ok ds w'))"

definition tame :: "world \<Rightarrow> world \<Rightarrow> bool" where
  "tame w w' \<longleftrightarrow> tame_subs w w' \<and> tame_regs w w' \<and> tame_pool w w' \<and> tame_delivery w w'
     \<and> (topo_inv (w_topology w) \<longrightarrow> topo_inv (w_topology w'))"

lemmas tame_defs = tame_def tame_subs_def tame_regs_def tame_pool_def tame_delivery_def

named_theorems tame_intros \<open>operations that are tame\<close>

lemma tame_refl [simp, tame_intros]: "tame w w"
  by (simp add: tame_defs)

lemma tame_parts_trans:
  "tame_subs w v \<Longrightarrow> tame_subs v u \<Longrightarrow> tame_subs w u" "tame_regs w v \<Longrightarrow> tame_regs v u \<Longrightarrow> tame_regs w u"
  "tame_pool w v \<Longrightarrow> tame_pool v u \<Longrightarrow> tame_pool w u" "tame_delivery w v \<Longrightarrow> tame_delivery v u \<Longrightarrow> tame_delivery w u"
  by (force simp: tame_subs_def, unfold tame_regs_def tame_pool_def, metis subset_trans, metis subset_trans)
     (simp add: tame_delivery_def)

lemma tame_trans: "tame w v \<Longrightarrow> tame v u \<Longrightarrow> tame w u"
  unfolding tame_def using tame_parts_trans by blast

lemma tame_next: "tame w w' \<Longrightarrow> x < w_next w \<Longrightarrow> x < w_next w'"
  by (auto simp: tame_defs)

lemma tameD:
  assumes "tame w w'"
  shows "x \<in> set (regs w' mr ch) \<Longrightarrow> x \<in> set (regs w mr ch)"
    and "x \<in> set (slice_at (w_subscriptions w') ch) \<Longrightarrow> x \<in> set (slice_at (w_subscriptions w) ch)"
    and "ps \<in> set (conns (w_pool w') n) \<Longrightarrow> ps \<in> set (conns (w_pool w) n)"
    and "map_of (pl_pubSubMetadata (w_pool w')) ps = Some m \<Longrightarrow> map_of (pl_pubSubMetadata (w_pool w)) ps = Some m"
    and "sub_channel (w_subs w' x) = sub_channel (w_subs w x)" and "sub_pubsub (w_subs w' x) = sub_pubsub (w_subs w x)"
  using assms by (auto simp: tame_defs)

lemma tame_world_fine:
  assumes "tame w w'" and "world_fine w"
  shows "world_fine w'"
proof -
  note t = tameD [OF assms(1)] tame_next [OF assms(1)]
  have "filed w" "conns_ok w" using assms(2) by (auto simp: world_fine_def)
  then have "filed w'" unfolding filed_def using t by metis
  moreover have "pool_ok (w_metas w) (w_pool w) \<Longrightarrow> pool_ok (w_metas w') (w_pool w')"
    using assms(1) by (simp add: tame_def tame_pool_def)
  then have "conns_ok w'" using \<open>conns_ok w\<close> t unfolding conns_ok_def by metis
  ultimately show ?thesis using assms by (auto simp: tame_defs world_fine_def)
qed

lemma world_inv_iff: "world_inv w \<longleftrightarrow> world_fine w \<and> (\<forall>mr. regs_inv (w_metas w mr)) \<and> at_home w"
  by (auto simp: world_inv_def world_fine_def regs_inv_def reg_ok_def)

lemma tame_world_inv:
  assumes "tame w w'" and "world_inv w"
  shows "world_inv w'"
proof -
  note t = tameD [OF assms(1)]
  have "at_home w" using assms(2) by (simp add: world_inv_def)
  then have "at_home w'" unfolding at_home_def using t by (metis not_None_eq)
  moreover have "\<forall>mr. regs_inv (w_metas w' mr)" using assms by (simp add: tame_def tame_regs_def world_inv_def)
  ultimately show ?thesis using tame_world_fine [OF assms(1)] assms(2) by (simp add: world_inv_iff)
qed

lemma tame_drains: "tame w w' \<Longrightarrow> delivery_ok w \<Longrightarrow> drains_ok ds w \<Longrightarrow> drains_ok ds w'"
  by (simp add: tame_defs)

text \<open>Folds.\<close>

lemma tame_fold:
  assumes "\<And>x v. x \<in> set xs \<Longrightarrow> x < w_next v \<Longrightarrow> tame v (f x v)" and "\<forall>x \<in> set xs. x < w_next w"
  shows "tame w (fold f xs w)"
  using assms
proof (induction xs arbitrary: w)
  case (Cons x xs)
  have t: "tame w (f x w)" using Cons.prems by simp
  then have "tame (f x w) (fold f xs (f x w))" using Cons.prems tame_next [OF t] by (intro Cons.IH) auto
  with t show ?case using tame_trans by simp
qed simp

lemma tame_fold_any: "(\<And>x v. tame v (f x v)) \<Longrightarrow> tame w (fold f xs w)"
  by (induction xs arbitrary: w) (auto intro: tame_trans)

subsection \<open>Primitive changes\<close>

lemma tame_delivery_same:
  assumes "\<And>r. sub_sequencer (w_subs w' r) = sub_sequencer (w_subs w r)" and "w_workerPool w' = w_workerPool w"
    and "w_goDrains w' = w_goDrains w" and "w_blocked w' = w_blocked w" and "w_panicked w' = w_panicked w"
    and "w_next w \<le> w_next w'"
  shows "tame_delivery w w'"
  using assms
  by (auto simp: tame_delivery_def delivery_ok_def drains_ok_def drain_tasks_def queued_def dest: less_le_trans)

lemma tame_fields:
  assumes "w_subs w' = w_subs w" and "w_metas w' = w_metas w" and "w_pool w' = w_pool w"
    and "w_subscriptions w' = w_subscriptions w" and "w_topology w' = w_topology w" and "w_workerPool w' = w_workerPool w"
    and "w_goDrains w' = w_goDrains w" and "w_blocked w' = w_blocked w" and "w_panicked w' = w_panicked w"
    and "w_next w \<le> w_next w'"
  shows "tame w w'"
  using assms tame_delivery_same [of w' w] by (simp add: tame_def tame_subs_def tame_regs_def tame_pool_def regs_def)

lemma tame_respond [tame_intros]: "tame w (respond cmd e w)"
  by (rule tame_fields) (simp_all add: respond_def split: option.split)

lemma tame_metric [tame_intros]: "tame w (record_metric mt w)"
  by (rule tame_fields) (simp_all add: record_metric_def)

lemma tame_redirect [tame_intros]: "tame w (checkAndHandleRedirect rd e w)"
  by (rule tame_fields) (simp_all add: checkAndHandleRedirect_def split: option.split)

text \<open>A change of a subscription that keeps its channel, connection and sequencer.\<close>

definition inert :: "(subscription \<Rightarrow> subscription) \<Rightarrow> bool" where
  "inert f \<longleftrightarrow> (\<forall>s. sub_channel (f s) = sub_channel s \<and> sub_pubsub (f s) = sub_pubsub s \<and> sub_sequencer (f s) = sub_sequencer s)"

lemma tame_upd_sub: 
  assumes "sub_channel s = sub_channel (w_subs w r)" and "sub_pubsub s = sub_pubsub (w_subs w r)"
    and "sub_sequencer s = sub_sequencer (w_subs w r)"
  shows "tame w (upd_sub r (\<lambda>_. s) w)"
proof -
  have "tame_delivery w (upd_sub r (\<lambda>_. s) w)"
    using assms by (intro tame_delivery_same) (auto simp: upd_sub_def)
  then show ?thesis using assms by (simp add: tame_def tame_subs_def tame_regs_def tame_pool_def regs_def upd_sub_def)
qed

lemma tame_inert: "inert f \<Longrightarrow> tame w (upd_sub r f w)"
  using tame_upd_sub [of "f (w_subs w r)" w r] by (simp add: inert_def upd_sub_def)

lemma inert_setState [simp]: "inert (setState st e)"
  by (simp add: inert_def)

lemma tame_setState [tame_intros]: "tame w (upd_sub r (setState st e) w)"
  by (rule tame_inert) simp

lemma tame_confirmed: "waitForConfirmation pick e (w_subs w r) = Some (s, res) \<Longrightarrow> tame w (upd_sub r (\<lambda>_. s) w)"
  by (rule tame_upd_sub) (auto simp: waitForConfirmation_def dest!: go_select_ready split: option.splits)

text \<open>A change of the metadata that adds no registration.\<close>

lemma tame_upd_meta:
  assumes "regs_inv (w_metas w mr) \<Longrightarrow> regs_inv (f (w_metas w mr))" and "reg_ok (w_metas w mr) \<Longrightarrow> reg_ok (f (w_metas w mr))" and "m_nodeAddr (f (w_metas w mr)) = m_nodeAddr (w_metas w mr)"
    and "\<And>ch. set (slice_at (m_subscriptions (f (w_metas w mr))) ch) \<subseteq> set (slice_at (m_subscriptions (w_metas w mr)) ch)"
  shows "tame w (upd_meta mr f w)"
proof -
  have "tame_delivery w (upd_meta mr f w)" by (rule tame_delivery_same) (auto simp: upd_meta_def)
  then show ?thesis using assms by (auto simp: tame_def tame_subs_def tame_regs_def tame_pool_def regs_def pool_ok_def upd_meta_def)
qed

lemma tame_removeSubscription [tame_intros]: "tame w (upd_meta mr (removeSubscription ch x) w)"
  by (rule tame_upd_meta) (auto simp: regs_inv_remove reg_ok_def removeSubscription_wf removeSubscription_subs dest: set_remove1_subset [THEN subsetD])

lemma tame_removePending [tame_intros]: "tame w (upd_meta mr (removePendingSubscription ch) w)"
  by (rule tame_upd_meta) (auto simp: regs_inv_removePending, auto simp: reg_ok_def removePendingSubscription_def)

lemma tame_meta_fields:
  assumes "m_subscriptions m = m_subscriptions (w_metas w mr)" and "m_pendingSubscriptions m = m_pendingSubscriptions (w_metas w mr)"
    and "m_nodeAddr m = m_nodeAddr (w_metas w mr)"
  shows "tame w (upd_meta mr (\<lambda>_. m) w)"
  using assms regs_inv_cong [of m "w_metas w mr"] by (intro tame_upd_meta) (auto simp: reg_ok_def)

subsection \<open>Delivery\<close>

lemma start_drain_places:
  assumes "start_drain pick pool t = Some (pool', how, ms)"
  shows "(how = ByTrySubmit \<or> how = BySubmit) \<and>
      (\<exists>wp wp'. pool = Some wp \<and> pool' = Some wp' \<and> wp_taskQueue wp' = wp_taskQueue wp @ [t] \<and> wp_cap wp' = wp_cap wp)
    \<or> (how = ByGoroutine \<or> how = BlockedInSubmit) \<and> pool' = pool"
proof -
  have sent: "wp_taskQueue wp' = wp_taskQueue wp @ [t] \<and> wp_cap wp' = wp_cap wp" if "send_task wp t = Submitted wp'" for wp wp'
    using that by (auto simp: send_task_def split: if_splits)
  have t: "wp_taskQueue wp' = wp_taskQueue wp @ [t] \<and> wp_cap wp' = wp_cap wp" if "TrySubmit wp t = Submitted wp'" for wp wp'
    using that sent by (auto simp: TrySubmit_def send_or_give_up_def split: if_splits)
  have s: "wp_taskQueue wp' = wp_taskQueue wp @ [t] \<and> wp_cap wp' = wp_cap wp" if "Submit pick wp t = Submitted wp'" for wp wp'
    using that sent by (auto simp: Submit_def send_or_wait_def dest!: go_select_ready split: if_splits option.splits)
  show ?thesis using assms t s by (auto simp: start_drain_def split: option.splits submit_result.splits)
qed

lemma drains_okD:
  assumes "drains_ok ds w"
  shows "count_list (drain_tasks w) r + count_list ds r = (if s_active (sub_sequencer (w_subs w r)) then 1 else 0)"
    and "queued w r \<noteq> [] \<Longrightarrow> s_active (sub_sequencer (w_subs w r))"
    and "s_active (sub_sequencer (w_subs w r)) \<Longrightarrow> r < w_next w"
    and "\<exists>wp. w_workerPool w = Some wp \<and> wp_cap wp > 0"
  using assms unfolding drains_ok_def by (metis count_list_append, metis, metis, metis)

text \<open>An accepted message finds a drain active or hands one, exactly one, to the pool, to a goroutine or to
  a caller that waits for the pool.\<close>

lemma enqueue_hands_over:
  assumes "seq_ok s" and "enqueue pick now pool sub msg s = Some e"
  shows "s_active (e_seq e) = (s_active s \<or> \<not> full s)
    \<and> (if full s \<or> s_active s then e_pool e = pool \<and> e_drain e = None
       else \<exists>how ms. start_drain pick pool sub = Some (e_pool e, how, ms) \<and> e_drain e = Some how)"
proof (cases "full s")
  case True
  then show ?thesis using assms(2) by (auto simp: enqueue_def enqueue_locked_full [OF assms(1) True] ready_def split: if_splits)
next
  case False
  from enqueue_locked_room [OF assms(1) False, of now msg] obtain q m where
    "enqueue_locked now msg s = Some (s\<lparr>s_queue := q, s_active := True, s_overflowing := False, s_dropCount := 0\<rparr>,
      if s_active s then Queued else StartDrain, m)" by blast
  with False assms(2) show ?thesis by (cases "s_active s") (auto simp: enqueue_def split: option.splits)
qed

lemma invoke_drains:
  assumes "delivery_ok w" and "drains_ok ds w" and "sub < w_next w"
  shows "drains_ok ds (invokeCallbackOrdered pick now sub msg w)"
proof -
  let ?s = "sub_sequencer (w_subs w sub)" and ?w = "invokeCallbackOrdered pick now sub msg w"
  have ok: "seq_ok ?s" "pool_safe (w_workerPool w)" using assms(1) by (auto simp: delivery_ok_def)
  obtain e where e: "enqueue pick now (w_workerPool w) sub msg ?s = Some e" using enqueue_outcome [OF ok] by blast
  have fr: "sub_sequencer (w_subs ?w r) = (if r = sub then e_seq e else sub_sequencer (w_subs w r))" "w_next ?w = w_next w"
    "w_workerPool ?w = e_pool e" "w_goDrains ?w = w_goDrains w @ (if e_drain e = Some ByGoroutine then [sub] else [])"
    "w_blocked ?w = w_blocked w @ (if e_drain e = Some BlockedInSubmit then [sub] else [])" for r
    by (simp_all add: invokeCallbackOrdered_def e upd_sub_def start_by_def split: option.split drain_start.split)
  have q: "queued ?w r \<noteq> [] \<Longrightarrow> r = sub \<or> queued w r \<noteq> []" for r
    using invoke_delivery [OF assms(1), of pick now sub msg r] by (auto split: if_splits)
  have act: "s_active (e_seq e) = (s_active ?s \<or> \<not> full ?s)
    \<and> (\<forall>r. count_list (drain_tasks ?w) r = count_list (drain_tasks w) r + (if r = sub \<and> \<not> full ?s \<and> \<not> s_active ?s then 1 else 0))
    \<and> (\<exists>wp. e_pool e = Some wp \<and> wp_cap wp > 0)"
    using start_drain_places [of pick "w_workerPool w" sub] enqueue_hands_over [OF ok(1) e] drains_okD(4) [OF assms(2)]
    by (cases "full ?s \<or> s_active ?s") (auto simp: drain_tasks_def fr)
  have "queued ?w sub \<noteq> [] \<Longrightarrow> s_active (e_seq e)"
    using invoke_delivery [OF assms(1), of pick now sub msg sub] assms(2) act
    by (auto simp: drains_ok_def queue_full_def split: if_splits)
  then have one: "count_list (drain_tasks ?w @ ds) r = (if s_active (sub_sequencer (w_subs ?w r)) then 1 else 0)
      \<and> (queued ?w r \<noteq> [] \<longrightarrow> s_active (sub_sequencer (w_subs ?w r))) \<and> (s_active (sub_sequencer (w_subs ?w r)) \<longrightarrow> r < w_next ?w)" for r
    using drains_okD(1-3) [OF assms(2), of r] assms(3) act q [of r] by (cases "r = sub") (auto simp: fr(1,2))
  show ?thesis unfolding drains_ok_def using one act fr(3) by auto
qed

lemma tame_invoke [tame_intros]: "sub < w_next w \<Longrightarrow> tame w (invokeCallbackOrdered pick now sub msg w)"
proof -
  assume lt: "sub < w_next w"
  have "w_next (invokeCallbackOrdered pick now sub msg w) = w_next w"
    by (simp add: invokeCallbackOrdered_def upd_sub_def start_by_def split: option.split drain_start.split)
  then show ?thesis using lt invoke_drains invoke_delivery
    by (simp add: tame_def tame_subs_def tame_regs_def tame_pool_def tame_delivery_def regs_def)
qed

lemma tame_dispatch_one: "sub < w_next w \<Longrightarrow> tame w (dispatch_one pick now msg sub w)"
  by (simp add: dispatch_one_def Let_def tame_invoke)

lemma tame_notify_one: "sub < w_next w \<Longrightarrow> tame w (notify_one pick now err sub w)"
  by (auto simp: notify_one_def Let_def intro!: tame_trans [OF tame_setState tame_invoke])

lemma tame_broadcast: "\<forall>s \<in> set subs. s < w_next w \<Longrightarrow> tame w (broadcastSignal pick now subs sig w)"
  unfolding broadcastSignal_def by (rule tame_fold) (auto intro: tame_invoke)

section \<open>The event loop\<close>

lemma registered_allocated:
  assumes "world_fine w"
  shows "x \<in> set (getSubscriptions ch (w_metas w mr)) \<Longrightarrow> x < w_next w"
    and "x \<in> set (getAllSubscriptions (w_metas w mr)) \<Longrightarrow> x < w_next w"
    and "x \<in> set (all_slices (w_subscriptions w)) \<Longrightarrow> x < w_next w"
proof -
  have f: "x \<in> set (regs w mr ch) \<Longrightarrow> x < w_next w" "x \<in> set (slice_at (w_subscriptions w) ch) \<Longrightarrow> x < w_next w" for ch
    using assms by (auto simp: world_fine_def filed_def)
  have wf: "wf_gomap (m_subscriptions (w_metas w mr))" "wf_gomap (w_subscriptions w)"
    using assms by (auto simp: world_fine_def reg_ok_def map_fine_def map_ok_def)
  show "x \<in> set (getSubscriptions ch (w_metas w mr)) \<Longrightarrow> x < w_next w" using f(1) by (simp add: regs_def getSubscriptions_def)
  show "x \<in> set (getAllSubscriptions (w_metas w mr)) \<Longrightarrow> x < w_next w"
    using f(1) by (auto simp: getAllSubscriptions_eq set_all_slices [OF wf(1)] regs_def)
  show "x \<in> set (all_slices (w_subscriptions w)) \<Longrightarrow> x < w_next w" using f(2) by (auto simp: set_all_slices [OF wf(2)])
qed

text \<open>Composition: the second part may rely on the invariant, which the first has kept.\<close>

lemma tame_then:
  assumes "world_fine w" and "tame w v" and "world_fine v \<Longrightarrow> tame v u"
  shows "tame w u"
  using assms tame_world_fine tame_trans by blast

lemma tame_metric_fold:
  assumes "world_fine w" and "\<And>x v. x < w_next v \<Longrightarrow> tame v (f x v)" and "\<And>x. x \<in> set xs \<Longrightarrow> x < w_next w"
  shows "tame w (fold f xs (record_metric mt w))"
proof -
  have "tame (record_metric mt w) (fold f xs (record_metric mt w))"
    using assms(2,3) by (intro tame_fold) (auto simp: record_metric_def)
  then show ?thesis using tame_trans [OF tame_metric] by blast
qed

lemma tame_notify: "world_fine w \<Longrightarrow> tame w (notifySubscriptionsOfFailure pick now mr err w)"
  unfolding notifySubscriptionsOfFailure_def Let_def
  by (rule tame_metric_fold) (auto intro: tame_notify_one dest: registered_allocated(2))

lemma tame_dispatch: "world_fine w \<Longrightarrow> tame w (dispatchMessage pick now mr key msg w)"
  unfolding dispatchMessage_def Let_def
  by (simp, intro impI tame_metric_fold) (auto intro: tame_dispatch_one dest: registered_allocated(1))

lemma tame_processResponse: "world_fine w \<Longrightarrow> tame w (processResponse pick now mr msg w)"
  unfolding processResponse_def handleSubscriptionConfirmation_def handleMessageFromPubSub_def handlePMessageFromPubSub_def
    handleSMessageFromPubSub_def
  by (auto simp: Let_def tame_dispatch intro: tame_trans [OF tame_setState tame_removePending]
      split: redisMsg.split option.split)

lemma tame_meta_setState [tame_intros]: "tame w (upd_meta mr (meta_setState st) w)"
  by (rule tame_upd_meta) (simp_all, simp_all add: reg_ok_def meta_setState_def)

lemma tame_sendRedis: "sendRedisCommand rd answer cmd w = (w1, e) \<Longrightarrow> tame w w1"
  by (auto simp: sendRedisCommand_def intro: tame_intros split: if_splits option.splits)

lemma tame_handle_command:
  assumes "world_fine w" and "handle_command rd pick now answer mr cmd w = (w', left)"
  shows "tame w w'"
proof -
  obtain w1 e where s: "sendRedisCommand rd answer cmd w = (w1, e)" by fastforce
  note t1 = tame_sendRedis [OF s]
  show ?thesis
  proof (cases e)
    case None
    then show ?thesis using assms(2) tame_trans [OF t1 tame_respond] by (auto simp: handle_command_def s)
  next
    case (Some err)
    define w2 where "w2 = (case c_sub cmd of None \<Rightarrow> w1 | Some sub \<Rightarrow> if isSubscribeCommand (c_cmd cmd)
      then upd_sub sub (setState subStateFailed (Some err)) (upd_meta mr (removePendingSubscription (sub_channel (w_subs w1 sub))) w1)
      else w1)"
    have "tame w1 w2" by (auto simp: w2_def intro: tame_trans [OF tame_removePending tame_setState] split: option.split)
    then have t3: "tame w (respond cmd (Some err) w2)" using t1 tame_respond tame_trans by blast
    have "w' = respond cmd (Some err) w2 \<or>
        w' = notifySubscriptionsOfFailure pick now mr err (upd_meta mr (meta_setState connStateFailed) (respond cmd (Some err) w2))"
      using assms(2) Some by (auto simp: handle_command_def s Let_def w2_def split: if_splits)
    with t3 show ?thesis using tame_then [OF assms(1) tame_trans [OF t3 tame_meta_setState] tame_notify] by blast
  qed
qed

lemma tame_take: "tame w (upd_meta mr (\<lambda>m. m\<lparr>m_cmdCh := cs\<rparr>) w)"
  using tame_meta_fields [of "(w_metas w mr)\<lparr>m_cmdCh := cs\<rparr>" w mr] by (simp add: upd_meta_def)

lemma tame_iteration:
  assumes "world_fine w" and "loop_iteration rd pick now mr ev w = Some (w', left)"
  shows "tame w w'"
proof (cases ev)
  case (CmdReady answer)
  then obtain cmd rest where c: "handle_command rd pick now answer mr cmd (upd_meta mr (\<lambda>m. m\<lparr>m_cmdCh := rest\<rparr>) w) = (w', left)"
    using assms(2) by (auto simp: loop_iteration_def split: list.splits)
  show ?thesis by (rule tame_then [OF assms(1) tame_take]) (rule tame_handle_command [OF _ c])
next
  case (MsgReady msg)
  then show ?thesis using assms tame_processResponse by (auto simp: loop_iteration_def)
next
  case MsgChClosed
  then show ?thesis using assms tame_then [OF assms(1) tame_meta_setState tame_notify] by (auto simp: loop_iteration_def)
next
  case DoneClosed
  then show ?thesis using assms by (auto simp: loop_iteration_def split: if_splits)
qed

subsection \<open>The end of a loop\<close>

lemma tame_pool_change:
  assumes "pool_ok (w_metas w) (w_pool w) \<Longrightarrow> pool_ok (w_metas w) p" and "\<And>n. set (conns p n) \<subseteq> set (conns (w_pool w) n)"
    and "\<And>ps mr. map_of (pl_pubSubMetadata p) ps = Some mr \<Longrightarrow> map_of (pl_pubSubMetadata (w_pool w)) ps = Some mr"
  shows "tame w (w\<lparr>w_pool := p\<rparr>)"
proof -
  have "tame_delivery w (w\<lparr>w_pool := p\<rparr>)" by (rule tame_delivery_same) simp_all
  then show ?thesis using assms by (simp add: tame_def tame_subs_def tame_regs_def tame_pool_def regs_def)
qed

lemma wf_removePubSub:
  assumes "pool_ok metas p"
  shows "wf_gomap (pl_nodePubSubs (removePubSub metas ps p)) \<and> wf_gomap (pl_hashslotPubSubs (removePubSub metas ps p))"
proof -
  have "map fst (filter P (map (\<lambda>(k, v). (k, f v)) m)) = map fst (filter (P \<circ> (\<lambda>(k, v). (k, f v))) m)"
    for P and f :: "ps_ref list \<Rightarrow> ps_ref list" and m :: "(int, ps_ref list) gomap" by (induction m) auto
  then have "wf_gomap m \<Longrightarrow> wf_gomap (filter P (map (\<lambda>(k, v). (k, f v)) m))"
    for P and f :: "ps_ref list \<Rightarrow> ps_ref list" and m :: "(int, ps_ref list) gomap"
    by (simp add: wf_gomap_def distinct_map_filter)
  then show ?thesis using assms
    by (auto simp: removePubSub_def pool_ok_def Let_def intro: inv_intros split: option.split)
qed

lemma tame_removePubSub:
  assumes "world_fine w"
  shows "tame w (w\<lparr>w_pool := removePubSub (w_metas w) ps (w_pool w)\<rparr>)"
proof (cases "map_of (pl_pubSubMetadata (w_pool w)) ps")
  case None
  then show ?thesis by (simp add: removePubSub_def)
next
  case (Some mr)
  have ok: "pool_ok (w_metas w) (w_pool w)" using assms by (simp add: world_fine_def conns_ok_def)
  note l = removePubSub_lookup [OF ok Some]
  show ?thesis
  proof (rule tame_pool_change)
    show "pool_ok (w_metas w) (removePubSub (w_metas w) ps (w_pool w))"
      using ok wf_removePubSub [OF ok] l notin_set_remove1 unfolding pool_ok_def by (auto split: if_splits)
  qed (use l in \<open>auto dest: set_remove1_subset [THEN subsetD] split: if_splits\<close>)
qed

lemma tame_map_change:
  assumes "map_fine (w_subscriptions w) \<Longrightarrow> map_fine m" and "\<And>ch. set (slice_at m ch) \<subseteq> set (slice_at (w_subscriptions w) ch)"
  shows "tame w (w\<lparr>w_subscriptions := m\<rparr>)"
proof -
  have "tame_delivery w (w\<lparr>w_subscriptions := m\<rparr>)" by (rule tame_delivery_same) simp_all
  then show ?thesis using assms by (simp add: tame_def tame_subs_def tame_regs_def tame_pool_def regs_def)
qed

lemma tame_unregister [tame_intros]: "tame w (removeSubscriptionFromMap ch x w)"
  unfolding removeSubscriptionFromMap_def
  by (rule tame_map_change)
     (auto simp: map_fine_def map_ok_remove remove_from_map_subs dest: set_remove1_subset [THEN subsetD] split: if_splits)

lemma tame_close: "tame w (upd_meta mr (\<lambda>_. if snd (close_locked m) then close_client (fst (close_locked m)) else fst (close_locked m)) w)"
  if "m = w_metas w mr"
  using that by (intro tame_meta_fields) (simp_all add: close_locked_def close_client_def)

lemma tame_psClose: "tame w (w\<lparr>w_psCloses := xs\<rparr>)"
  by (rule tame_fields) simp_all

lemma tame_drainCmdCh: "tame w (drainCmdCh mr w)"
  unfolding drainCmdCh_def by (rule tame_trans [OF tame_fold_any tame_take]) (rule tame_respond)

lemma tame_onExit:
  assumes "world_fine w"
  shows "tame w (onEventLoopExit ps mr w)"
proof -
  let ?c = "close_locked (w_metas w mr)"
  let ?w1 = "upd_meta mr (\<lambda>_. if snd ?c then close_client (fst ?c) else fst ?c) w"
  let ?w2 = "?w1\<lparr>w_psCloses := w_psCloses ?w1 @ [ps]\<rparr>"
  let ?w3 = "?w2\<lparr>w_pool := removePubSub (w_metas ?w2) ps (w_pool ?w2)\<rparr>"
  have t: "tame w ?w3"
    by (rule tame_then [OF assms tame_trans [OF tame_close [OF refl] tame_psClose]]) (rule tame_removePubSub)
  have "tame ?w3 (fold (\<lambda>sub v. removeSubscriptionFromMap (sub_channel (w_subs v sub)) sub v) xs ?w3)" for xs
    by (rule tame_fold_any) (rule tame_unregister)
  from t tame_trans [OF t this] show ?thesis by (simp add: onEventLoopExit_def case_prod_beta Let_def)
qed

lemma tame_exit: "world_fine w \<Longrightarrow> tame w (loop_exit ps mr w)"
proof -
  assume inv: "world_fine w"
  let ?v = "drainCmdCh mr w"
  have "tame ?v (upd_meta mr (\<lambda>m. m\<lparr>m_loopDoneCloses := Suc (m_loopDoneCloses m)\<rparr>) ?v)"
    by (rule tame_upd_meta) (simp_all add: regs_inv_def reg_ok_def)
  then show ?thesis unfolding loop_exit_def by (rule tame_then [OF inv tame_trans [OF tame_drainCmdCh] tame_onExit])
qed

section \<open>Calls\<close>

lemma tame_cleanup: "tame w (sub_cleanup sub mr w)"
  unfolding sub_cleanup_def Let_def
  by (rule tame_trans [OF tame_trans [OF tame_metric tame_unregister] tame_removeSubscription])

lemma tame_success: "tame w (sub_success sub w)"
  by (simp add: sub_success_def tame_metric)

lemma tame_finish_confirm: "tame w (fst (finish_confirm sub mr result w))"
  by (auto simp: finish_confirm_def tame_cleanup tame_success split: option.split)

lemma tame_finish_other: "tame w (fst (finish_other sub mr pending result w))"
  by (auto simp: finish_other_def tame_cleanup intro: tame_trans [OF tame_setState tame_success] split: option.split)

lemma tame_after_send: "tame w (fst (after_sendCommand sub mr result w))"
  by (auto simp: after_sendCommand_def intro: tame_trans [OF tame_removePending tame_cleanup] split: option.split)

lemma tame_sendCommand: "sendCommand pick e cmd (w_metas w mr) = Some (m, res) \<Longrightarrow> tame w (upd_meta mr (\<lambda>_. m) w)"
  by (rule tame_meta_fields) (auto simp: sendCommand_def dest!: go_select_ready)

lemma tame_alloc: "tame w (w\<lparr>w_next := Suc r, w_responses := f\<rparr>)" if "r = w_next w"
  using that by (intro tame_fields) simp_all

lemma tame_remove_all: "tame w (remove_all_from_meta mr subs w)"
  unfolding remove_all_from_meta_def by (rule tame_fold_any) (rule tame_removeSubscription)

lemma tame_close_subs: "tame w (fold (\<lambda>s. upd_sub s (setState st e)) subs w)"
  by (rule tame_fold_any) (rule tame_setState)

lemma tame_unsub_channel:
  assumes "unsub_channel pick toUnsub grp (w, fe, pend) = Some (w', fe', pend')"
  shows "tame w w'"
proof -
  obtain channel internalSubs where g: "grp = (channel, internalSubs)" by fastforce
  let ?w1 = "fold (\<lambda>s. upd_sub s (setState subStateClosed None)) internalSubs w"
  let ?w2 = "?w1\<lparr>w_next := Suc (w_next ?w1), w_responses := (w_responses ?w1)(w_next ?w1 := [])\<rparr>"
  have t2: "tame w ?w2" by (rule tame_trans [OF tame_close_subs tame_alloc [OF refl]])
  have t3: "tame w (upd_meta mr (\<lambda>_. m) ?w2)" if "sendCommand pick None cmd (w_metas ?w2 mr) = Some (m, res)" for mr m cmd res
    by (rule tame_trans [OF t2 tame_sendCommand [OF that]])
  have t4: "tame w (remove_all_from_meta mr internalSubs ?w1)" for mr
    by (rule tame_trans [OF tame_close_subs tame_remove_all])
  show ?thesis using assms t3 t4 tame_trans [OF t3 tame_remove_all]
    by (auto simp: unsub_channel_def g Let_def split: if_splits option.splits)
qed

lemma tame_unsub_channels:
  "unsub_channels pick toUnsub gs (w, fe, pend) = Some (w', fe', pend') \<Longrightarrow> tame w w'"
proof (induction gs arbitrary: w fe pend)
  case (Cons g gs)
  then obtain v fv pv where v: "unsub_channel pick toUnsub g (w, fe, pend) = Some (v, fv, pv)"
    "unsub_channels pick toUnsub gs (v, fv, pv) = Some (w', fe', pend')"
    by (auto split: option.splits)
  with Cons.IH tame_unsub_channel [OF v(1)] tame_trans show ?case by blast
qed simp

lemma tame_remove_all_map: "tame w (remove_all_from_map groups w)"
proof -
  let ?f = "\<lambda>(channel, internalSubs) m. store_slice channel (filter (\<lambda>s. s \<notin> set internalSubs) (slice_at m channel)) m"
  have "(map_fine m \<longrightarrow> map_fine (fold ?f groups m)) \<and> (\<forall>ch. set (slice_at (fold ?f groups m) ch) \<subseteq> set (slice_at m ch))" for m
  proof (induction groups arbitrary: m)
    case (Cons g groups)
    obtain ch xs where g: "g = (ch, xs)" by fastforce
    let ?m = "store_slice ch (filter (\<lambda>s. s \<notin> set xs) (slice_at m ch)) m"
    have "map_fine m \<Longrightarrow> map_fine ?m" by (auto simp: map_fine_def map_ok_def slice_simps intro: inv_intros)
    moreover have "set (slice_at ?m c) \<subseteq> set (slice_at m c)" for c by (auto simp: slice_simps)
    ultimately show ?case using Cons.IH [of ?m] by (simp add: g) (meson subset_trans)
  qed simp
  then show ?thesis unfolding remove_all_from_map_def by (intro tame_map_change) blast+
qed

lemma tame_unsubscribe: "unsubscribe_start pick subs w = Some (w', r) \<Longrightarrow> tame w w'"
  by (auto simp: unsubscribe_start_def Let_def intro: tame_trans [OF tame_remove_all_map tame_unsub_channels] split: if_splits)

lemma tame_unsub_wait: "unsub_wait pick e p w = Some (w', r) \<Longrightarrow> tame w w'"
proof -
  assume u: "unsub_wait pick e p w = Some (w', r)"
  obtain mr subs resp where p: "p = (mr, subs, resp)" by (cases p)
  let ?v = "w\<lparr>w_responses := (w_responses w)(resp := tl (w_responses w resp))\<rparr>"
  have "w' = remove_all_from_meta mr subs ?v \<or> w' = remove_all_from_meta mr subs w"
    using u by (auto simp: unsub_wait_def p Let_def dest!: go_select_ready split: if_splits)
  moreover have "tame w ?v" by (rule tame_fields) simp_all
  ultimately show ?thesis using tame_remove_all tame_trans by blast
qed

subsection \<open>Closing\<close>

lemma tame_close_entry: "tame v (close_entry e v)"
proof -
  obtain ps meta where e: "e = (ps, meta)" by fastforce
  let ?v1 = "case meta of None \<Rightarrow> v | Some mr \<Rightarrow> upd_meta mr (\<lambda>_. if snd (close_locked (w_metas v mr))
    then close_client (fst (close_locked (w_metas v mr))) else fst (close_locked (w_metas v mr))) v"
  have "tame v ?v1" using tame_close [OF refl] by (auto split: option.split)
  then show ?thesis using tame_trans [OF _ tame_psClose]
    by (cases meta) (simp_all add: close_entry_def e case_prod_beta Let_def)
qed

lemma tame_empty_pool: "tame w (w\<lparr>w_pool := newPubSubPool\<rparr>)"
  by (rule tame_pool_change) (simp_all add: pool_ok_def conns_def newPubSubPool_def)

lemma tame_closeAll: "tame w (closeAll w)"
  unfolding closeAll_eq by (rule tame_trans [OF tame_empty_pool tame_fold_any]) (rule tame_close_entry)

lemma tame_stop_pool: "tame w (w\<lparr>w_workerPool := map_option stop_pool (w_workerPool w)\<rparr>)"
proof -
  have q: "wp_taskQueue (stop_pool wp) = wp_taskQueue wp" "wp_closed (stop_pool wp) \<Longrightarrow> wp_closed wp \<or> wp_cancelled (stop_pool wp)"
    "wp_cancelled wp \<Longrightarrow> wp_cancelled (stop_pool wp)" "wp_cap (stop_pool wp) = wp_cap wp" for wp :: "sub_ref WorkerPool"
    by (auto simp: stop_pool_def stop_flag_def stop_close_def stop_cancel_def)
  let ?w = "w\<lparr>w_workerPool := map_option stop_pool (w_workerPool w)\<rparr>"
  have "drain_tasks ?w = drain_tasks w" by (simp add: drain_tasks_def q(1) split: option.split)
  moreover have "pool_safe (w_workerPool w) \<Longrightarrow> pool_safe (w_workerPool ?w)" using q(2,3) by (auto simp: pool_safe_def)
  ultimately have "tame_delivery w ?w" by (auto simp: tame_delivery_def delivery_ok_def drains_ok_def queued_def q(4))
  then show ?thesis by (simp add: tame_def tame_subs_def tame_regs_def tame_pool_def regs_def)
qed

lemma tame_Close: "tame w (Close w)"
proof (cases "w_lifecycleDone w")
  case True
  then show ?thesis by (simp add: Close_def)
next
  case False
  let ?w1 = "w\<lparr>w_lifecycleDone := True, w_closed := True\<rparr>"
  let ?w2 = "fold (\<lambda>s. upd_sub s (setState subStateClosed None)) (all_slices (w_subscriptions ?w1)) ?w1"
  let ?w4 = "(closeAll ?w2)\<lparr>w_workerPool := map_option stop_pool (w_workerPool (closeAll ?w2))\<rparr>"
  have "tame w ?w1" by (rule tame_fields) simp_all
  then have "tame w ?w4" by (rule tame_trans [OF tame_trans [OF tame_trans [OF _ tame_close_subs] tame_closeAll] tame_stop_pool])
  moreover have "tame ?w4 (?w4\<lparr>w_subscriptions := []\<rparr>)"
    by (rule tame_map_change) (auto simp: map_fine_def map_ok_def no_empty_def)
  ultimately show ?thesis using False tame_trans by (simp add: Close_def Let_def)
qed

section \<open>The monitor\<close>

lemma tame_invalidate: "tame w (w\<lparr>w_pool := invalidateHashslot hs (w_pool w)\<rparr>)"
  by (rule tame_pool_change)
     (auto simp: pool_ok_def conns_def invalidateHashslot_def slice_simps intro: inv_intros)

text \<open>The subscriptions of the running migrations are allocated.\<close>

definition mon_refs :: "nat \<Rightarrow> monitor \<Rightarrow> bool" where
  "mon_refs n mo \<longleftrightarrow> (\<forall>(h, subs, mig) \<in> set (mo_running mo). \<forall>s \<in> set subs. s < n)"

definition mon_ok :: "nat \<Rightarrow> monitor \<Rightarrow> bool" where
  "mon_ok n mo \<longleftrightarrow> mon_inv mo \<and> mon_refs n mo"

lemma mon_ok_launch: "mon_ok n mo \<Longrightarrow> \<forall>s \<in> set subs. s < n \<Longrightarrow> mon_ok n (launch subs mig mo)"
  unfolding mon_ok_def using mon_inv_launch [of mo subs mig]
  by (auto simp: mon_refs_def launch_def Let_def split: option.splits)

lemma mon_ok_le: "mon_ok n mo \<Longrightarrow> n \<le> k \<Longrightarrow> mon_ok k mo"
  unfolding mon_ok_def mon_refs_def by (fastforce intro: less_le_trans)

lemma mon_ok_tame: "mon_ok (w_next w) mo \<Longrightarrow> tame w v \<Longrightarrow> mon_ok (w_next v) mo"
  by (rule mon_ok_le) (auto simp: tame_def tame_subs_def)

text \<open>What a part of a refresh keeps.\<close>

definition refresh_ok :: "monitor \<times> world \<Rightarrow> monitor \<times> world \<Rightarrow> bool" where
  "refresh_ok st st' \<longleftrightarrow> tame (snd st) (snd st') \<and> (mon_ok (w_next (snd st)) (fst st) \<longrightarrow> mon_ok (w_next (snd st')) (fst st'))"

lemma refresh_ok_trans: "refresh_ok a b \<Longrightarrow> refresh_ok b c \<Longrightarrow> refresh_ok a c"
  using tame_trans by (auto simp: refresh_ok_def)

lemma refresh_ok_world: "refresh_ok st (mo, w) \<Longrightarrow> tame w v \<Longrightarrow> refresh_ok st (mo, v)"
  using tame_trans mon_ok_tame by (simp add: refresh_ok_def) blast

lemma affected_allocated: "world_fine w \<Longrightarrow> s \<in> set (findAffectedSubscriptions hs w) \<Longrightarrow> s < w_next w"
  using registered_allocated(3) by (auto simp: findAffectedSubscriptions_def)

lemma handleMigration_ok:
  assumes "world_fine (snd st)"
  shows "refresh_ok st (handleMigration pick now mig st)"
proof -
  obtain mo w where st: "st = (mo, w)" by fastforce
  let ?w1 = "w\<lparr>w_pool := invalidateHashslot (mig_hashslot mig) (w_pool w)\<rparr>"
  let ?subs = "findAffectedSubscriptions (mig_hashslot mig) ?w1"
  let ?v = "record_metric MigrationStarted ?w1"
  let ?w2 = "sendSignalMessages pick now ?subs mig ?v"
  have inv1: "world_fine ?w1" using tame_world_fine [OF tame_invalidate] assms by (simp add: st)
  then have lt: "\<forall>s \<in> set ?subs. s < w_next ?v" using affected_allocated [OF inv1] by (auto simp: record_metric_def)
  have t1: "tame w ?v" by (rule tame_trans [OF tame_invalidate tame_metric])
  have t2: "tame ?v ?w2" unfolding sendSignalMessages_def by (rule tame_broadcast [OF lt])
  note t = tame_trans [OF t1 t2]
  have lt2: "\<forall>s \<in> set ?subs. s < w_next ?w2" using lt tame_next [OF t2] by blast
  have "mon_ok (w_next w) mo \<Longrightarrow> mon_ok (w_next ?w2) mo" using mon_ok_tame [OF _ t] .
  then show ?thesis using t tame_invalidate mon_ok_launch [OF _ lt2] 
    by (auto simp: st handleMigration_def refresh_ok_def Let_def)
qed

lemma handleMigrations_ok: "world_fine (snd st) \<Longrightarrow> refresh_ok st (handleMigrations pick now migs st)"
  unfolding handleMigrations_def
proof (induction migs arbitrary: st)
  case Nil
  then show ?case by (simp add: refresh_ok_def)
next
  case (Cons m migs)
  note one = handleMigration_ok [OF Cons.prems, of pick now m]
  then have "world_fine (snd (handleMigration pick now m st))" using tame_world_fine Cons.prems by (auto simp: refresh_ok_def)
  from refresh_ok_trans [OF one Cons.IH [OF this]] show ?case by simp
qed

lemma recover_loop_ok:
  "\<forall>(hs, subs) \<in> set groups. \<forall>s \<in> set subs. s < w_next (snd st) \<Longrightarrow> refresh_ok st (recover_loop groups st)"
proof (induction groups st rule: recover_loop.induct)
  case (1 st)
  then show ?case by (simp add: refresh_ok_def)
next
  case (2 hs subs rest mo w)
  let ?w1 = "record_metric MigrationStarted (w\<lparr>w_pool := invalidateHashslot hs (w_pool w)\<rparr>)"
  have t: "tame w ?w1" by (rule tame_trans [OF tame_invalidate tame_metric])
  have n: "w_next ?w1 = w_next w" by (simp add: record_metric_def)
  show ?case
  proof (cases "ts_getNodeForHashslot hs (w_topology w)")
    case None
    then show ?thesis using 2 by simp
  next
    case (Some node)
    let ?mo = "launch subs \<lparr>mig_hashslot = hs, mig_oldNode = [], mig_newNode = node\<rparr> mo"
    have l: "refresh_ok (mo, w) (?mo, ?w1)" using t n "2.prems" by (auto simp: refresh_ok_def intro: mon_ok_launch)
    show ?thesis
    proof (cases "mo_done mo")
      case True
      then show ?thesis using Some t n by (simp add: refresh_ok_def)
    next
      case False
      have "refresh_ok (?mo, ?w1) (recover_loop rest (?mo, ?w1))"
        using "2.IH"(2) [OF Some refl False] "2.prems" n by auto
      from refresh_ok_trans [OF l this] show ?thesis using Some False by (simp add: Let_def)
    qed
  qed
qed

lemma collect_allocated:
  assumes "world_fine w" and "(hs, subs) \<in> set (collectFailedSubscriptions w)" and "s \<in> set subs"
  shows "s < w_next w"
proof -
  have m: "(k, xs) \<in> set (append_at k' x m) \<Longrightarrow> y \<in> set xs \<Longrightarrow> y = x \<or> (\<exists>k xs. (k, xs) \<in> set m \<and> y \<in> set xs)"
    for k k' :: int and xs x y and m :: "(int, sub_ref list) gomap"
  proof -
    assume a: "(k, xs) \<in> set (append_at k' x m)" "y \<in> set xs"
    have "set (AList.update k' v m) \<subseteq> insert (k', v) (set m)" for v
      by (induction m) (auto split: if_splits)
    with a have "xs = slice_at m k' @ [x] \<or> (k, xs) \<in> set m" by (auto simp: append_at_def)
    with a show ?thesis using in_slice_at [of y m k'] by (auto dest: map_of_SomeD)
  qed
  have "(hs, subs) \<in> set (fold (\<lambda>s m. if P s then append_at (f s) s m else m) xs m) \<Longrightarrow> s \<in> set subs \<Longrightarrow>
      s \<in> set xs \<or> (\<exists>k ys. (k, ys) \<in> set m \<and> s \<in> set ys)"
    for P and f :: "sub_ref \<Rightarrow> int" and xs m
    by (induction xs arbitrary: m) (auto split: if_splits dest: m)
  with assms(2,3) have "s \<in> set (all_slices (w_subscriptions w))" unfolding collectFailedSubscriptions_def by fastforce
  with registered_allocated(3) [OF assms(1)] show ?thesis .
qed

lemma recover_ok: "world_fine (snd st) \<Longrightarrow> refresh_ok st (recoverFailedSubscriptions st)"
  unfolding recoverFailedSubscriptions_def by (rule recover_loop_ok) (auto dest: collect_allocated)

lemma refresh_tame:
  assumes "world_fine (snd st)"
  shows "refresh_ok st (do_refresh r st)"
proof -
  obtain mo w where st: "st = (mo, w)" by fastforce
  show ?thesis
  proof (cases "fetch_slots (re_main r) (re_seeds r)")
    case (Inl err)
    then show ?thesis using tame_trans [OF tame_metric tame_metric]
      by (simp add: do_refresh_def refreshTopology_def st refresh_ok_def record_metric_def)
  next
    case (Inr slots)
    let ?new = "new_state slots (re_nodes r)"
    let ?v = "w\<lparr>w_topology := ?new\<rparr>" and ?migs = "compareAndDetectChanges ?new (w_topology w)"
    let ?s2 = "if ?migs \<noteq> [] then handleMigrations (re_pick r) (re_now r) ?migs (mo, ?v) else (mo, ?v)"
    let ?s3 = "if cfg_autoResubscribe (w_config (snd ?s2)) then recoverFailedSubscriptions ?s2 else ?s2"
    have "tame_delivery w ?v" by (rule tame_delivery_same) simp_all
    then have t: "tame w ?v" using topo_inv_new_state by (simp add: tame_def tame_subs_def tame_regs_def tame_pool_def regs_def)
    then have v: "refresh_ok st (mo, ?v)" "world_fine (snd (mo, ?v))"
      using assms tame_world_fine by (auto simp: st refresh_ok_def)
    have s2: "refresh_ok st ?s2" using refresh_ok_trans [OF v(1) handleMigrations_ok [OF v(2)]] v(1) by simp
    then have "world_fine (snd ?s2)" using assms tame_world_fine unfolding refresh_ok_def by blast
    then have s3: "refresh_ok st ?s3" using refresh_ok_trans [OF s2 recover_ok] s2 by (cases "cfg_autoResubscribe (w_config (snd ?s2))") simp_all
    have r: "do_refresh r st = (fst ?s3, record_metric (TopologyRefreshLatency (re_elapsed r)) (record_metric (TopologyRefresh True) (snd ?s3)))"
      by (simp add: do_refresh_def refreshTopology_def st Inr Let_def)
    show ?thesis unfolding r
      by (rule refresh_ok_world [OF _ tame_trans [OF tame_metric tame_metric]]) (use s3 in simp)
  qed
qed

section \<open>Operations that add something\<close>

definition sound :: "world \<Rightarrow> world \<Rightarrow> bool" where
  "sound w w' \<longleftrightarrow> (world_inv w \<longrightarrow> world_inv w' \<and> w_next w \<le> w_next w' \<and> (\<forall>ds. drains_ok ds w \<longrightarrow> drains_ok ds w'))"

lemma sound_refl [simp]: "sound w w"
  by (simp add: sound_def)

lemma sound_trans: "sound w v \<Longrightarrow> sound v u \<Longrightarrow> sound w u"
  by (auto simp: sound_def)

lemma tame_sound: "tame w w' \<Longrightarrow> sound w w'"
  using tame_world_inv [of w w'] by (auto simp: sound_def world_inv_def tame_defs)

lemma tame_sound_if: "(world_inv w \<Longrightarrow> tame w w') \<Longrightarrow> sound w w'"
  using tame_sound [of w w'] by (auto simp: sound_def)

subsection \<open>Registering a subscription\<close>

definition registered :: "sub_ref \<Rightarrow> subscription \<Rightarrow> meta_ref \<Rightarrow> world \<Rightarrow> world" where
  "registered sub s mr w =
     upd_meta mr (\<lambda>m. fst (addSubscriptionAndCheckFirst sub (sub_channel s) m))
       (addSubscriptionToMapLocked (sub_channel s) sub (w\<lparr>w_next := Suc sub, w_subs := (w_subs w)(sub := s)\<rparr>))"

lemma registered_fields [simp]:
  "w_next (registered sub s mr w) = Suc sub" "w_subs (registered sub s mr w) = (w_subs w)(sub := s)"
  "w_pool (registered sub s mr w) = w_pool w" "w_topology (registered sub s mr w) = w_topology w"
  "w_workerPool (registered sub s mr w) = w_workerPool w" "w_goDrains (registered sub s mr w) = w_goDrains w"
  "w_blocked (registered sub s mr w) = w_blocked w" "w_panicked (registered sub s mr w) = w_panicked w"
  "w_metas (registered sub s mr w) = (w_metas w)(mr := fst (addSubscriptionAndCheckFirst sub (sub_channel s) (w_metas w mr)))"
  by (simp_all add: registered_def addSubscriptionToMapLocked_def upd_meta_def)

lemma registered_regs:
  "regs (registered sub s mr w) mr' ch = (if mr' = mr \<and> ch = sub_channel s then regs w mr ch @ [sub] else regs w mr' ch)"
  by (simp add: regs_def addCheckFirst_subs)

lemma registered_map:
  "set (slice_at (w_subscriptions (registered sub s mr w)) ch) \<subseteq>
     (if ch = sub_channel s then insert sub (set (slice_at (w_subscriptions w) ch)) else set (slice_at (w_subscriptions w) ch))"
  by (auto simp: registered_def addSubscriptionToMapLocked_def upd_meta_def add_to_map_subs)

lemma sound_registered:
  assumes "map_of (pl_pubSubMetadata (w_pool w)) ps = Some mr" and "sub_pubsub s = Some ps"
    and "sub_sequencer s = newSequencer limit" and "sub = w_next w"
  shows "sound w (registered sub s mr w)"
proof -
  let ?w = "registered sub s mr w"
  have "world_inv ?w" if inv: "world_inv w"
  proof -
    note parts = inv [unfolded world_inv_def]
    have fw: "filed w" and hw: "at_home w" and cw: "conns_ok w" using parts by auto
    have nin: "sub \<notin> set (regs w mr' ch)" "sub \<notin> set (slice_at (w_subscriptions w) ch)" for mr' ch
      using fw assms(4) unfolding filed_def by (metis less_irrefl)+
    have mr: "mr = ps" using cw assms(1) by (auto simp: conns_ok_def)
    have d: "delivery_ok ?w" using parts by (simp add: delivery_ok_def assms(3) seq_ok_newSequencer)
    have r: "\<forall>mr'. regs_inv (w_metas ?w mr')"
      using parts nin(1) regs_inv_addCheckFirst by (auto simp: regs_def)
    have m: "map_fine (w_subscriptions ?w)"
      using parts nin(2)
      by (auto simp: registered_def addSubscriptionToMapLocked_def upd_meta_def map_fine_def map_ok_add add_to_map_subs)
    have "x < w_next ?w \<and> sub_channel (w_subs ?w x) = ch" if "x \<in> set (regs ?w mr' ch)" for mr' ch x
      using that fw assms(4) nin(1) by (auto simp: registered_regs filed_def less_SucI split: if_splits)
    moreover have "x < w_next ?w \<and> sub_channel (w_subs ?w x) = ch" if "x \<in> set (slice_at (w_subscriptions ?w) ch)" for ch x
      using subsetD [OF registered_map that] fw assms(4) nin(2) by (auto simp: filed_def less_SucI split: if_splits)
    ultimately have f: "filed ?w" unfolding filed_def by blast
    have h: "at_home ?w" unfolding at_home_def
      using hw nin(1) assms(2) mr by (auto simp: registered_regs at_home_def split: if_splits)
    have c: "conns_ok ?w" using cw assms(4) by (auto simp: conns_ok_def pool_ok_def less_SucI)
    show ?thesis using parts d r m f h c by (simp add: world_inv_def)
  qed
  moreover have "drains_ok ds ?w" if dr: "drains_ok ds w" for ds
  proof -
    have "\<not> s_active (sub_sequencer (w_subs w sub))" using drains_okD(3) [OF dr, of sub] assms(4) by auto
    with drains_okD(1) [OF dr, of sub] have "count_list (drain_tasks w) sub + count_list ds sub = 0" by simp
    moreover have "drain_tasks ?w = drain_tasks w" by (simp add: drain_tasks_def)
    moreover have "queued ?w r = (if r = sub then [] else queued w r)" for r by (simp add: queued_def assms(3) newSequencer_def)
    ultimately show ?thesis unfolding drains_ok_def using drains_okD [OF dr] assms(3,4)
      by (auto simp: newSequencer_def less_SucI)
  qed
  ultimately show ?thesis by (simp add: sound_def assms(4))
qed

lemma register_tame: "tame (registered (w_next w) s mr w) (fst (register_and_send pick ctx e cmdName mr s w))"
proof -
  let ?sub = "w_next w" and ?w3 = "registered (w_next w) s mr w"
  obtain m needs ex where a: "addSubscriptionAndCheckFirst ?sub (sub_channel s) (w_metas w mr) = (m, needs, ex)" by (metis prod_cases3)
  have w3: "upd_meta mr (\<lambda>_. m) (addSubscriptionToMapLocked (sub_channel s) ?sub (w\<lparr>w_next := Suc ?sub, w_subs := (w_subs w)(?sub := s)\<rparr>)) = ?w3"
    using a by (simp add: registered_def upd_meta_def addSubscriptionToMapLocked_def)
  let ?w4 = "?w3\<lparr>w_next := Suc (w_next ?w3), w_responses := (w_responses ?w3)(w_next ?w3 := [])\<rparr>"
  have t4: "tame ?w3 ?w4" by (rule tame_alloc [OF refl])
  have t5: "tame ?w3 (fst (after_sendCommand ?sub mr res (upd_meta mr (\<lambda>_. m') ?w4)))"
    if "sendCommand pick e cmd (w_metas ?w4 mr) = Some (m', res)" for cmd m' res
    by (rule tame_trans [OF tame_trans [OF t4 tame_sendCommand [OF that]] tame_after_send])
  have t6: "tame ?w3 (sub_success ?sub (upd_sub ?sub (setState subStateActive None) ?w3))"
    by (rule tame_trans [OF tame_setState tame_success])
  have r: "register_and_send pick ctx e cmdName mr s w =
     (if needs
      then (let cmd = \<lparr>c_ctx = ctx, c_cmd = cmdName, c_args = [sub_channel s], c_sub = Some ?sub, c_response = Some (w_next ?w3)\<rparr>
            in case sendCommand pick e cmd (w_metas ?w4 mr) of
                 None \<Rightarrow> (?w4, SendBlocks ?sub mr cmd)
               | Some (m', result) \<Rightarrow> after_sendCommand ?sub mr result (upd_meta mr (\<lambda>_. m') ?w4))
      else (case ex of
              Some pending \<Rightarrow>
                (case waitForActive_enter (w_subs ?w3 pending) of
                   Inl result \<Rightarrow> finish_other ?sub mr pending result ?w3
                 | Inr ch \<Rightarrow> (?w3, WaitOther ?sub mr pending ch))
            | None \<Rightarrow> (sub_success ?sub (upd_sub ?sub (setState subStateActive None) ?w3), SubSucceeds ?sub)))"
    unfolding register_and_send_def Let_def w3 [symmetric] using a by (simp add: addSubscriptionToMapLocked_def)
  show ?thesis unfolding r using t4 t5 t6 tame_finish_other
    by (auto simp: Let_def simp del: registered_fields split: option.split sum.split)
qed

lemma sound_after_connection:
  "sound w (fst (after_connection pick ctx e channel subType cmdName callback limit hashslot ps w))"
proof (cases "getMetadata (Some ps) (w_pool w)")
  case None
  then show ?thesis by (simp add: after_connection_def)
next
  case (Some mr)
  let ?s = "newSubscription channel subType (Some ps) callback hashslot limit"
  have "sound w (registered (w_next w) ?s mr w)"
    using Some by (intro sound_registered) (auto simp: getMetadata_def newSubscription_def)
  then show ?thesis using sound_trans [OF _ tame_sound [OF register_tame]] Some by (simp add: after_connection_def)
qed

subsection \<open>Connections\<close>

lemma conns_register:
  "conns (register_on_node hs node ps p) n = (if n = node then conns p n @ [ps] else conns p n)"
  "pl_pubSubMetadata (register_on_node hs node ps p) = pl_pubSubMetadata p"
  by (auto simp: register_on_node_def addHashslotPubSub_def conns_def slice_simps)

lemma pool_ok_addHashslot: "pool_ok metas p \<Longrightarrow> pool_ok metas (addHashslotPubSub hs ps p)"
  by (auto simp: pool_ok_def addHashslotPubSub_def conns_def slice_simps intro: inv_intros)

lemma tame_addHashslot: "tame w (w\<lparr>w_pool := addHashslotPubSub hs ps (w_pool w)\<rparr>)"
  by (rule tame_pool_change [OF pool_ok_addHashslot]) (auto simp: addHashslotPubSub_def conns_def split: if_splits)

lemma tame_pending: "tame w (w\<lparr>w_pool := (w_pool w)\<lparr>pl_pendingConnections := x\<rparr>\<rparr>)"
  by (rule tame_pool_change) (auto simp: pool_ok_def conns_def)

lemma sound_create:
  assumes "createPubSubToNode node w = (w2, ps)"
  shows "sound w (w2\<lparr>w_pool := register_on_node hs node ps (w_pool w2)\<rparr>)"
proof -
  let ?p = "register_on_node hs node ps (w_pool w2)" and ?w = "w2\<lparr>w_pool := register_on_node hs node ps (w_pool w2)\<rparr>"
  have w2: "ps = w_next w" "w_next ?w = Suc ps" "w_metas ?w = (w_metas w)(ps := newMetadata node)" "w_subs ?w = w_subs w"
    "pl_pubSubMetadata (w_pool w2) = AList.update ps ps (pl_pubSubMetadata (w_pool w))" "pl_nodePubSubs (w_pool w2) = pl_nodePubSubs (w_pool w)"
    "pl_hashslotPubSubs (w_pool w2) = pl_hashslotPubSubs (w_pool w)"
    "w_subscriptions ?w = w_subscriptions w" "w_topology ?w = w_topology w"
    using assms by (auto simp: createPubSubToNode_def record_metric_def Let_def)
  have td: "tame_delivery w ?w"
    using assms by (intro tame_delivery_same) (auto simp: createPubSubToNode_def record_metric_def Let_def)
  have cn: "conns ?p n = (if n = node then conns (w_pool w) n @ [ps] else conns (w_pool w) n)" for n
    unfolding conns_register by (simp add: conns_def w2(6))
  have md: "map_of (pl_pubSubMetadata ?p) = (map_of (pl_pubSubMetadata (w_pool w)))(ps \<mapsto> ps)"
    unfolding conns_register by (simp add: w2(5) update_conv')
  have rg: "regs ?w mr ch = (if mr = ps then [] else regs w mr ch)" for mr ch by (simp add: regs_def w2(3) newMetadata_def)
  have "world_inv ?w" if inv: "world_inv w"
  proof -
    note parts = inv [unfolded world_inv_def]
    have cw: "conns_ok w" using parts by simp
    have nin: "ps \<notin> set (conns (w_pool w) n)" for n using cw w2(1) unfolding conns_ok_def by (metis less_irrefl)
    have ids: "map_of (pl_pubSubMetadata (w_pool w)) q = Some mr \<Longrightarrow> mr = q" for q mr using cw by (auto simp: conns_ok_def)
    have "wf_gomap (pl_nodePubSubs ?p) \<and> wf_gomap (pl_hashslotPubSubs ?p) \<and> (\<forall>hs. distinct (slice_at (pl_hashslotPubSubs ?p) hs))"
      using cw by (auto simp: register_on_node_def addHashslotPubSub_def conns_ok_def pool_ok_def w2(6,7) slice_simps intro: inv_intros)
    moreover have "m_nodeAddr (w_metas ?w mr) = n" if "q \<in> set (conns ?p n)" "map_of (pl_pubSubMetadata ?p) q = Some mr" for n q mr
      using that cw nin ids by (auto simp: cn md w2(3) conns_ok_def pool_ok_def newMetadata_def split: if_splits)
    ultimately have "pool_ok (w_metas ?w) ?p" using cw nin by (auto simp: pool_ok_def cn conns_ok_def)
    moreover have nx: "q < w_next w \<Longrightarrow> q < w_next ?w" for q unfolding w2(2) by (simp add: w2(1))
    ultimately have "conns_ok ?w" using cw w2(2) by (auto simp: conns_ok_def cn md split: if_splits)
    moreover have "filed ?w" using parts nx w2(4,8) by (auto simp: filed_def rg)
    moreover have "at_home ?w" using parts by (auto simp: at_home_def rg md w2(4) split: if_splits)
    moreover have "\<forall>mr. regs_inv (w_metas ?w mr)" using parts by (simp add: w2(3) regs_inv_new)
    ultimately show ?thesis using parts td by (auto simp: world_inv_def tame_delivery_def w2(8,9))
  qed
  then show ?thesis using td w2(1,2) by (auto simp: sound_def tame_delivery_def world_inv_def)
qed

lemma sound_create_finished:
  assumes "createPubSubToNode node w = (w2, ps)"
  shows "sound w (w2\<lparr>w_pool := create_finished hs node (Inr ps) (w_pool w2)\<rparr>)"
proof -
  let ?v = "w2\<lparr>w_pool := register_on_node hs node ps (w_pool w2)\<rparr>"
  have "create_finished hs node (Inr ps) (w_pool w2) =
      (w_pool ?v)\<lparr>pl_pendingConnections := AList.delete node (pl_pendingConnections (w_pool w2))\<rparr>"
    by (simp add: create_finished_def register_on_node_def addHashslotPubSub_def)
  with sound_trans [OF sound_create [OF assms, of hs] tame_sound [OF tame_pending]] show ?thesis by simp
qed

lemma sound_select: "sound w (fst (selectLeastLoadedAcrossNodes hs nodes w))"
proof -
  obtain p d where s: "select_locked (w_metas w) (w_next w) hs nodes (w_pool w) = (p, d)" by fastforce
  let ?w1 = "w\<lparr>w_pool := p\<rparr>"
  have "p = w_pool w \<or> (\<exists>best. p = addHashslotPubSub hs best (w_pool w)) \<or> (\<exists>x. p = (w_pool w)\<lparr>pl_pendingConnections := x\<rparr>)"
    using s by (auto simp: select_locked_def Let_def split: option.splits bool.splits if_splits)
  then have t1: "tame w ?w1" using tame_addHashslot tame_pending by auto
  have "tame ?w1 (?w1\<lparr>w_next := Suc (w_next ?w1)\<rparr>)" by (rule tame_fields) simp_all
  then have t2: "sound w (?w1\<lparr>w_next := Suc (w_next ?w1)\<rparr>)" using tame_sound [OF tame_trans [OF t1]] by simp
  have cr: "sound w ((fst x)\<lparr>w_pool := create_finished hs node (Inr (snd x)) (w_pool (fst x))\<rparr>)"
    if "x = createPubSubToNode node (?w1\<lparr>w_next := Suc (w_next ?w1)\<rparr>)" for x node
    by (rule sound_trans [OF t2 sound_create_finished]) (simp add: that)
  show ?thesis using tame_sound [OF t1] cr [OF refl]
    by (auto simp: selectLeastLoadedAcrossNodes_def s case_prod_beta Let_def split: select_decision.split)
qed

lemma sound_connection:
  assumes "\<And>v. sound v (refresh v)"
  shows "sound w (fst (getPubSubForHashslot refresh slots rnd hs w))"
proof (cases "getPubSub_cached (w_pool w) (w_metas w) hs")
  case (Some ps)
  then show ?thesis by (simp add: getPubSubForHashslot_def)
next
  case None
  define w1 where "w1 = (if tm_getNodeForHashslot rnd hs w = None then refresh w else w)"
  have s1: "sound w w1" using assms by (simp add: w1_def)
  have reuse: "sound w (w1\<lparr>w_pool := p\<rparr>)" if "reuse_on_node (w_metas w1) hs node (w_pool w1) = Some (p, best)" for node p best
    using that sound_trans [OF s1 tame_sound [OF tame_addHashslot]] by (auto simp: reuse_on_node_def split: option.splits if_splits)
  have create: "sound w (w2\<lparr>w_pool := register_on_node hs node ps (w_pool w2)\<rparr>)" if "createPubSubToNode node w1 = (w2, ps)" for node w2 ps
    by (rule sound_trans [OF s1 sound_create [OF that]])
  have "sound w (fst (createPubSubForHashslot refresh slots rnd hs w))"
    unfolding createPubSubForHashslot_def Let_def w1_def [symmetric]
    using sound_select s1 reuse create by (auto split: sum.split option.split prod.split)
  then show ?thesis using None by (simp add: getPubSubForHashslot_def)
qed

lemma sound_subscribeToChannel:
  assumes "\<And>v. sound v (refresh v)"
    and "subscribeToChannel refresh slots rnd pick ctx e channel subType cmdName callback limit w = (w', r)"
  shows "sound w w'"
proof -
  obtain w1 conn where g: "getPubSubForHashslot refresh slots rnd (Hashslot rnd channel) w = (w1, conn)" by fastforce
  have s1: "sound w w1" using sound_connection [OF assms(1), where w = w] g by (metis fst_conv)
  have "sound w (fst (after_connection pick ctx e channel subType cmdName callback limit hs ps w1))" for hs ps
    by (rule sound_trans [OF s1 sound_after_connection])
  then show ?thesis using assms(2) s1
    by (auto simp: subscribeToChannel_def g Let_def split: if_splits connect_result.splits prod.splits) (metis fst_conv)
qed

subsection \<open>Moving a subscription\<close>

lemma tame_leave_old: "tame w (leave_old sub w)"
  unfolding leave_old_def Let_def
  by (auto intro: tame_removeSubscription tame_trans [OF tame_removeSubscription tame_setState] split: option.split)

lemma leave_old_pool [simp]: "w_pool (leave_old sub w) = w_pool w" "w_next (leave_old sub w) = w_next w"
  "sub_channel (w_subs (leave_old sub w) x) = sub_channel (w_subs w x)"
  by (simp_all add: leave_old_def Let_def split: option.split)

text \<open>After leaving, the subscription is registered on no connection of the pool.\<close>

lemma leave_old_homeless:
  assumes "world_inv w" and "map_of (pl_pubSubMetadata (w_pool w)) mr \<noteq> None"
  shows "sub \<notin> set (regs (leave_old sub w) mr ch)"
proof
  assume l: "sub \<in> set (regs (leave_old sub w) mr ch)"
  then have r: "sub \<in> set (regs w mr ch)" by (rule tameD(1) [OF tame_leave_old])
  have "sub_pubsub (w_subs w sub) = Some mr" "sub_channel (w_subs w sub) = ch" "map_of (pl_pubSubMetadata (w_pool w)) mr = Some mr"
    "distinct (regs w mr ch)"
    using assms r by (auto simp: world_inv_def at_home_def filed_def conns_ok_def regs_inv_def regs_def)
  then have "regs (leave_old sub w) mr ch = remove1 sub (regs w mr ch)"
    by (simp add: leave_old_def getMetadata_def getPubSub_def regs_def removeSubscription_subs Let_def)
  with l \<open>distinct (regs w mr ch)\<close> show False by simp
qed

lemma sound_setPubSub:
  assumes "\<And>mr ch. map_of (pl_pubSubMetadata (w_pool w)) mr \<noteq> None \<Longrightarrow> sub \<notin> set (regs w mr ch)"
  shows "sound w (upd_sub sub (setPubSub ps) w)"
proof -
  let ?w = "upd_sub sub (setPubSub ps) w"
  have td: "tame_delivery w ?w" by (rule tame_delivery_same) (auto simp: setPubSub_def upd_sub_def)
  have "at_home w \<Longrightarrow> at_home ?w" using assms by (auto simp: at_home_def regs_def)
  moreover have "filed w \<Longrightarrow> filed ?w" by (auto simp: filed_def regs_def)
  moreover have "w_topology ?w = w_topology w" by (simp add: upd_sub_def)
  ultimately show ?thesis using td
    by (auto simp: sound_def world_inv_def tame_delivery_def conns_ok_def)
qed

lemma addSubscription_subs:
  "slice_at (m_subscriptions (addSubscription ch x m)) ch' =
     (if ch' = ch \<and> x \<notin> set (slice_at (m_subscriptions m) ch) then slice_at (m_subscriptions m) ch @ [x] else slice_at (m_subscriptions m) ch')"
  "m_nodeAddr (addSubscription ch x m) = m_nodeAddr m"
  by (auto simp: addSubscription_def Let_def slice_simps)

lemma sound_addSubscription:
  assumes "map_of (pl_pubSubMetadata (w_pool w)) ps = Some mr" and "sub_pubsub (w_subs w sub) = Some ps"
    and "sub < w_next w" and "ch = sub_channel (w_subs w sub)"
  shows "sound w (upd_meta mr (addSubscription ch sub) w)"
proof -
  let ?w = "upd_meta mr (addSubscription ch sub) w"
  have td: "tame_delivery w ?w" by (rule tame_delivery_same) (simp_all add: upd_meta_def)
  have rg: "x \<in> set (regs ?w mr' c) \<Longrightarrow> x \<in> set (regs w mr' c) \<or> mr' = mr \<and> c = ch \<and> x = sub" for x mr' c
    by (auto simp: regs_def addSubscription_subs split: if_splits)
  have "world_inv ?w" if inv: "world_inv w"
  proof -
    note parts = inv [unfolded world_inv_def]
    have "mr = ps" using parts assms(1) by (auto simp: conns_ok_def)
    then have "at_home ?w" using parts rg assms(2) unfolding at_home_def upd_frame by metis
    moreover have "filed ?w" using parts rg assms(3,4) unfolding filed_def upd_frame by metis
    moreover have "conns_ok ?w" using parts by (auto simp: conns_ok_def pool_ok_def addSubscription_subs(2))
    moreover have "w_topology ?w = w_topology w" by (simp add: upd_meta_def)
    ultimately show ?thesis using parts td by (auto simp: world_inv_def tame_delivery_def regs_inv_addSubscription)
  qed
  then show ?thesis using td by (auto simp: sound_def tame_delivery_def world_inv_def)
qed

lemma sound_resub_one:
  assumes "resub_one ctxDone ty channel ps sub (w, tasks, cnt) = (w', tasks', cnt')" and "sub < w_next w"
  shows "sound w w'"
proof -
  let ?v = "leave_old sub w"
  let ?w1 = "upd_sub sub (setPubSub (Some ps)) ?v"
  have s1: "sound w ?w1"
  proof (cases "world_inv w")
    case True
    have "sound ?v ?w1" by (rule sound_setPubSub) (use leave_old_homeless [OF True] in simp)
    then show ?thesis using sound_trans [OF tame_sound [OF tame_leave_old]] by blast
  qed (simp add: sound_def)
  show ?thesis
  proof (cases "getMetadata (Some ps) (w_pool w)")
    case None
    then show ?thesis using assms(1) s1 by (simp add: resub_one_def Let_def)
  next
    case (Some mr)
    let ?w2 = "upd_meta mr (addSubscription (sub_channel (w_subs ?w1 sub)) sub) ?w1"
    have "sound ?w1 ?w2"
      by (rule sound_addSubscription [of _ ps]) (use Some assms(2) in \<open>auto simp: getMetadata_def setPubSub_def\<close>)
    then have s2: "sound w ?w2" by (rule sound_trans [OF s1])
    let ?w3 = "upd_sub sub (\<lambda>s. setState subStatePending None (resetConfirmation s)) ?w2"
    have t3: "tame ?w2 ?w3" by (rule tame_inert) (simp add: inert_def)
    have "tame ?w3 (upd_meta mr (addPendingSubscription (sub_channel (w_subs ?w3 sub)) sub) ?w3)"
    proof (rule tame_upd_meta)
      have ch: "sub_channel (w_subs ?w3 sub) = sub_channel (w_subs ?w1 sub)" by simp
      have "sub \<in> set (slice_at (m_subscriptions (w_metas ?w3 mr)) (sub_channel (w_subs ?w3 sub)))"
        unfolding ch by (simp add: addSubscription_subs)
      then show "regs_inv (w_metas ?w3 mr) \<Longrightarrow> regs_inv (addPendingSubscription (sub_channel (w_subs ?w3 sub)) sub (w_metas ?w3 mr))"
        by (rule regs_inv_addPending [rotated])
    qed (simp_all add: addPendingSubscription_def reg_ok_def)
    then have s4: "sound w (upd_meta mr (addPendingSubscription (sub_channel (w_subs ?w3 sub)) sub) ?w3)"
      by (rule sound_trans [OF s2 tame_sound [OF tame_trans [OF t3]]])
    have s5: "sound w (upd_sub sub (setState subStateActive None) ?w2)" by (rule sound_trans [OF s2 tame_sound [OF tame_setState]])
    show ?thesis using assms(1) s2 s4 s5 Some by (auto simp: resub_one_def Let_def split: if_splits)
  qed
qed

end
