(* ===== verification/System.thy ===== *)
theory System
  imports World_Inv
begin

text \<open>
  The goroutines of one SubMux over their shared state, as one transition system: callers of the API, the event
  loops, the monitor with its migrations, the workers. A step is a part of a goroutine between two of its waits,
  or one of its critical sections; any number of goroutines of each kind take steps in any order. It is shown
  that the invariant of the shared state holds in every reachable state, so that what the other theories
  assume of a state can be relied on. \<open>core_step\<close> has the steps that add nothing to the shared state;
  \<open>system_step\<close> adds the subscribe calls and the moves of a migration, each uninterrupted between two waits.
\<close>

section \<open>The system\<close>

text \<open>
  \<open>sy_calls\<close>: where the calls of \<open>subscribeToChannel\<close> are that wait; \<open>sy_unsubs\<close>: the UNSUBSCRIBE commands whose
  answer is awaited; \<open>sy_tasks\<close>, \<open>sy_confirms\<close>: the command goroutines of migrations before they send and while
  they wait; \<open>sy_drains\<close>: the subscriptions whose drain task a worker or a goroutine executes.
\<close>

record system =
  sy_mon :: monitor
  sy_world :: world
  sy_calls :: "sub_progress list"
  sy_unsubs :: "pendingUnsub list"
  sy_tasks :: "resub_task list"
  sy_confirms :: "resub_task list"
  sy_drains :: "sub_ref list"

definition system_init :: "system \<Rightarrow> bool" where
  "system_init s \<longleftrightarrow> (\<exists>numCPU opts mo w. New numCPU False opts = Inr (mo, w) \<and>
     s = \<lparr>sy_mon = mo, sy_world = w, sy_calls = [], sy_unsubs = [], sy_tasks = [], sy_confirms = [], sy_drains = []\<rparr>)"

text \<open>The first part of a command goroutine of a migration; \<open>None\<close>: the send blocks.\<close>

definition resub_send :: "nat \<Rightarrow> ctx_ref \<Rightarrow> goerror option \<Rightarrow> resub_task \<Rightarrow> world \<Rightarrow> (world \<times> bool) option" where
  "resub_send pick cmdCtx ctxErr task w =
     (let (sub, cmdName, channel, mr) = task;
          response = w_next w;
          w1 = w\<lparr>w_next := Suc response, w_responses := (w_responses w)(response := [])\<rparr>;
          cmd = \<lparr>c_ctx = Some cmdCtx, c_cmd = cmdName, c_args = [channel], c_sub = Some sub, c_response = Some response\<rparr>
      in case sendCommand pick ctxErr cmd (w_metas w1 mr) of
           None \<Rightarrow> None
         | Some (m, None) \<Rightarrow> Some (upd_meta mr (\<lambda>_. m) w1, True)
         | Some (m, Some err) \<Rightarrow> Some (resub_send_failed task err (upd_meta mr (\<lambda>_. m) w1), False))"

text \<open>
  The refresh that a lookup of a node forces is a step of its own before the call goes on. The creation of a
  connection is one step here; its own protocol is in the theory of the pool. A submission that is still
  blocked when the pool is stopped has been cancelled (theory of the worker pool), so it does not send on
  the closed queue. \<open>Close\<close> goes on when the monitor has been stopped and its goroutines have returned.
\<close>

inductive core_step :: "system \<Rightarrow> system \<Rightarrow> bool" where
  subscribe_confirmed:
    "sy_calls s = a @ WaitConfirm sub mr # b \<Longrightarrow>
     waitForConfirmation pick ctxErr (w_subs (sy_world s) sub) = Some (sb, result) \<Longrightarrow>
     finish_confirm sub mr result (upd_sub sub (\<lambda>_. sb) (sy_world s)) = (w', pr) \<Longrightarrow>
     core_step s (s\<lparr>sy_world := w', sy_calls := a @ pr # b\<rparr>)"
| subscribe_other_settled:
    "sy_calls s = a @ WaitOther sub mr pending ch # b \<Longrightarrow>
     waitForActive_wait pick ctxErr ch (w_subs (sy_world s) pending) = Some result \<Longrightarrow>
     finish_other sub mr pending result (sy_world s) = (w', pr) \<Longrightarrow>
     core_step s (s\<lparr>sy_world := w', sy_calls := a @ pr # b\<rparr>)"
| subscribe_sent:
    "sy_calls s = a @ SendBlocks sub mr cmd # b \<Longrightarrow>
     sendCommand pick ctxErr cmd (w_metas (sy_world s) mr) = Some (m, result) \<Longrightarrow>
     after_sendCommand sub mr result (upd_meta mr (\<lambda>_. m) (sy_world s)) = (w', pr) \<Longrightarrow>
     core_step s (s\<lparr>sy_world := w', sy_calls := a @ pr # b\<rparr>)"
| unsubscribe_begins:
    "unsubscribe_start pick subs (sy_world s) = Some (w', result) \<Longrightarrow>
     core_step s (s\<lparr>sy_world := w', sy_unsubs := sy_unsubs s @ (case result of Inl _ \<Rightarrow> [] | Inr (_, pending) \<Rightarrow> pending)\<rparr>)"
| unsubscribe_answered:
    "sy_unsubs s = a @ p # b \<Longrightarrow> unsub_wait pick ctxErr p (sy_world s) = Some (w', result) \<Longrightarrow>
     core_step s (s\<lparr>sy_world := w', sy_unsubs := a @ b\<rparr>)"
| loop_runs:
    "m_loopDoneCloses (w_metas (sy_world s) mr) = 0 \<Longrightarrow>
     loop_iteration rd pick now mr ev (sy_world s) = Some (w', left) \<Longrightarrow>
     core_step s (s\<lparr>sy_world := if left then loop_exit mr mr w' else w'\<rparr>)"
| worker_takes:
    "w_workerPool (sy_world s) = Some wp \<Longrightarrow> wp_taskQueue wp = r # rest \<Longrightarrow>
     core_step s (s\<lparr>sy_world := (sy_world s)\<lparr>w_workerPool := Some (wp\<lparr>wp_taskQueue := rest\<rparr>)\<rparr>, sy_drains := sy_drains s @ [r]\<rparr>)"
| goroutine_drains:
    "w_goDrains (sy_world s) = a @ r # b \<Longrightarrow>
     core_step s (s\<lparr>sy_world := (sy_world s)\<lparr>w_goDrains := a @ b\<rparr>, sy_drains := sy_drains s @ [r]\<rparr>)"
| blocked_submits:
    "w_blocked (sy_world s) = a @ r # b \<Longrightarrow> w_workerPool (sy_world s) = Some wp \<Longrightarrow>
     send_or_wait pick False wp r = Submitted wp' \<Longrightarrow>
     core_step s (s\<lparr>sy_world := record_metric (WorkerPoolSubmission True) ((sy_world s)\<lparr>w_blocked := a @ b, w_workerPool := Some wp'\<rparr>)\<rparr>)"
| blocked_gives_up:
    "w_blocked (sy_world s) = a @ r # b \<Longrightarrow> w_workerPool (sy_world s) = Some wp \<Longrightarrow>
     send_or_wait pick False wp r = NotSubmitted \<Longrightarrow>
     core_step s (s\<lparr>sy_world := record_metric WorkerPoolDropped
       ((sy_world s)\<lparr>w_blocked := a @ b, w_goDrains := w_goDrains (sy_world s) @ [r], w_wg := Suc (w_wg (sy_world s))\<rparr>)\<rparr>)"
| drain_executes:
    "r \<in> set (sy_drains s) \<Longrightarrow> drain_locked (sub_sequencer (w_subs (sy_world s) r)) = Some (sq, Some item) \<Longrightarrow>
     core_step s (s\<lparr>sy_world := upd_sub r (\<lambda>x. x\<lparr>sub_sequencer := sq\<rparr>) (sy_world s)\<rparr>)"
| drain_ends:
    "sy_drains s = a @ r # b \<Longrightarrow> drain_locked (sub_sequencer (w_subs (sy_world s) r)) = Some (sq, None) \<Longrightarrow>
     core_step s (s\<lparr>sy_world := upd_sub r (\<lambda>x. x\<lparr>sub_sequencer := sq\<rparr>) (sy_world s), sy_drains := a @ b\<rparr>)"
| refreshed:
    "do_refresh env (sy_mon s, sy_world s) = (mo, w') \<Longrightarrow> core_step s (s\<lparr>sy_mon := mo, sy_world := w'\<rparr>)"
| migration_sends:
    "sy_tasks s = a @ task # b \<Longrightarrow> resub_send pick cmdCtx ctxErr task (sy_world s) = Some (w', sent) \<Longrightarrow>
     core_step s (s\<lparr>sy_world := w', sy_tasks := a @ b, sy_confirms := sy_confirms s @ (if sent then [task] else [])\<rparr>)"
| migration_confirmed:
    "sy_confirms s = a @ task # b \<Longrightarrow>
     waitForConfirmation pick ctxErr (w_subs (sy_world s) (fst task)) = Some (sb, result) \<Longrightarrow>
     core_step s (s\<lparr>sy_world := resub_confirm_result task result (upd_sub (fst task) (\<lambda>_. sb) (sy_world s)), sy_confirms := a @ b\<rparr>)"
| migration_signals:
    "(h, subs, mig) \<in> set (mo_running (sy_mon s)) \<Longrightarrow>
     core_step s (s\<lparr>sy_world := watch_act pick now subs mig shown verdict (sy_world s)\<rparr>)"
| migration_ends:
    "(h, subs, mig) \<in> set (mo_running (sy_mon s)) \<Longrightarrow>
     core_step s (s\<lparr>sy_mon := migration_returns h (mig_hashslot mig) (sy_mon s), sy_world := migration_end duration (sy_world s)\<rparr>)"
| monitor_stops: "core_step s (s\<lparr>sy_mon := (sy_mon s)\<lparr>mo_done := True\<rparr>\<rparr>)"
| closes: "mo_done (sy_mon s) \<Longrightarrow> mo_running (sy_mon s) = [] \<Longrightarrow> core_step s (s\<lparr>sy_world := Close (sy_world s)\<rparr>)"

text \<open>
  The calls that add something to the shared state, each as one step: the sections of \<open>subscribeToChannel\<close> up to
  its first wait, the lookup of a connection by a migration and the move of one subscription are not
  interrupted here. The theory \<open>Interleaving\<close> splits them into their critical sections.
\<close>

inductive system_step :: "system \<Rightarrow> system \<Rightarrow> bool" where
  core: "core_step s t \<Longrightarrow> system_step s t"
| subscribe_begins:
    "subscribe_guards [channel] subType (sy_world s) = None \<Longrightarrow>
     subscribeToChannel (\<lambda>v. v) slots rnd pick ctx ctxErr channel subType (subscribeCommandName subType) callback limit (sy_world s)
       = (w', Inl pr) \<Longrightarrow>
     system_step s (s\<lparr>sy_world := w', sy_calls := sy_calls s @ [pr]\<rparr>)"
| migration_connects:
    "(h, subs, mig) \<in> set (mo_running (sy_mon s)) \<Longrightarrow>
     w1 = (sy_world s)\<lparr>w_pool := invalidateHashslot (mig_hashslot mig) (w_pool (sy_world s))\<rparr> \<Longrightarrow>
     getPubSubForHashslot (\<lambda>v. v) slots rnd (mig_hashslot mig) v = (w', conn) \<Longrightarrow> v \<in> {sy_world s, w1} \<Longrightarrow>
     system_step s (s\<lparr>sy_world := w'\<rparr>)"
| migration_moves:
    "(h, subs, mig) \<in> set (mo_running (sy_mon s)) \<Longrightarrow> sub \<in> set subs \<Longrightarrow>
     resub_one ctxDone subType channel ps sub (sy_world s, [], 0) = (w', tasks, n) \<Longrightarrow>
     system_step s (s\<lparr>sy_world := w', sy_tasks := sy_tasks s @ tasks\<rparr>)"

section \<open>The invariant is kept\<close>

text \<open>\<open>system_fine\<close> is what \<open>world_fine\<close> is for the shared state: it does not depend on how sections interleave.\<close>

definition system_fine :: "system \<Rightarrow> bool" where
  "system_fine s \<longleftrightarrow> world_fine (sy_world s) \<and> drains_ok (sy_drains s) (sy_world s) \<and> mon_ok (w_next (sy_world s)) (sy_mon s)"

definition system_inv :: "system \<Rightarrow> bool" where
  "system_inv s \<longleftrightarrow> world_inv (sy_world s) \<and> drains_ok (sy_drains s) (sy_world s) \<and> mon_ok (w_next (sy_world s)) (sy_mon s)"

lemma system_inv_fine: "system_inv s \<Longrightarrow> system_fine s"
  by (simp add: system_inv_def system_fine_def world_inv_fine)

text \<open>What a step of another goroutine leaves as it is.\<close>

definition steady :: "world \<Rightarrow> world \<Rightarrow> bool" where
  "steady w w' \<longleftrightarrow> w_next w \<le> w_next w' \<and> (\<forall>x. sub_channel (w_subs w' x) = sub_channel (w_subs w x))
     \<and> (\<forall>mr. m_nodeAddr (w_metas w' mr) = m_nodeAddr (w_metas w mr)) \<and> (\<forall>n. set (conns (w_pool w') n) \<subseteq> set (conns (w_pool w) n))"

lemma tame_steady: "tame w w' \<Longrightarrow> steady w w'"
  by (simp add: steady_def tame_defs)

lemma steady_trans: "steady w v \<Longrightarrow> steady v u \<Longrightarrow> steady w u"
  by (force simp: steady_def)

definition kept :: "system \<Rightarrow> system \<Rightarrow> bool" where
  "kept s t \<longleftrightarrow> system_fine t \<and> (world_inv (sy_world s) \<longrightarrow> world_inv (sy_world t)) \<and> steady (sy_world s) (sy_world t)"

lemma kept_trans: "kept s t \<Longrightarrow> kept t u \<Longrightarrow> kept s u"
  using steady_trans by (auto simp: kept_def)

lemma kept_tame:
  assumes "system_fine s" and "tame (sy_world s) (sy_world t)" and "sy_drains t = sy_drains s" and "sy_mon t = sy_mon s"
  shows "kept s t"
proof -
  have "w_next (sy_world s) \<le> w_next (sy_world t)" using assms(2) by (simp add: tame_defs)
  then have "mon_ok (w_next (sy_world t)) (sy_mon t)" using assms(1,4) mon_ok_le by (auto simp: system_fine_def)
  moreover have "drains_ok (sy_drains t) (sy_world t)"
    using assms tame_drains [OF assms(2)] by (simp add: system_fine_def world_fine_def)
  ultimately show ?thesis
    using assms tame_world_fine [OF assms(2)] tame_world_inv [OF assms(2)] tame_steady [OF assms(2)]
    by (simp add: kept_def system_fine_def)
qed

lemma New_fields:
  assumes "New numCPU False opts = Inr (mo, w)"
  shows "\<exists>wp. w_workerPool w = Some wp \<and> wp_taskQueue wp = [] \<and> \<not> wp_closed wp \<and> wp_cap wp > 0" and "sub_sequencer (w_subs w r) = newSequencer 0"
    and "w_metas w mr = newMetadata []" and "w_pool w = newPubSubPool" and "w_subscriptions w = []" and "w_topology w = newTopologyState"
    and "w_goDrains w = []" and "w_blocked w = []" and "\<not> w_panicked w" and "mo = newTopologyMonitor"
  using assms by (auto simp: New_def Let_def Start_def NewWorkerPool_def newSubscription_def)

lemma system_inv_init: "system_init s \<Longrightarrow> system_inv s"
proof -
  assume "system_init s"
  then obtain numCPU opts where n: "New numCPU False opts = Inr (sy_mon s, sy_world s)" "sy_drains s = []"
    by (auto simp: system_init_def)
  note w = New_fields [OF n(1)]
  have "delivery_ok (sy_world s)" using w(1) by (auto simp: delivery_ok_def pool_safe_def w(2,9) seq_ok_newSequencer)
  moreover have "drains_ok [] (sy_world s)"
    using w(1) by (auto simp: drains_ok_def drain_tasks_def queued_def w(2,7,8) newSequencer_def)
  moreover have "mon_ok k (sy_mon s)" for k
    using monsys.inv_init [OF refl] by (simp add: mon_ok_def mon_refs_def w(10) newTopologyMonitor_def)
  moreover have "conns_ok (sy_world s)" by (simp add: conns_ok_def pool_ok_def w(4) newPubSubPool_def conns_def)
  ultimately show ?thesis using n(2)
    by (simp add: system_inv_def world_inv_def w(3-6) regs_inv_new map_fine_def map_ok_def no_empty_def topo_inv_new filed_def at_home_def
        regs_def) (simp add: newMetadata_def newPubSubPool_def)
qed

lemma system_inv_world:
  assumes "system_inv s" and "sound (sy_world s) w'" and "sy_drains t = sy_drains s" and "sy_world t = w'" and "sy_mon t = sy_mon s"
  shows "system_inv t"
  using assms mon_ok_le by (auto simp: system_inv_def sound_def)

lemma system_fine_pool: "system_fine s \<Longrightarrow> \<exists>wp. w_workerPool (sy_world s) = Some wp \<and> wp_cap wp > 0"
  using drains_okD(4) by (auto simp: system_fine_def)

text \<open>Drain tasks change hands.\<close>

lemma kept_handover:
  assumes "system_fine s" and "w_subs w' = w_subs (sy_world s)" and "w_metas w' = w_metas (sy_world s)" and "w_pool w' = w_pool (sy_world s)"
    and "w_subscriptions w' = w_subscriptions (sy_world s)" and "w_topology w' = w_topology (sy_world s)"
    and "w_next w' = w_next (sy_world s)" and "w_panicked w' = w_panicked (sy_world s)"
    and "pool_safe (w_workerPool (sy_world s)) \<Longrightarrow> pool_safe (w_workerPool w')"
    and "\<exists>wp. w_workerPool w' = Some wp \<and> wp_cap wp > 0" and "\<And>r. count_list (drain_tasks w' @ ds) r = count_list (drain_tasks (sy_world s) @ sy_drains s) r"
  shows "kept s (s\<lparr>sy_world := w', sy_drains := ds\<rparr>)"
proof -
  have "world_fine w'" using assms
    by (auto simp: system_fine_def world_fine_def delivery_ok_def filed_def conns_ok_def regs_def)
  moreover have "at_home (sy_world s) \<Longrightarrow> at_home w'" using assms(2-4) by (simp add: at_home_def regs_def)
  moreover have "drains_ok ds w'" using assms by (simp add: system_fine_def drains_ok_def queued_def)
  ultimately show ?thesis using assms(1-4,7) by (auto simp: kept_def system_fine_def steady_def world_inv_iff)
qed

lemma kept_drain:
  assumes "system_fine s" and "drain_locked (sub_sequencer (w_subs (sy_world s) r)) = Some (sq, res)" and "r \<in> set (sy_drains s)"
    and "\<And>x. count_list ds x = count_list (sy_drains s) x - (if x = r \<and> res = None then 1 else 0)"
  shows "kept s (s\<lparr>sy_world := upd_sub r (\<lambda>x. x\<lparr>sub_sequencer := sq\<rparr>) (sy_world s), sy_drains := ds\<rparr>)"
proof -
  let ?w = "sy_world s" and ?w' = "upd_sub r (\<lambda>x. x\<lparr>sub_sequencer := sq\<rparr>) (sy_world s)"
  have inv: "world_fine ?w" "drains_ok (sy_drains s) ?w" using assms(1) by (auto simp: system_fine_def)
  have ok: "seq_ok (sub_sequencer (w_subs ?w r))" using inv(1) by (simp add: world_fine_def delivery_ok_def)
  have one: "0 < count_list (sy_drains s) r" using assms(3) count_list_0_iff gr0I by metis
  have c: "count_list (drain_tasks ?w) x + count_list (sy_drains s) x = (if s_active (sub_sequencer (w_subs ?w x)) then 1 else 0)" for x
    using drains_okD(1) [OF inv(2)] .
  have act: "s_active (sub_sequencer (w_subs ?w r))" using c [of r] one by (simp split: if_splits)
  have sq: "seq_ok sq \<and> s_active sq = (res \<noteq> None) \<and> (ring_elems (s_queue sq) \<noteq> [] \<longrightarrow> res \<noteq> None)"
    using drain_locked_cases [OF ok assms(2)] ok act by cases (auto simp: seq_ok_def queue_ok_def)
  have "delivery_ok ?w'" using inv(1) sq by (auto simp: world_fine_def delivery_ok_def)
  then have "world_fine ?w'" using inv(1)
    by (auto simp: world_fine_def filed_def conns_ok_def regs_def) (simp add: upd_sub_def)
  moreover have "at_home ?w \<Longrightarrow> at_home ?w'" by (simp add: at_home_def regs_def)
  moreover have "drains_ok ds ?w'"
  proof -
    have t: "drain_tasks ?w' = drain_tasks ?w" by (simp add: drain_tasks_def upd_sub_def)
    have "count_list (drain_tasks ?w') x + count_list ds x = (if s_active (sub_sequencer (w_subs ?w' x)) then 1 else 0)" for x
      using c [of x] one act sq assms(4) [of x] by (auto simp: t)
    moreover have "queued ?w' x \<noteq> [] \<Longrightarrow> s_active (sub_sequencer (w_subs ?w' x))" for x
      using drains_okD(2) [OF inv(2), of x] sq by (auto simp: queued_def)
    moreover have "s_active (sub_sequencer (w_subs ?w' x)) \<Longrightarrow> x < w_next ?w'" for x
      using drains_okD(3) [OF inv(2), of x] act by (auto split: if_splits)
    ultimately show ?thesis using drains_okD(4) [OF inv(2)] by (simp add: drains_ok_def upd_sub_def)
  qed
  ultimately show ?thesis using assms(1) by (simp add: kept_def system_fine_def steady_def world_inv_iff)
qed

lemma tame_resub_send: "resub_send pick cmdCtx e task w = Some (w', sent) \<Longrightarrow> tame w w'"
proof -
  assume r: "resub_send pick cmdCtx e task w = Some (w', sent)"
  obtain sub cmdName channel mr where t: "task = (sub, cmdName, channel, mr)" by (cases task)
  let ?w1 = "w\<lparr>w_next := Suc (w_next w), w_responses := (w_responses w)(w_next w := [])\<rparr>"
  have t2: "tame w (upd_meta mr (\<lambda>_. m) ?w1)" if "sendCommand pick e cmd (w_metas ?w1 mr) = Some (m, res)" for cmd m res
    by (rule tame_trans [OF tame_alloc [OF refl] tame_sendCommand [OF that]])
  have t3: "tame v (resub_send_failed task err v)" for v err
    using tame_trans [OF tame_removePending tame_setState] by (simp add: resub_send_failed_def t)
  show ?thesis using r tame_trans [OF t2 t3] t2
    by (auto simp: resub_send_def t Let_def split: option.splits)
qed

lemma tame_watch_act: "mon_ok (w_next w) mo \<Longrightarrow> (h, subs, mig) \<in> set (mo_running mo) \<Longrightarrow> tame w (watch_act pick now subs mig shown v w)"
proof -
  assume "mon_ok (w_next w) mo" "(h, subs, mig) \<in> set (mo_running mo)"
  then have "\<forall>s \<in> set subs. s < w_next (record_metric mt w)" for mt by (auto simp: mon_ok_def mon_refs_def record_metric_def)
  from tame_trans [OF tame_metric tame_broadcast [OF this]] show "tame w (watch_act pick now subs mig shown v w)"
    by (simp add: watch_act_def sendMigrationTimeoutSignal_def sendMigrationStalledSignal_def split: verdict.split)
qed

lemma send_submits: "send_or_wait pick False wp r = Submitted wp' \<Longrightarrow> wp' = wp\<lparr>wp_taskQueue := wp_taskQueue wp @ [r]\<rparr> \<and> \<not> wp_closed wp"
  by (auto simp: send_or_wait_def send_task_def dest!: go_select_ready split: option.splits if_splits)

lemma kept_core:
  assumes "core_step s t" and "system_fine s"
  shows "kept s t"
  using assms
proof (induction rule: core_step.induct)
  case (subscribe_confirmed s a sub mr b pick ctxErr sb result w' pr)
  have "tame (sy_world s) (fst (finish_confirm sub mr result (upd_sub sub (\<lambda>_. sb) (sy_world s))))"
    by (rule tame_trans [OF tame_confirmed [OF subscribe_confirmed(2)] tame_finish_confirm])
  then show ?case using subscribe_confirmed(3,4) by (intro kept_tame) auto
next
  case (subscribe_other_settled s a sub mr pending ch b pick ctxErr result w' pr)
  from tame_finish_other [of "sy_world s" sub mr pending result] subscribe_other_settled(3,4) show ?case by (intro kept_tame) auto
next
  case (subscribe_sent s a sub mr cmd b pick ctxErr m result w' pr)
  have "tame (sy_world s) (fst (after_sendCommand sub mr result (upd_meta mr (\<lambda>_. m) (sy_world s))))"
    by (rule tame_trans [OF tame_sendCommand [OF subscribe_sent(2)] tame_after_send])
  then show ?case using subscribe_sent(3,4) by (intro kept_tame) auto
next
  case (unsubscribe_begins pick subs s w' result)
  then show ?case using tame_unsubscribe by (intro kept_tame) auto
next
  case (unsubscribe_answered s a p b pick ctxErr w' result)
  then show ?case using tame_unsub_wait by (intro kept_tame) auto
next
  case (loop_runs s mr rd pick now ev w' left)
  then have inv: "world_fine (sy_world s)" by (simp add: system_fine_def)
  note t = tame_iteration [OF inv loop_runs(2)]
  with tame_exit tame_world_fine [OF t inv] tame_trans [OF t] loop_runs(3) show ?case by (auto intro!: kept_tame)
next
  case (worker_takes s wp r rest)
  then show ?case by (intro kept_handover) (auto simp: drain_tasks_def pool_safe_def dest: system_fine_pool)
next
  case (goroutine_drains s a r b)
  then show ?case by (intro kept_handover) (auto simp: drain_tasks_def dest: system_fine_pool)
next
  case (blocked_submits s a r b wp pick wp')
  note w = send_submits [OF this(3)]
  have k: "kept s (s\<lparr>sy_world := (sy_world s)\<lparr>w_blocked := a @ b, w_workerPool := Some wp'\<rparr>, sy_drains := sy_drains s\<rparr>)"
    by (rule kept_handover [OF blocked_submits(4)])
      (use w blocked_submits(1,2) system_fine_pool [OF blocked_submits(4)] in \<open>auto simp: drain_tasks_def pool_safe_def\<close>)
  then show ?case by (rule kept_trans [OF _ kept_tame]) (use k in \<open>auto simp: kept_def tame_metric\<close>)
next
  case (blocked_gives_up s a r b wp pick)
  have k: "kept s (s\<lparr>sy_world := (sy_world s)\<lparr>w_blocked := a @ b, w_goDrains := w_goDrains (sy_world s) @ [r],
      w_wg := Suc (w_wg (sy_world s))\<rparr>, sy_drains := sy_drains s\<rparr>)"
    by (rule kept_handover [OF blocked_gives_up(4)]) (use blocked_gives_up(1,2) system_fine_pool [OF blocked_gives_up(4)] in \<open>auto simp: drain_tasks_def\<close>)
  then show ?case by (rule kept_trans [OF _ kept_tame]) (use k in \<open>auto simp: kept_def tame_metric\<close>)
next
  case (drain_executes r s sq item)
  from kept_drain [OF this(3,2,1), of "sy_drains s"] show ?case by simp
next
  case (drain_ends s a r b sq)
  from kept_drain [OF this(3,2), of "a @ b"] this(1) show ?case by auto
next
  case (refreshed env s mo w')
  then have inv: "world_fine (snd (sy_mon s, sy_world s))" by (simp add: system_fine_def)
  from refresh_tame [OF this, of env] refreshed have "tame (sy_world s) w'" "mon_ok (w_next (sy_world s)) (sy_mon s) \<Longrightarrow> mon_ok (w_next w') mo"
    by (auto simp: refresh_ok_def)
  then show ?case using refreshed(2) kept_tame [of s "s\<lparr>sy_world := w'\<rparr>"] by (auto simp: kept_def system_fine_def)
next
  case (migration_sends s a task b pick cmdCtx ctxErr w' sent)
  then show ?case using tame_resub_send by (intro kept_tame) auto
next
  case (migration_confirmed s a task b pick ctxErr sb result)
  have "tame v (resub_confirm_result task result v)" for v by (auto simp: resub_confirm_result_def tame_setState split: option.split)
  from tame_trans [OF tame_confirmed [OF migration_confirmed(2)] this] migration_confirmed(3) show ?case by (intro kept_tame) auto
next
  case (migration_signals h subs mig s pick now shown verdict)
  then show ?case using tame_watch_act by (intro kept_tame) (auto simp: system_fine_def)
next
  case (migration_ends h subs mig s duration)
  have "mon_ok (w_next (sy_world s)) (migration_returns h (mig_hashslot mig) (sy_mon s))"
    using migration_ends(2) mon_inv_returns by (auto simp: system_fine_def mon_ok_def mon_refs_def migration_returns_def Let_def)
  with migration_ends(2) have k: "kept s (s\<lparr>sy_mon := migration_returns h (mig_hashslot mig) (sy_mon s)\<rparr>)"
    by (simp add: kept_def system_fine_def steady_def)
  then show ?case by (rule kept_trans [OF _ kept_tame])
    (use k tame_trans [OF tame_metric tame_metric] in \<open>auto simp: kept_def migration_end_def\<close>)
next
  case (monitor_stops s)
  then show ?case by (auto simp: kept_def steady_def system_fine_def mon_ok_def mon_refs_def mon_inv_def)
next
  case (closes s)
  then show ?case using tame_Close by (intro kept_tame) auto
qed

lemma kept_fine: "core_step s t \<Longrightarrow> system_fine s \<Longrightarrow> system_fine t"
  using kept_core by (simp add: kept_def)

lemma system_inv_step: "system_step s t \<Longrightarrow> system_inv s \<Longrightarrow> system_inv t"
proof (induction rule: system_step.induct)
  case (core s t)
  then show ?case using kept_core [OF core(1) system_inv_fine] by (simp add: kept_def system_inv_def system_fine_def)
next
  case (subscribe_begins channel subType s slots rnd pick ctx ctxErr callback limit w' pr)
  from system_inv_world [OF subscribe_begins(3) sound_subscribeToChannel [OF sound_refl subscribe_begins(2)]] show ?case by simp
next
  case (migration_connects h subs mig s w1 slots rnd v w' conn)
  have "sound (sy_world s) v" using migration_connects(2,4) tame_sound [OF tame_invalidate] by auto
  moreover have "sound v w'" using sound_connection [OF sound_refl, where w = v] migration_connects(3) by (metis fst_conv)
  ultimately have "sound (sy_world s) w'" by (rule sound_trans)
  from system_inv_world [OF migration_connects(5) this] show ?case by simp
next
  case (migration_moves h subs mig s sub ctxDone subType channel ps w' tasks n)
  then have "sub < w_next (sy_world s)" by (auto simp: system_inv_def mon_ok_def mon_refs_def)
  from system_inv_world [OF migration_moves(4) sound_resub_one [OF migration_moves(3) this]] show ?case by simp
qed

interpretation subsystem: transition_system system_init system_step system_inv
  by unfold_locales (blast intro: system_inv_init system_inv_step)+

section \<open>Queued messages can be executed\<close>

lemma take_all:
  assumes "w_workerPool (sy_world s) = Some wp"
  shows "\<exists>t. core_step\<^sup>*\<^sup>* s t \<and> w_workerPool (sy_world t) = Some (wp\<lparr>wp_taskQueue := []\<rparr>)
    \<and> sy_drains t = sy_drains s @ wp_taskQueue wp \<and> w_subs (sy_world t) = w_subs (sy_world s)
    \<and> w_goDrains (sy_world t) = w_goDrains (sy_world s) \<and> w_blocked (sy_world t) = w_blocked (sy_world s)"
  using assms
proof (induction "wp_taskQueue wp" arbitrary: s wp)
  case Nil
  then have "w_workerPool (sy_world s) = Some (wp\<lparr>wp_taskQueue := []\<rparr>)" by simp
  with Nil(1) show ?case by (intro exI [of _ s]) simp
next
  case (Cons r rest)
  let ?wp = "wp\<lparr>wp_taskQueue := rest\<rparr>"
  let ?s = "s\<lparr>sy_world := (sy_world s)\<lparr>w_workerPool := Some ?wp\<rparr>, sy_drains := sy_drains s @ [r]\<rparr>"
  have step: "core_step s ?s" by (rule worker_takes [OF Cons.prems Cons.hyps(2) [symmetric]])
  from Cons.hyps(1) [of ?wp ?s] obtain t where t: "core_step\<^sup>*\<^sup>* ?s t" "w_workerPool (sy_world t) = Some (wp\<lparr>wp_taskQueue := []\<rparr>)"
    "sy_drains t = sy_drains s @ r # rest" "w_subs (sy_world t) = w_subs (sy_world s)"
    "w_goDrains (sy_world t) = w_goDrains (sy_world s)" "w_blocked (sy_world t) = w_blocked (sy_world s)" by auto
  with step Cons.hyps(2) show ?case by (metis converse_rtranclp_into_rtranclp)
qed

lemma started_from_queue:
  "w_workerPool (sy_world s) = Some wp \<Longrightarrow> r \<in> set (wp_taskQueue wp) \<Longrightarrow>
   \<exists>t. core_step\<^sup>*\<^sup>* s t \<and> r \<in> set (sy_drains t) \<and> w_subs (sy_world t) = w_subs (sy_world s)"
  using take_all [of s wp] by auto

lemma started_from_goroutine:
  assumes "r \<in> set (w_goDrains (sy_world s))"
  shows "\<exists>t. core_step\<^sup>*\<^sup>* s t \<and> r \<in> set (sy_drains t) \<and> w_subs (sy_world t) = w_subs (sy_world s)"
proof -
  obtain a b where "w_goDrains (sy_world s) = a @ r # b" using split_list assms by fast
  from goroutine_drains [OF this] show ?thesis by (intro exI conjI, rule r_into_rtranclp) auto
qed

lemma started_from_blocked:
  assumes "system_fine s" and "r \<in> set (w_blocked (sy_world s))"
  shows "\<exists>t. core_step\<^sup>*\<^sup>* s t \<and> r \<in> set (sy_drains t) \<and> w_subs (sy_world t) = w_subs (sy_world s)"
proof -
  obtain wp where wp: "w_workerPool (sy_world s) = Some wp" "wp_cap wp > 0" using system_fine_pool [OF assms(1)] by blast
  have safe: "wp_closed wp \<Longrightarrow> wp_cancelled wp"
    using assms(1) wp(1) by (auto simp: system_fine_def world_fine_def delivery_ok_def pool_safe_def)
  let ?wp = "wp\<lparr>wp_taskQueue := []\<rparr>"
  from take_all [OF wp(1)] obtain t where t: "core_step\<^sup>*\<^sup>* s t" "w_workerPool (sy_world t) = Some ?wp"
    "w_subs (sy_world t) = w_subs (sy_world s)" "w_blocked (sy_world t) = w_blocked (sy_world s)" by blast
  obtain a b where b: "w_blocked (sy_world t) = a @ r # b" using split_list assms(2) t(4) by metis
  show ?thesis
  proof (cases "wp_cancelled wp")
    case True
    have "(True, NotSubmitted) \<in> set [(send_ready ?wp, send_task ?wp r), (wp_cancelled ?wp, NotSubmitted), (False, NotSubmitted)]"
      using True by simp
    from go_select_can_pick [OF this] obtain pick where "go_select pick [(send_ready ?wp, send_task ?wp r),
        (wp_cancelled ?wp, NotSubmitted), (False, NotSubmitted)] = Some NotSubmitted" by blast
    then have "send_or_wait pick False ?wp r = NotSubmitted" by (simp add: send_or_wait_def)
    from blocked_gives_up [OF b t(2) this] obtain u where u: "core_step t u" "r \<in> set (w_goDrains (sy_world u))"
      "w_subs (sy_world u) = w_subs (sy_world t)" by (force simp: record_metric_def)
    from started_from_goroutine [OF u(2)] t(1,3) u(1,3) show ?thesis
      by (metis rtranclp.rtrancl_into_rtrancl rtranclp_trans)
  next
    case False
    then have "send_or_wait 0 False ?wp r = Submitted (?wp\<lparr>wp_taskQueue := [r]\<rparr>)"
      using safe wp(2) by (auto simp: send_or_wait_def send_ready_def send_task_def go_select_def)
    from blocked_submits [OF b t(2) this] obtain u where u: "core_step t u" "w_workerPool (sy_world u) = Some (?wp\<lparr>wp_taskQueue := [r]\<rparr>)"
      "w_subs (sy_world u) = w_subs (sy_world t)" by (force simp: record_metric_def)
    from started_from_queue [OF u(2), of r] t(1,3) u(1,3) show ?thesis
      by simp (metis rtranclp.rtrancl_into_rtrancl rtranclp_trans)
  qed
qed

lemma active_starts:
  assumes "system_fine s" and "s_active (sub_sequencer (w_subs (sy_world s) r))"
  shows "\<exists>t. core_step\<^sup>*\<^sup>* s t \<and> r \<in> set (sy_drains t) \<and> w_subs (sy_world t) = w_subs (sy_world s)"
proof -
  obtain wp where wp: "w_workerPool (sy_world s) = Some wp" using system_fine_pool [OF assms(1)] by blast
  have "count_list (drain_tasks (sy_world s) @ sy_drains s) r = 1"
    using assms by (simp add: system_fine_def drains_ok_def)
  then have "r \<in> set (drain_tasks (sy_world s) @ sy_drains s)" using count_list_0_iff by (metis zero_neq_one)
  then consider "r \<in> set (sy_drains s)" | "r \<in> set (wp_taskQueue wp)" | "r \<in> set (w_goDrains (sy_world s))"
    | "r \<in> set (w_blocked (sy_world s))" by (auto simp: drain_tasks_def wp)
  then show ?thesis
    using started_from_queue [OF wp] started_from_goroutine started_from_blocked [OF assms(1)] by cases auto
qed

lemma drain_runs:
  "system_fine s \<Longrightarrow> r \<in> set (sy_drains s) \<Longrightarrow> \<exists>t. core_step\<^sup>*\<^sup>* s t \<and> queued (sy_world t) r = []"
proof (induction "queued (sy_world s) r" arbitrary: s)
  case Nil
  then show ?case by force
next
  case (Cons x xs)
  let ?sq = "sub_sequencer (w_subs (sy_world s) r)"
  have "seq_ok ?sq" "ring_elems (s_queue ?sq) = x # xs"
    using Cons.prems(1) Cons.hyps(2) by (auto simp: system_fine_def world_fine_def delivery_ok_def queued_def)
  from drain_locked_item [OF this] obtain q where q: "drain_locked ?sq = Some (?sq\<lparr>s_queue := q\<rparr>, Some x)" "ring_elems q = xs" by blast
  let ?t = "s\<lparr>sy_world := upd_sub r (\<lambda>x. x\<lparr>sub_sequencer := ?sq\<lparr>s_queue := q\<rparr>\<rparr>) (sy_world s)\<rparr>"
  have step: "core_step s ?t" by (rule drain_executes [OF Cons.prems(2) q(1)])
  have "xs = queued (sy_world ?t) r" by (simp add: queued_def q(2))
  from Cons.hyps(1) [OF this kept_fine [OF step Cons.prems(1)]] Cons.prems(2) obtain u where
    "core_step\<^sup>*\<^sup>* ?t u" "queued (sy_world u) r = []" by auto
  with step show ?case by (metis converse_rtranclp_into_rtranclp)
qed

text \<open>From every state in which a sequencer is active or has nothing queued, its queue can be emptied.\<close>

lemma queue_executable:
  assumes "system_fine s"
  shows "\<exists>t. core_step\<^sup>*\<^sup>* s t \<and> queued (sy_world t) r = []"
proof (cases "queued (sy_world s) r = []")
  case False
  then have "s_active (sub_sequencer (w_subs (sy_world s) r))" using assms drains_okD(2) by (auto simp: system_fine_def)
  from active_starts [OF assms this] obtain t where t: "core_step\<^sup>*\<^sup>* s t" "r \<in> set (sy_drains t)" by blast
  have "system_fine t" using t(1) assms by (induction rule: rtranclp_induct) (auto intro: kept_fine)
  from drain_runs [OF this t(2)] t(1) show ?thesis by (meson rtranclp_trans)
qed blast

lemma core_steps: "core_step\<^sup>*\<^sup>* s t \<Longrightarrow> system_step\<^sup>*\<^sup>* s t"
  by (rule rtranclp_mono [THEN predicate2D]) (auto intro: core)

section \<open>A concrete run\<close>

text \<open>A SubMux with default options whose first caller has subscribed to channel \<open>c\<close>; the cluster has one node.\<close>

definition newWorld :: world where
  "newWorld = (case New 1 False [] of Inr (mo, w) \<Rightarrow> w | Inl _ \<Rightarrow> world1)"

definition newSystem :: system where
  "newSystem = \<lparr>sy_mon = newTopologyMonitor, sy_world = newWorld, sy_calls = [], sy_unsubs = [], sy_tasks = [],
     sy_confirms = [], sy_drains = []\<rparr>"

lemma newWorld_eq: "New 1 False [] = Inr (newTopologyMonitor, newWorld)"
  by (simp add: newWorld_def New_def Let_def Start_def NewWorkerPool_def)

lemma newSystem_init: "system_init newSystem"
  unfolding system_init_def newSystem_def using newWorld_eq by blast

lemma newWorld_fields:
  "w_next newWorld = 1" "w_pool newWorld = newPubSubPool" "w_topology newWorld = newTopologyState" "\<not> w_closed newWorld"
  "w_metas newWorld = (\<lambda>_. newMetadata [])" "w_subscriptions newWorld = []"
  by (simp_all add: newWorld_def New_def Let_def Start_def NewWorkerPool_def)

lemma newWorld_connects:
  "\<exists>w1. getPubSubForHashslot (\<lambda>v. v) (Inr [\<lparr>slot_Start = 0, slot_End = 16383, slot_Nodes = [''n:1'']\<rparr>]) 0 (Hashslot 0 ''c'') newWorld
     = (w1, Connected 1) \<and> w_next w1 = 2 \<and> w_metas w1 1 = newMetadata ''n:1'' \<and> getMetadata (Some 1) (w_pool w1) = Some 1"
proof -
  have "0 \<le> Hashslot 0 ''c''" "Hashslot 0 ''c'' \<le> 16383" using hashslot_range [of 0 "''c''"] by auto
  then show ?thesis
    by (auto simp: getPubSubForHashslot_def getPubSub_cached_def createPubSubForHashslot_def newWorld_fields newPubSubPool_def
        tm_getNodesForHashslot_def tm_getNodeForHashslot_def newTopologyState_def ts_getNodesForHashslot_def selectNodeForHashslot_def
        pool_getNodeForHashslot_def reuse_on_node_def createPubSubToNode_def record_metric_def register_on_node_def
        addHashslotPubSub_def getMetadata_def Let_def)
qed

lemma subscribed_reachable:
  "\<exists>s. system_step\<^sup>*\<^sup>* newSystem s \<and> getSubscriptions ''c'' (w_metas (sy_world s) 1) = [2] \<and> sub_live (sy_world s) 2
     \<and> m_loopDoneCloses (w_metas (sy_world s) 1) = 0 \<and> \<not> queue_full (sy_world s) 2 \<and> getMetadata (Some 1) (w_pool (sy_world s)) = Some 1"
proof -
  let ?cmd = "subscribeCommandName subTypeSubscribe"
  obtain w1 where w1: "getPubSubForHashslot (\<lambda>v. v) (Inr [\<lparr>slot_Start = 0, slot_End = 16383, slot_Nodes = [''n:1'']\<rparr>]) 0
      (Hashslot 0 ''c'') newWorld = (w1, Connected 1)"
    "w_next w1 = 2" "w_metas w1 1 = newMetadata ''n:1''" "getMetadata (Some 1) (w_pool w1) = Some 1" using newWorld_connects by blast
  let ?s = "newSubscription ''c'' subTypeSubscribe (Some 1) 7 (Hashslot 0 ''c'') 0"
  obtain w2 pr where w2: "register_and_send 0 None None ?cmd 1 ?s w1 = (w2, pr)" "getSubscriptions ''c'' (w_metas w2 1) = [2]"
    "sub_live w2 2" "m_loopDoneCloses (w_metas w2 1) = 0" "\<not> queue_full w2 2" "getMetadata (Some 1) (w_pool w2) = Some 1"
    using w1(2-4)
    by (auto simp: register_and_send_def addSubscriptionToMapLocked_def addSubscriptionAndCheckFirst_def newMetadata_def Let_def
        sendCommand_def go_select_def cmdChCap_def after_sendCommand_def getSubscriptions_def slice_at_def sub_live_def getState_def
        newSubscription_def queue_full_def full_def newSequencer_def)
  have "subscribeToChannel (\<lambda>v. v) (Inr [\<lparr>slot_Start = 0, slot_End = 16383, slot_Nodes = [''n:1'']\<rparr>]) 0 0 None None ''c''
      subTypeSubscribe ?cmd 7 0 (sy_world newSystem) = (w2, Inl pr)"
    using w1(1,4) w2(1) by (simp add: subscribeToChannel_def newSystem_def after_connection_def)
  moreover have "subscribe_guards [''c''] subTypeSubscribe (sy_world newSystem) = None"
    by (simp add: subscribe_guards_def newSystem_def newWorld_fields subscribeCommandName_def cmdSubscribe_def)
  ultimately have "system_step newSystem (newSystem\<lparr>sy_world := w2, sy_calls := sy_calls newSystem @ [pr]\<rparr>)"
    by (intro subscribe_begins)
  then have "system_step\<^sup>*\<^sup>* newSystem (newSystem\<lparr>sy_world := w2, sy_calls := sy_calls newSystem @ [pr]\<rparr>)" ..
  with w2(2-6) show ?thesis by (intro exI [of _ "newSystem\<lparr>sy_world := w2, sy_calls := sy_calls newSystem @ [pr]\<rparr>"]) simp
qed

section \<open>Properties\<close>

text \<open>C4. The registrations are consistent, as long as no call and no move of a subscription is interrupted between
  two of its waits (the theory \<open>Interleaving\<close> says what remains if they are). However such calls and moves, event
  loops, refreshes, workers and the shutdown of a SubMux interleave: on every connection no subscription is
  registered twice for a channel, each one is filed under its own channel, and the pending one of a channel is
  among them; a subscription is registered on at most one connection of the pool, so no message reaches it
  twice; the same subscription is at most once in the global map; the maps of the pool and the topology are
  well-formed.\<close>

theorem registrations_consistent:
  assumes "system_init s0" and "system_step\<^sup>*\<^sup>* s0 s" and "w = sy_world s"
  shows "(\<forall>mr ch. distinct (getSubscriptions ch (w_metas w mr))
      \<and> (\<forall>x \<in> set (getSubscriptions ch (w_metas w mr)). sub_channel (w_subs w x) = ch)
      \<and> (\<forall>p. getPendingSubscription ch (w_metas w mr) = Some p \<longrightarrow> p \<in> set (getSubscriptions ch (w_metas w mr))))
    \<and> (\<forall>ps mr ps' mr' ch ch' x. getMetadata (Some ps) (w_pool w) = Some mr \<longrightarrow> getMetadata (Some ps') (w_pool w) = Some mr' \<longrightarrow>
        x \<in> set (getSubscriptions ch (w_metas w mr)) \<longrightarrow> x \<in> set (getSubscriptions ch' (w_metas w mr')) \<longrightarrow> mr' = mr)
    \<and> (\<forall>ch. distinct (slice_at (w_subscriptions w) ch)) \<and> pool_ok (w_metas w) (w_pool w) \<and> topo_inv (w_topology w)"
proof -
  have inv: "world_inv w" using subsystem.inv_reachable [OF assms(1,2)] assms(3) by (simp add: system_inv_def)
  have regs: "distinct (getSubscriptions ch (w_metas w mr))"
    "\<forall>x \<in> set (getSubscriptions ch (w_metas w mr)). sub_channel (w_subs w x) = ch"
    "\<forall>p. getPendingSubscription ch (w_metas w mr) = Some p \<longrightarrow> p \<in> set (getSubscriptions ch (w_metas w mr))" for mr ch
    using inv by (auto simp: world_inv_def filed_def regs_def regs_inv_def getSubscriptions_def getPendingSubscription_def)
  have home: "mr' = mr" if "getMetadata (Some ps) (w_pool w) = Some mr" "getMetadata (Some ps') (w_pool w) = Some mr'"
    "x \<in> set (getSubscriptions ch (w_metas w mr))" "x \<in> set (getSubscriptions ch' (w_metas w mr'))" for ps mr ps' mr' ch ch' x
  proof -
    have "map_of (pl_pubSubMetadata (w_pool w)) mr = Some mr" "map_of (pl_pubSubMetadata (w_pool w)) mr' = Some mr'"
      using that(1,2) inv by (auto simp: world_inv_def conns_ok_def getMetadata_def)
    then have "sub_pubsub (w_subs w x) = Some mr" "sub_pubsub (w_subs w x) = Some mr'"
      using inv that(3,4) unfolding world_inv_def at_home_def by (auto simp: regs_def getSubscriptions_def)
    then show ?thesis by simp
  qed
  show ?thesis using inv regs home by (simp add: world_inv_def map_fine_def conns_ok_def)
qed

theorem registrations_consistent_witness:
  "\<exists>s. system_step\<^sup>*\<^sup>* newSystem s \<and> getSubscriptions ''c'' (w_metas (sy_world s) 1) = [2]
     \<and> sub_channel (w_subs (sy_world s) 2) = ''c'' \<and> pool_ok (w_metas (sy_world s)) (w_pool (sy_world s))"
proof -
  obtain s where s: "system_step\<^sup>*\<^sup>* newSystem s" "getSubscriptions ''c'' (w_metas (sy_world s) 1) = [2]"
    using subscribed_reachable by blast
  have "\<forall>x \<in> set (getSubscriptions ''c'' (w_metas (sy_world s) 1)). sub_channel (w_subs (sy_world s) x) = ''c''"
    "pool_ok (w_metas (sy_world s)) (w_pool (sy_world s))"
    using registrations_consistent [OF newSystem_init s(1) refl] by blast+
  with s show ?thesis by auto
qed

text \<open>No accepted message is left behind, and no goroutine of the delivery path panics. In every reachable state
  a subscription has at most one drain task (queued for the workers, in a goroutine, blocked in its submission
  or running), so its callbacks never overlap; it has one while messages are queued for it; and from every
  reachable state the system can go on to execute all of them.\<close>

theorem accepted_messages_executable:
  assumes "system_init s0" and "system_step\<^sup>*\<^sup>* s0 s"
  shows "\<not> w_panicked (sy_world s) \<and> count_list (drain_tasks (sy_world s) @ sy_drains s) r \<le> 1
    \<and> (queued (sy_world s) r \<noteq> [] \<longrightarrow> count_list (drain_tasks (sy_world s) @ sy_drains s) r = 1)
    \<and> (\<exists>t. system_step\<^sup>*\<^sup>* s t \<and> queued (sy_world t) r = [])"
proof -
  have inv: "system_inv s" by (rule subsystem.inv_reachable [OF assms])
  have "\<exists>t. system_step\<^sup>*\<^sup>* s t \<and> queued (sy_world t) r = []"
    using queue_executable [OF system_inv_fine [OF inv]] core_steps by blast
  then show ?thesis using inv unfolding system_inv_def world_inv_def delivery_ok_def drains_ok_def by auto
qed

theorem accepted_messages_executable_witness:
  "\<exists>s t. system_step\<^sup>*\<^sup>* newSystem s \<and> queued (sy_world s) 2 \<noteq> [] \<and> system_step\<^sup>*\<^sup>* s t \<and> queued (sy_world t) 2 = []"
proof -
  obtain s where s: "system_step\<^sup>*\<^sup>* newSystem s" "getSubscriptions ''c'' (w_metas (sy_world s) 1) = [2]" "sub_live (sy_world s) 2"
    "m_loopDoneCloses (w_metas (sy_world s) 1) = 0" "\<not> queue_full (sy_world s) 2" using subscribed_reachable by blast
  have inv: "system_inv s" by (rule subsystem.inv_reachable [OF newSystem_init s(1)])
  let ?w = "processResponse 0 5 1 (RMessage [] ''c'' ''x'') (sy_world s)"
  have step: "system_step s (s\<lparr>sy_world := ?w\<rparr>)"
    using loop_runs [OF s(4), of undefined 0 5 "MsgReady (RMessage [] ''c'' ''x'')" ?w False] by (simp add: loop_iteration_def core)
  have "delivery_ok (sy_world s)" using inv by (simp add: system_inv_def world_inv_def)
  then have "queued ?w 2 \<noteq> []"
    using s(2,3,5) invoke_delivery [of "record_metric mt (sy_world s)" 0 5 2 _ 2 for mt]
    by (auto simp: processResponse_def handleMessageFromPubSub_def handleSMessageFromPubSub_def dispatchMessage_def dispatch_one_def
        sub_live_def getState_def)
  moreover have "system_step\<^sup>*\<^sup>* newSystem (s\<lparr>sy_world := ?w\<rparr>)" using s(1) step by simp
  moreover from accepted_messages_executable [OF newSystem_init this, of 2]
  obtain t where "system_step\<^sup>*\<^sup>* (s\<lparr>sy_world := ?w\<rparr>) t" "queued (sy_world t) 2 = []" by blast
  ultimately show ?thesis by (intro exI [of _ "s\<lparr>sy_world := ?w\<rparr>"] exI [of _ t]) simp
qed

text \<open>C5. A message is delivered exactly once, in every state that is reached while no call and no move of a
  subscription is interrupted between two of its waits: when the event loop of a connection handles a message,
  each live subscription registered there under its key gets it once, unless its queue is full, no other
  subscription gets anything, and each recipient then has a drain task.\<close>

theorem message_delivered_once:
  assumes "system_init s0" and "system_step\<^sup>*\<^sup>* s0 s" and "w = sy_world s"
    and "loop_iteration rd pick now mr (MsgReady (RMessage pattern channel payload)) w = Some (w', left)"
    and "key = (if pattern \<noteq> [] then pattern else channel)"
  shows "\<not> left \<and> (\<exists>msg. msg_Payload msg = payload \<and> msg_Channel msg = channel \<and> msg_Pattern msg = pattern \<and>
      (\<forall>r. queued w' r = queued w r @
        (if r \<in> set (getSubscriptions key (w_metas w mr)) \<and> sub_live w r \<and> \<not> queue_full w r
         then [\<lparr>pc_msg = Some msg, pc_enqueuedAt = now\<rparr>] else [])))
    \<and> (\<forall>r. queued w' r \<noteq> [] \<longrightarrow> count_list (drain_tasks w' @ sy_drains s) r = 1)"
proof -
  have inv: "system_inv s" by (rule subsystem.inv_reachable [OF assms(1,2)])
  then have wi: "world_inv w" "drains_ok (sy_drains s) w" using assms(3) by (auto simp: system_inv_def)
  have d: "delivery_ok w" "distinct (getSubscriptions k (w_metas w mr))" for k
    using wi(1) by (auto simp: world_inv_def regs_inv_def getSubscriptions_def)
  have w': "w' = processResponse pick now mr (RMessage pattern channel payload) w" "\<not> left"
    using assms(4) by (auto simp: loop_iteration_def)
  obtain msg where msg: "w' = dispatchMessage pick now mr key msg w" "msg_Payload msg = payload" "msg_Channel msg = channel"
    "msg_Pattern msg = pattern"
    using w'(1) assms(5) by (auto simp: processResponse_def handlePMessageFromPubSub_def handleMessageFromPubSub_def
        handleSMessageFromPubSub_def redisMessage_def Let_def split: if_splits)
  have "tame w w'" using tame_processResponse [OF world_inv_fine [OF wi(1)]] w'(1) by simp
  then have "drains_ok (sy_drains s) w'" using tame_drains d(1) wi(2) by blast
  then have one: "queued w' r \<noteq> [] \<Longrightarrow> count_list (drain_tasks w' @ sy_drains s) r = 1" for r by (simp add: drains_ok_def)
  let ?v = "record_metric (MessageReceived (String_subType (msg_SubscriptionType msg)) (m_nodeAddr (w_metas w mr))) w"
  have v: "delivery_ok ?v" "queued ?v r = queued w r" "queue_full ?v r = queue_full w r" "sub_live ?v r = sub_live w r" for r
    using d(1) by (simp_all add: sub_live_def)
  have "queued w' r = queued w r @ (if r \<in> set (getSubscriptions key (w_metas w mr)) \<and> sub_live w r \<and> \<not> queue_full w r
      then [\<lparr>pc_msg = Some msg, pc_enqueuedAt = now\<rparr>] else [])" for r
    using dispatch_fold_effect [OF v(1) d(2) [of key], of pick now msg r] v(2-4) [of r]
    by (auto simp: msg(1) dispatchMessage_def Let_def)
  then show ?thesis using w'(2) msg(2-4) one by blast
qed

theorem message_delivered_once_witness:
  "\<exists>s w' msg. system_step\<^sup>*\<^sup>* newSystem s \<and> msg_Payload msg = ''x''
     \<and> queued w' 2 = queued (sy_world s) 2 @ [\<lparr>pc_msg = Some msg, pc_enqueuedAt = 5\<rparr>]
     \<and> count_list (drain_tasks w' @ sy_drains s) 2 = 1"
proof -
  obtain s where s: "system_step\<^sup>*\<^sup>* newSystem s" "getSubscriptions ''c'' (w_metas (sy_world s) 1) = [2]" "sub_live (sy_world s) 2"
    "\<not> queue_full (sy_world s) 2" using subscribed_reachable by blast
  let ?w = "processResponse 0 5 1 (RMessage [] ''c'' ''x'') (sy_world s)"
  have "loop_iteration \<lparr>isMovedError = (\<lambda>_. None), isAskError = (\<lambda>_. None)\<rparr> 0 5 1 (MsgReady (RMessage [] ''c'' ''x'')) (sy_world s) = Some (?w, False)"
    by (simp add: loop_iteration_def)
  from message_delivered_once [OF newSystem_init s(1) refl this refl] obtain msg where
    m: "msg_Payload msg = ''x''" "queued ?w 2 = queued (sy_world s) 2 @ (if 2 \<in> set (getSubscriptions ''c'' (w_metas (sy_world s) 1))
        \<and> sub_live (sy_world s) 2 \<and> \<not> queue_full (sy_world s) 2 then [\<lparr>pc_msg = Some msg, pc_enqueuedAt = 5\<rparr>] else [])"
    "queued ?w 2 \<noteq> [] \<longrightarrow> count_list (drain_tasks ?w @ sy_drains s) 2 = 1" by auto
  then have "queued ?w 2 = queued (sy_world s) 2 @ [\<lparr>pc_msg = Some msg, pc_enqueuedAt = 5\<rparr>]" using s(2-4) by simp
  with m(1,3) s(1) show ?thesis by (intro exI [of _ s] exI [of _ ?w] exI [of _ msg]) simp
qed

end
