(* ===== verification/Delivery_Spec.thy ===== *)
theory Delivery_Spec
  imports Sequencer
begin

text \<open>
  The abstract specification of the delivery to one subscription: a mailbox with an optional capacity and a
  single consumer. The sequencer with its ring buffer, its lazily started drain tasks and the flag that
  tells whether one is running refines it: every run of the sequencer is, step by step, a run of the mailbox.
\<close>

section \<open>Refinement of transition systems\<close>

text \<open>A forward simulation through an abstraction function: a concrete step is an abstract step or leaves the
  abstract state alone.\<close>

locale refinement =
  fixes cinit :: "'c \<Rightarrow> bool" and cstep :: "'c \<Rightarrow> 'c \<Rightarrow> bool" and cinv :: "'c \<Rightarrow> bool"
    and ainit :: "'a \<Rightarrow> bool" and astep :: "'a \<Rightarrow> 'a \<Rightarrow> bool" and abs_state :: "'c \<Rightarrow> 'a"
  assumes conc_init: "cinit s \<Longrightarrow> cinv s"
    and conc_step: "cinv s \<Longrightarrow> cstep s t \<Longrightarrow> cinv t"
    and abs_init: "cinit s \<Longrightarrow> ainit (abs_state s)"
    and abs_step: "cinv s \<Longrightarrow> cstep s t \<Longrightarrow> astep (abs_state s) (abs_state t) \<or> abs_state t = abs_state s"
begin

lemma abs_run:
  assumes "cinit s" and "cstep\<^sup>*\<^sup>* s t"
  shows "cinv t \<and> astep\<^sup>*\<^sup>* (abs_state s) (abs_state t)"
  using assms(2)
proof (induction rule: rtranclp_induct)
  case base
  then show ?case using conc_init [OF assms(1)] by simp
next
  case (step u v)
  then show ?case using conc_step [of u v] abs_step [of u v] by (metis rtranclp.rtrancl_into_rtrancl)
qed

text \<open>An invariant of the abstract system holds of every reachable concrete state.\<close>

lemma abs_invariant:
  assumes "cinit s" and "cstep\<^sup>*\<^sup>* s t"
    and "\<And>a. ainit a \<Longrightarrow> P a" and "\<And>a b. P a \<Longrightarrow> astep a b \<Longrightarrow> P b"
  shows "P (abs_state t)"
proof -
  have "astep\<^sup>*\<^sup>* (abs_state s) (abs_state t)" using abs_run [OF assms(1,2)] by blast
  moreover have "P (abs_state s)" by (rule assms(3) [OF abs_init [OF assms(1)]])
  ultimately show ?thesis by (induction rule: rtranclp_induct) (auto intro: assms(4))
qed

end

section \<open>The mailbox\<close>

text \<open>The capacity (\<open>None\<close>: unbounded), the waiting items, the item being consumed, the items consumed, and
  the number of items rejected.\<close>

record mailbox =
  mb_capacity :: "nat option"
  mb_waiting :: "pendingCallback list"
  mb_current :: "pendingCallback option"
  mb_consumed :: "pendingCallback list"
  mb_rejected :: nat

definition mb_full :: "mailbox \<Rightarrow> bool" where
  "mb_full b \<longleftrightarrow> (case mb_capacity b of None \<Rightarrow> False | Some n \<Rightarrow> n \<le> length (mb_waiting b))"

definition mb_init :: "mailbox \<Rightarrow> bool" where
  "mb_init b \<longleftrightarrow> mb_waiting b = [] \<and> mb_current b = None \<and> mb_consumed b = [] \<and> mb_rejected b = 0 \<and> mb_capacity b \<noteq> Some 0"

inductive mb_step :: "mailbox \<Rightarrow> mailbox \<Rightarrow> bool" where
  accept: "\<not> mb_full b \<Longrightarrow> mb_step b (b\<lparr>mb_waiting := mb_waiting b @ [x]\<rparr>)"
| reject: "mb_full b \<Longrightarrow> mb_step b (b\<lparr>mb_rejected := Suc (mb_rejected b)\<rparr>)"
| begin_item: "mb_current b = None \<Longrightarrow> mb_waiting b = x # xs \<Longrightarrow> mb_step b (b\<lparr>mb_waiting := xs, mb_current := Some x\<rparr>)"
| end_item: "mb_current b = Some x \<Longrightarrow> mb_step b (b\<lparr>mb_current := None, mb_consumed := mb_consumed b @ [x]\<rparr>)"

section \<open>The sequencer refines the mailbox\<close>

definition mailbox_of :: "seq_sys \<Rightarrow> mailbox" where
  "mailbox_of s =
     \<lparr>mb_capacity = (if s_maxQueueSize (q_seq s) > 0 then Some (nat (s_maxQueueSize (q_seq s))) else None),
      mb_waiting = ring_elems (s_queue (q_seq s)),
      mb_current = (case executing s of [] \<Rightarrow> None | x # _ \<Rightarrow> Some x),
      mb_consumed = q_delivered s, mb_rejected = q_dropped s\<rparr>"

lemma full_mailbox: "mb_full (mailbox_of s) \<longleftrightarrow> full (q_seq s)"
  by (auto simp: mb_full_def mailbox_of_def full_def)

lemma enqueue_decides:
  assumes "seq_ok s" and "enqueue_locked now msg s = Some (sq, d, ms)"
  shows "s_maxQueueSize sq = s_maxQueueSize s \<and>
    (if full s then (\<exists>g. d = Drop g) \<and> ring_elems (s_queue sq) = ring_elems (s_queue s)
     else (\<forall>g. d \<noteq> Drop g) \<and> ring_elems (s_queue sq) = ring_elems (s_queue s) @ [\<lparr>pc_msg = Some msg, pc_enqueuedAt = now\<rparr>])"
proof (cases "full s")
  case True
  from enqueue_locked_full [OF assms(1) True, of now msg] assms ready_ok [of s] True show ?thesis
    by (auto simp: seq_ok_def)
next
  case False
  from enqueue_locked_room [OF assms(1) False, of now msg] assms(2) False show ?thesis by (auto split: if_splits)
qed

lemma mailbox_accepts:
  assumes "seq_inv s" and "enqueue_locked now msg (q_seq s) = Some (sq, d, ms)" and "d \<in> {Queued, StartDrain}"
    and "q_seq t = sq" and "executing t = executing s"
    and "q_delivered t = q_delivered s" and "q_dropped t = q_dropped s"
  shows "mb_step (mailbox_of s) (mailbox_of t)"
proof -
  let ?x = "\<lparr>pc_msg = Some msg, pc_enqueuedAt = now\<rparr>"
  have ok: "seq_ok (q_seq s)" using assms(1) by (simp add: seq_inv_def)
  from enqueue_decides [OF ok assms(2)] assms(3) have f: "\<not> full (q_seq s)" "s_maxQueueSize sq = s_maxQueueSize (q_seq s)"
    "ring_elems (s_queue sq) = ring_elems (s_queue (q_seq s)) @ [?x]" by (auto split: if_splits)
  have "mailbox_of t = (mailbox_of s)\<lparr>mb_waiting := mb_waiting (mailbox_of s) @ [?x]\<rparr>"
    using f assms(4-7) by (simp add: mailbox_of_def)
  then show ?thesis using mb_step.accept [of "mailbox_of s" ?x] f(1) by (simp add: full_mailbox)
qed

lemma mailbox_step: "seq_step s t \<Longrightarrow> seq_inv s \<Longrightarrow> mb_step (mailbox_of s) (mailbox_of t) \<or> mailbox_of t = mailbox_of s"
proof (induction rule: seq_step.induct)
  case (enq_drop now msg s sq signal ms)
  have ok: "seq_ok (q_seq s)" using enq_drop.prems by (simp add: seq_inv_def)
  from enqueue_decides [OF ok enq_drop.hyps] have f: "full (q_seq s)" "s_maxQueueSize sq = s_maxQueueSize (q_seq s)"
    "ring_elems (s_queue sq) = ring_elems (s_queue (q_seq s))" by (auto split: if_splits)
  have "mailbox_of (s\<lparr>q_seq := sq, q_dropped := Suc (q_dropped s), q_signals := g\<rparr>) =
      (mailbox_of s)\<lparr>mb_rejected := Suc (mb_rejected (mailbox_of s))\<rparr>" for g
    using f by (simp add: mailbox_of_def executing_def)
  then show ?case using mb_step.reject [of "mailbox_of s"] f(1) by (simp add: full_mailbox)
next
  case (enq_queued now msg s sq ms)
  then show ?case by (intro disjI1 mailbox_accepts [OF enq_queued.prems enq_queued.hyps]) (simp_all add: executing_def)
next
  case (enq_start now msg s sq ms)
  then show ?case by (intro disjI1 mailbox_accepts [OF enq_start.prems enq_start.hyps]) (simp_all add: executing_def)
next
  case (drain_take s a b sq item)
  have ok: "seq_ok (q_seq s)" using drain_take.prems by (simp add: seq_inv_def)
  have d: "q_drains s = [AtLock]" "a = []" "b = []"
    using one_drain [OF drain_take.prems drain_take.hyps(1)] drain_take.hyps(1) by auto
  from ok drain_take.hyps(2) obtain xs where x: "ring_elems (s_queue (q_seq s)) = item # xs"
    "ring_elems (s_queue sq) = xs" "s_maxQueueSize sq = s_maxQueueSize (q_seq s)" by (rule drain_locked_cases) auto
  show ?case using mb_step.begin_item [of "mailbox_of s" item xs] x d
    by (cases "s_maxQueueSize (q_seq s) > 0") (simp_all add: mailbox_of_def executing_def)
next
  case (drain_return s a b sq)
  have ok: "seq_ok (q_seq s)" using drain_return.prems by (simp add: seq_inv_def)
  have d: "q_drains s = [AtLock]" "a = []" "b = []"
    using one_drain [OF drain_return.prems drain_return.hyps(1)] drain_return.hyps(1) by auto
  from ok drain_return.hyps(2) show ?case
    by (rule drain_locked_cases) (use d in \<open>simp_all add: mailbox_of_def executing_def\<close>)
next
  case (callback_done s a item b)
  have d: "q_drains s = [Executing item]" "a = []" "b = []"
    using one_drain [OF callback_done.prems callback_done.hyps] callback_done.hyps by auto
  then show ?case using mb_step.end_item [of "mailbox_of s" item]
    by (cases "s_maxQueueSize (q_seq s) > 0") (simp_all add: mailbox_of_def executing_def)
qed

interpretation delivery: refinement seq_init seq_step seq_inv mb_init mb_step mailbox_of
proof unfold_locales
  show "seq_init s \<Longrightarrow> mb_init (mailbox_of s)" for s
    by (auto simp: seq_init_def mb_init_def mailbox_of_def executing_def) (simp_all add: newSequencer_def)
qed (auto intro: seq_inv_init seq_inv_step dest: mailbox_step)

section \<open>Properties\<close>

text \<open>C11. The sequencer refines a mailbox: under every interleaving of enqueuing goroutines and drain tasks, a
  run of the sequencer is a run of a bounded FIFO mailbox with one consumer. In particular a message is
  rejected only when as many messages as the limit allows are waiting, items are consumed one after the
  other in the order of acceptance, and a bounded mailbox never holds more than its limit.\<close>

theorem sequencer_refines_mailbox:
  assumes "seq_init s" and "seq_step\<^sup>*\<^sup>* s t"
  shows "mb_init (mailbox_of s) \<and> mb_step\<^sup>*\<^sup>* (mailbox_of s) (mailbox_of t)
    \<and> (\<forall>n. mb_capacity (mailbox_of t) = Some n \<longrightarrow> length (mb_waiting (mailbox_of t)) \<le> n)"
proof -
  let ?P = "\<lambda>b. \<forall>n. mb_capacity b = Some n \<longrightarrow> length (mb_waiting b) \<le> n"
  have st: "mb_step a b \<Longrightarrow> ?P a \<Longrightarrow> ?P b" for a b
    by (induction rule: mb_step.induct) (auto simp: mb_full_def)
  have "?P (mailbox_of t)"
    by (rule delivery.abs_invariant [OF assms, where P = ?P]) (auto simp: mb_init_def dest: st)
  then show ?thesis using delivery.abs_run [OF assms] delivery.abs_init [OF assms(1)] by blast
qed

theorem sequencer_refines_mailbox_witness:
  "\<exists>t. seq_step\<^sup>*\<^sup>* seq0 t \<and> mb_step\<^sup>*\<^sup>* (mailbox_of seq0) (mailbox_of t) \<and> length (mb_waiting (mailbox_of t)) = 1"
proof -
  let ?t = "seq0\<lparr>q_seq := seq1, q_drains := [AtLock], q_accepted := [\<lparr>pc_msg = Some msg0, pc_enqueuedAt = 6\<rparr>]\<rparr>"
  have "mb_step\<^sup>*\<^sup>* (mailbox_of seq0) (mailbox_of ?t)"
    using sequencer_refines_mailbox [OF seq0_init seq1_reachable] by blast
  moreover have "length (mb_waiting (mailbox_of ?t)) = 1" by (simp add: mailbox_of_def seq1_def)
  ultimately show ?thesis using seq1_reachable by blast
qed

end
