(* ===== verification/Node_Options.thy ===== *)
theory Node_Options
  imports Config_Options
begin

text \<open>
  \<open>pool.go\<close>, \<open>clusterOptionsToNodeOptions\<close>, and the overrides that \<open>refreshTopology\<close> makes for the short-lived
  clients it uses to query seed nodes. The option records of the Redis client have one field per option the
  code names; values that the code only passes on (credentials, TLS configuration, functions) are opaque.
\<close>

section \<open>The option records\<close>

type_synonym opaque = nat

record common_options =
  o_Username :: string
  o_Password :: string
  o_CredentialsProvider :: opaque
  o_CredentialsProviderContext :: opaque
  o_StreamingCredentialsProvider :: opaque
  o_TLSConfig :: opaque
  o_Dialer :: opaque
  o_OnConnect :: opaque
  o_ClientName :: string
  o_Protocol :: int
  o_ContextTimeoutEnabled :: bool
  o_DialTimeout :: int
  o_ReadTimeout :: int
  o_WriteTimeout :: int
  o_DisableIdentity :: bool
  o_IdentitySuffix :: string
  o_MaxRetries :: int
  o_MinRetryBackoff :: int
  o_MaxRetryBackoff :: int
  o_ReadBufferSize :: int
  o_WriteBufferSize :: int

record ClusterOptions = common_options +
  o_Addrs :: "string list"
  co_PoolSize :: int
  co_MinIdleConns :: int

record Options = common_options +
  o_Addr :: string
  o_PoolSize :: int
  o_MinIdleConns :: int

text \<open>The composite literal: fields it does not name have their zero value.\<close>

definition clusterOptionsToNodeOptions :: "ClusterOptions \<Rightarrow> string \<Rightarrow> Options" where
  "clusterOptionsToNodeOptions clusterOpts addr =
     \<lparr>o_Username = o_Username clusterOpts, o_Password = o_Password clusterOpts,
      o_CredentialsProvider = o_CredentialsProvider clusterOpts,
      o_CredentialsProviderContext = o_CredentialsProviderContext clusterOpts,
      o_StreamingCredentialsProvider = o_StreamingCredentialsProvider clusterOpts,
      o_TLSConfig = o_TLSConfig clusterOpts, o_Dialer = o_Dialer clusterOpts, o_OnConnect = o_OnConnect clusterOpts,
      o_ClientName = o_ClientName clusterOpts, o_Protocol = o_Protocol clusterOpts,
      o_ContextTimeoutEnabled = o_ContextTimeoutEnabled clusterOpts,
      o_DialTimeout = o_DialTimeout clusterOpts, o_ReadTimeout = o_ReadTimeout clusterOpts,
      o_WriteTimeout = o_WriteTimeout clusterOpts, o_DisableIdentity = o_DisableIdentity clusterOpts,
      o_IdentitySuffix = o_IdentitySuffix clusterOpts, o_MaxRetries = o_MaxRetries clusterOpts,
      o_MinRetryBackoff = o_MinRetryBackoff clusterOpts, o_MaxRetryBackoff = o_MaxRetryBackoff clusterOpts,
      o_ReadBufferSize = o_ReadBufferSize clusterOpts, o_WriteBufferSize = o_WriteBufferSize clusterOpts,
      o_Addr = addr, o_PoolSize = 0, o_MinIdleConns = 0\<rparr>"

definition seedNodeOptions :: "ClusterOptions \<Rightarrow> string \<Rightarrow> Options" where
  "seedNodeOptions opts addr =
     (clusterOptionsToNodeOptions opts addr)\<lparr>o_PoolSize := 1, o_MinIdleConns := 0, o_MaxRetries := 1,
        o_DialTimeout := 1 * Second, o_ReadTimeout := 1 * Second, o_WriteTimeout := 1 * Second\<rparr>"

section \<open>Lemmas\<close>

text \<open>Every connection-level option is cascaded: the common part of the records agrees.\<close>

lemma options_cascade: "common_options.truncate (clusterOptionsToNodeOptions c addr) = common_options.truncate c"
  by (simp add: clusterOptionsToNodeOptions_def common_options.defs)

lemma seed_options:
  "o_Addr (seedNodeOptions c addr) = addr \<and> o_Username (seedNodeOptions c addr) = o_Username c
   \<and> o_Password (seedNodeOptions c addr) = o_Password c \<and> o_TLSConfig (seedNodeOptions c addr) = o_TLSConfig c
   \<and> o_PoolSize (seedNodeOptions c addr) = 1 \<and> o_DialTimeout (seedNodeOptions c addr) = Second"
  by (simp add: seedNodeOptions_def clusterOptionsToNodeOptions_def)

end
