(* ===== verification/Interleaving.thy ===== *)
theory Interleaving
  imports System
begin

text \<open>
  The calls of \<open>submux.go\<close>, \<open>pool.go\<close> and \<open>topology.go\<close> that add to the shared state, split into their critical
  sections: \<open>getPubSubForHashslot\<close> with everything it calls, \<open>subscribeToChannel\<close> and \<open>resubscribeOnNewNode\<close>. A step
  is what a goroutine does under one lock, and the sections of any number of goroutines interleave. It is
  shown that the sections of a call, run without interruption, are the call of the other theories; what holds
  however the sections interleave; and what does not.
\<close>

section \<open>The sections of a connection lookup\<close>

type_synonym pend_store = "pend_ref \<Rightarrow> pendingConnectionResult"

text \<open>
  Where a call of \<open>getPubSubForHashslot\<close> is, by the section that comes next: the cached lookup; the choice between
  all nodes and one node; the first lookup of the node, the refresh it forces and the second lookup; the reuse
  of a connection to the node, or the selection among the nodes; the creation, with the pending result that
  was announced; the registration of the new connection; the resolution of the pending result; the wait for
  another goroutine's creation and the association of its connection. \<open>Returned\<close>: it has returned.
\<close>

datatype connecting =
    Lookup
  | ChooseNode
  | FirstNode
  | NodeRefresh
  | NodeAgain
  | OnNode string
  | AcrossNodes "string list"
  | Create string "pend_ref option"
  | Register string "pend_ref option" ps_ref
  | Resolve string pend_ref ps_ref
  | AwaitResult pend_ref
  | Associate "ps_ref option \<times> goerror option"
  | Returned "goerror + ps_ref option"

text \<open>\<open>None\<close>: the call waits, or the section is the refresh, which also changes the monitor.\<close>

fun connect_section ::
  "goerror + ClusterSlot list \<Rightarrow> nat \<Rightarrow> nat \<Rightarrow> goerror option \<Rightarrow> int \<Rightarrow> connecting \<Rightarrow> world \<Rightarrow> pend_store \<Rightarrow>
   (world \<times> pend_store \<times> connecting) option" where
  "connect_section slots rnd pick ctxErr hashslot Lookup w res =
     Some (w, res, case getPubSub_cached (w_pool w) (w_metas w) hashslot of
        Some best \<Rightarrow> Returned (Inr (Some best)) | None \<Rightarrow> ChooseNode)"
| "connect_section slots rnd pick ctxErr hashslot ChooseNode w res =
     (let nodes = (if cfg_nodePreference (w_config w) = BalancedAll then tm_getNodesForHashslot hashslot w else None)
      in Some (w, res, if nodes \<noteq> None \<and> nodes \<noteq> Some [] then AcrossNodes (the nodes) else FirstNode))"
| "connect_section slots rnd pick ctxErr hashslot FirstNode w res =
     Some (w, res, case tm_getNodeForHashslot rnd hashslot w of Some node \<Rightarrow> OnNode node | None \<Rightarrow> NodeRefresh)"
| "connect_section slots rnd pick ctxErr hashslot NodeRefresh w res = None"
| "connect_section slots rnd pick ctxErr hashslot NodeAgain w res =
     Some (w, res, case pool_getNodeForHashslot (Some (None, tm_getNodeForHashslot rnd hashslot w)) slots hashslot of
        Inl err \<Rightarrow> Returned (Inl (Wrapf (''failed to get node for hashslot '' @ showInt hashslot @ '': '') err))
      | Inr node \<Rightarrow> OnNode node)"
| "connect_section slots rnd pick ctxErr hashslot (OnNode node) w res =
     (case reuse_on_node (w_metas w) hashslot node (w_pool w) of
        Some (p, best) \<Rightarrow> Some (w\<lparr>w_pool := p\<rparr>, res, Returned (Inr (Some best)))
      | None \<Rightarrow> Some (w, res, Create node None))"
| "connect_section slots rnd pick ctxErr hashslot (AcrossNodes nodes) w res =
     (let (p, d) = select_locked (w_metas w) (w_next w) hashslot nodes (w_pool w);
          w1 = w\<lparr>w_pool := p\<rparr>
      in case d of
           Reuse best \<Rightarrow> Some (w1, res, Returned (Inr (Some best)))
         | NoValidNode \<Rightarrow> Some (w1, res, Returned (Inl (Errorf (''no valid nodes found for hashslot '' @ showInt hashslot))))
         | AwaitPending pr \<Rightarrow> Some (w1, res, AwaitResult pr)
         | CreateAt node \<Rightarrow>
             Some (w1\<lparr>w_next := Suc (w_next w)\<rparr>, res(w_next w := newPendingConnectionResult), Create node (Some (w_next w))))"
| "connect_section slots rnd pick ctxErr hashslot (Create node pending) w res =
     (let (w1, ps) = createPubSubToNode node w in Some (w1, res, Register node pending ps))"
| "connect_section slots rnd pick ctxErr hashslot (Register node pending ps) w res =
     (case pending of
        None \<Rightarrow> Some (w\<lparr>w_pool := register_on_node hashslot node ps (w_pool w)\<rparr>, res, Returned (Inr (Some ps)))
      | Some pr \<Rightarrow> Some (w\<lparr>w_pool := create_finished hashslot node (Inr ps) (w_pool w)\<rparr>, res, Resolve node pr ps))"
| "connect_section slots rnd pick ctxErr hashslot (Resolve node pr ps) w res =
     Some (w, res(pr := create_result node (Inr ps) (res pr)), Returned (Inr (Some ps)))"
| "connect_section slots rnd pick ctxErr hashslot (AwaitResult pr) w res =
     (case wait_pending pick ctxErr (res pr) of None \<Rightarrow> None | Some r \<Rightarrow> Some (w, res, Associate r))"
| "connect_section slots rnd pick ctxErr hashslot (Associate r) w res =
     (let (p, result) = await_finished hashslot r (w_pool w) in Some (w\<lparr>w_pool := p\<rparr>, res, Returned result))"
| "connect_section slots rnd pick ctxErr hashslot (Returned r) w res = None"

text \<open>The state that the goroutines share: the monitor, the world, the pending results.\<close>

type_synonym shared = "monitor \<times> world \<times> pend_store"

inductive connect_step :: "int \<Rightarrow> shared \<times> connecting \<Rightarrow> shared \<times> connecting \<Rightarrow> bool" for hashslot where
  connect_section: "connect_section slots rnd pick ctxErr hashslot c w res = Some (w', res', c') \<Longrightarrow>
     connect_step hashslot ((mo, w, res), c) ((mo, w', res'), c')"
| connect_refresh: "do_refresh env (mo, w) = (mo', w') \<Longrightarrow>
     connect_step hashslot ((mo, w, res), NodeRefresh) ((mo', w', res), NodeAgain)"

section \<open>The sections of a subscription call\<close>

record sub_call =
  sk_ctx :: "ctx_ref option"
  sk_channel :: string
  sk_subType :: subscriptionType
  sk_callback :: callback_ref
  sk_limit :: int
  sk_hashslot :: int

text \<open>After the connection: the metadata has been read; the subscription is in the global map; it has found a
  pending one on the connection, or a confirmed one; it has sent its command, waits or has returned.\<close>

datatype starting =
    Connecting connecting
  | HasMeta "ps_ref option" meta_ref
  | InMap sub_ref meta_ref
  | JoinPending sub_ref meta_ref sub_ref
  | JoinActive sub_ref
  | Started sub_progress

fun start_section :: "sub_call \<Rightarrow> starting \<Rightarrow> world \<Rightarrow> (world \<times> starting) option" where
  "start_section call (Connecting (Returned r)) w = Some (w, case r of
       Inl err \<Rightarrow> Started (SubFails (Wrapf (''failed to get PubSub for hashslot '' @ showInt (sk_hashslot call) @ '': '') err))
     | Inr pubsub \<Rightarrow>
         (case getMetadata pubsub (w_pool w) of
            None \<Rightarrow> Started (SubFails (Errorf ''no metadata found for PubSub''))
          | Some mr \<Rightarrow> HasMeta pubsub mr))"
| "start_section call (HasMeta pubsub mr) w =
     (let sub = w_next w;
          s = newSubscription (sk_channel call) (sk_subType call) pubsub (sk_callback call) (sk_hashslot call) (sk_limit call)
      in Some (addSubscriptionToMapLocked (sk_channel call) sub (w\<lparr>w_next := Suc sub, w_subs := (w_subs w)(sub := s)\<rparr>), InMap sub mr))"
| "start_section call (InMap sub mr) w =
     (let (m, needsSubscribe, existingPending) = addSubscriptionAndCheckFirst sub (sk_channel call) (w_metas w mr);
          w1 = upd_meta mr (\<lambda>_. m) w
      in if needsSubscribe
         then (let response = w_next w1;
                   w2 = w1\<lparr>w_next := Suc response, w_responses := (w_responses w1)(response := [])\<rparr>;
                   cmd = \<lparr>c_ctx = sk_ctx call, c_cmd = subscribeCommandName (sk_subType call), c_args = [sk_channel call],
                          c_sub = Some sub, c_response = Some response\<rparr>
               in Some (w2, Started (SendBlocks sub mr cmd)))
         else Some (w1, case existingPending of Some pending \<Rightarrow> JoinPending sub mr pending | None \<Rightarrow> JoinActive sub))"
| "start_section call (JoinPending sub mr pending) w =
     (case waitForActive_enter (w_subs w pending) of
        Inl result \<Rightarrow> (let (w1, pr) = finish_other sub mr pending result w in Some (w1, Started pr))
      | Inr ch \<Rightarrow> Some (w, Started (WaitOther sub mr pending ch)))"
| "start_section call (JoinActive sub) w =
     Some (sub_success sub (upd_sub sub (setState subStateActive None) w), Started (SubSucceeds sub))"
| "start_section call _ w = None"

inductive start_step :: "shared \<times> sub_call \<times> starting \<Rightarrow> shared \<times> sub_call \<times> starting \<Rightarrow> bool" where
  start_connects: "connect_step (sk_hashslot call) (sh, c) (sh', c') \<Longrightarrow>
     start_step (sh, call, Connecting c) (sh', call, Connecting c')"
| start_section: "start_section call st w = Some (w', st') \<Longrightarrow> start_step ((mo, w, res), call, st) ((mo, w', res), call, st')"

section \<open>The sections of a migration\<close>

text \<open>The move of one subscription to the connection \<open>ps\<close> of its group, by the section that comes next: reading its
  connection and that connection's metadata, leaving it, looking at its state, closing the subscription,
  pointing it to the new connection, finding the metadata there, registering, counting the registrations of
  the channel, then either preparing the resubscription or activating the subscription. \<open>Moved\<close>: the command
  goroutine that was started, if any.\<close>

datatype moving =
    ReadOld
  | FindOld "ps_ref option"
  | LeaveOld meta_ref
  | LookOld meta_ref
  | MarkClosed
  | SetNew
  | FindNew
  | AddNew meta_ref
  | CountNew meta_ref
  | ResetNew meta_ref
  | MarkPending meta_ref
  | AddPending meta_ref
  | MarkActive
  | Moved "resub_task list"

text \<open>\<open>ctxDone\<close>: whether the migration context is done when the section looks at it.\<close>

fun move_section ::
  "bool \<Rightarrow> subscriptionType \<Rightarrow> string \<Rightarrow> ps_ref option \<Rightarrow> sub_ref \<Rightarrow> moving \<Rightarrow> world \<Rightarrow> world \<times> moving" where
  "move_section ctxDone subType channel ps sub ReadOld w = (w, FindOld (getPubSub (w_subs w sub)))"
| "move_section ctxDone subType channel ps sub (FindOld old) w =
     (w, case getMetadata old (w_pool w) of None \<Rightarrow> SetNew | Some oldMeta \<Rightarrow> LeaveOld oldMeta)"
| "move_section ctxDone subType channel ps sub (LeaveOld oldMeta) w =
     (upd_meta oldMeta (removeSubscription (sub_channel (w_subs w sub)) sub) w, LookOld oldMeta)"
| "move_section ctxDone subType channel ps sub (LookOld oldMeta) w =
     (w, if meta_getState (w_metas w oldMeta) = connStateActive then MarkClosed else SetNew)"
| "move_section ctxDone subType channel ps sub MarkClosed w = (upd_sub sub (setState subStateClosed None) w, SetNew)"
| "move_section ctxDone subType channel ps sub SetNew w = (upd_sub sub (setPubSub ps) w, FindNew)"
| "move_section ctxDone subType channel ps sub FindNew w =
     (w, case getMetadata ps (w_pool w) of None \<Rightarrow> Moved [] | Some mr \<Rightarrow> AddNew mr)"
| "move_section ctxDone subType channel ps sub (AddNew mr) w =
     (upd_meta mr (addSubscription (sub_channel (w_subs w sub)) sub) w, CountNew mr)"
| "move_section ctxDone subType channel ps sub (CountNew mr) w =
     (w, if length (getSubscriptions channel (w_metas w mr)) = 1 then (if ctxDone then Moved [] else ResetNew mr) else MarkActive)"
| "move_section ctxDone subType channel ps sub (ResetNew mr) w = (upd_sub sub resetConfirmation w, MarkPending mr)"
| "move_section ctxDone subType channel ps sub (MarkPending mr) w = (upd_sub sub (setState subStatePending None) w, AddPending mr)"
| "move_section ctxDone subType channel ps sub (AddPending mr) w =
     (upd_meta mr (addPendingSubscription (sub_channel (w_subs w sub)) sub) w,
      Moved [(sub, subscribeCommandName subType, channel, mr)])"
| "move_section ctxDone subType channel ps sub MarkActive w = (upd_sub sub (setState subStateActive None) w, Moved [])"
| "move_section ctxDone subType channel ps sub (Moved tasks) w = (w, Moved tasks)"

text \<open>The goroutine: the groups that are left, and where it is in the current one. \<open>rr_tasks\<close>: the command goroutines
  it has started.\<close>

datatype resubbing =
    NextGroup
  | GroupConnects subscriptionType string "sub_ref list" connecting
  | GroupMoves subscriptionType string "ps_ref option" "sub_ref list" moving
  | GroupsDone

record resub_run =
  rr_hashslot :: int
  rr_groups :: "((subscriptionType \<times> string) \<times> sub_ref list) list"
  rr_phase :: resubbing
  rr_tasks :: "resub_task list"

definition resub_section :: "bool \<Rightarrow> resub_run \<Rightarrow> world \<Rightarrow> (world \<times> resub_run) option" where
  "resub_section ctxDone run w = (case rr_phase run of
       NextGroup \<Rightarrow>
         (case rr_groups run of
            [] \<Rightarrow> Some (w, run\<lparr>rr_phase := GroupsDone\<rparr>)
          | ((subType, channel), subs) # rest \<Rightarrow>
              Some (w, run\<lparr>rr_groups := rest, rr_phase := if ctxDone then NextGroup else GroupConnects subType channel subs Lookup\<rparr>))
     | GroupConnects subType channel subs (Returned r) \<Rightarrow>
         Some (w, run\<lparr>rr_phase := case r of
            Inl err \<Rightarrow> (if ctxDone then GroupsDone else NextGroup)
          | Inr ps \<Rightarrow> GroupMoves subType channel ps subs ReadOld\<rparr>)
     | GroupConnects subType channel subs _ \<Rightarrow> None
     | GroupMoves subType channel ps [] mv \<Rightarrow> Some (w, run\<lparr>rr_phase := NextGroup\<rparr>)
     | GroupMoves subType channel ps (sub # subs) mv \<Rightarrow>
         (case mv of
            Moved tasks \<Rightarrow> Some (w, run\<lparr>rr_phase := GroupMoves subType channel ps subs ReadOld, rr_tasks := rr_tasks run @ tasks\<rparr>)
          | _ \<Rightarrow> (let (w1, mv1) = move_section ctxDone subType channel ps sub mv w
                  in Some (w1, run\<lparr>rr_phase := GroupMoves subType channel ps (sub # subs) mv1\<rparr>)))
     | GroupsDone \<Rightarrow> None)"

inductive resub_step :: "shared \<times> resub_run \<Rightarrow> shared \<times> resub_run \<Rightarrow> bool" where
  resub_connects: "rr_phase run = GroupConnects subType channel subs c \<Longrightarrow> connect_step (rr_hashslot run) (sh, c) (sh', c') \<Longrightarrow>
     resub_step (sh, run) (sh', run\<lparr>rr_phase := GroupConnects subType channel subs c'\<rparr>)"
| resub_section: "resub_section ctxDone run w = Some (w', run') \<Longrightarrow> resub_step ((mo, w, res), run) ((mo, w', res), run')"

section \<open>All goroutines\<close>

text \<open>
  The system with the calls and migrations split. \<open>in_starts\<close>: the calls up to their first wait for a confirmation;
  \<open>in_resubs\<close>: the migration goroutines; \<open>in_begun\<close>: the handles of the migrations that have been started.
\<close>

record interleaved =
  in_core :: system
  in_results :: pend_store
  in_starts :: "(sub_call \<times> starting) list"
  in_resubs :: "resub_run list"
  in_begun :: "nat list"

definition in_shared :: "interleaved \<Rightarrow> shared" where
  "in_shared s = (sy_mon (in_core s), sy_world (in_core s), in_results s)"

definition set_shared :: "shared \<Rightarrow> interleaved \<Rightarrow> interleaved" where
  "set_shared sh s = (case sh of (mo, w, res) \<Rightarrow>
     s\<lparr>in_core := (in_core s)\<lparr>sy_mon := mo, sy_world := w\<rparr>, in_results := res\<rparr>)"

definition in_init :: "interleaved \<Rightarrow> bool" where
  "in_init s \<longleftrightarrow> system_init (in_core s) \<and> in_results s = (\<lambda>_. newPendingConnectionResult) \<and> in_starts s = [] \<and> in_resubs s = []
     \<and> in_begun s = []"

inductive in_step :: "interleaved \<Rightarrow> interleaved \<Rightarrow> bool" where
  in_core_step: "core_step (in_core s) c \<Longrightarrow> in_step s (s\<lparr>in_core := c\<rparr>)"
| call_begins:
    "subscribe_guards [sk_channel call] (sk_subType call) (sy_world (in_core s)) = None \<Longrightarrow> sk_channel call \<noteq> [] \<Longrightarrow>
     sk_hashslot call = Hashslot rnd (sk_channel call) \<Longrightarrow>
     in_step s (s\<lparr>in_starts := in_starts s @ [(call, Connecting Lookup)]\<rparr>)"
| call_continues:
    "in_starts s = a @ x # b \<Longrightarrow> start_step (in_shared s, x) (sh, y) \<Longrightarrow>
     in_step s (set_shared sh (s\<lparr>in_starts := a @ y # b\<rparr>))"
| call_started:
    "in_starts s = a @ (call, Started pr) # b \<Longrightarrow>
     in_step s (s\<lparr>in_starts := a @ b, in_core := (in_core s)\<lparr>sy_calls := sy_calls (in_core s) @ [pr]\<rparr>\<rparr>)"
| resub_begins:
    "(h, subs, mig) \<in> set (mo_running (sy_mon (in_core s))) \<Longrightarrow> h \<notin> set (in_begun s) \<Longrightarrow>
     w = sy_world (in_core s) \<Longrightarrow>
     run = \<lparr>rr_hashslot = mig_hashslot mig, rr_groups = nested_groups (channelsByType subs w), rr_phase = NextGroup, rr_tasks = []\<rparr> \<Longrightarrow>
     in_step s (s\<lparr>in_core := (in_core s)\<lparr>sy_world := w\<lparr>w_pool := invalidateHashslot (mig_hashslot mig) (w_pool w)\<rparr>\<rparr>,
       in_begun := h # in_begun s, in_resubs := in_resubs s @ [run]\<rparr>)"
| resub_continues:
    "in_resubs s = a @ x # b \<Longrightarrow> resub_step (in_shared s, x) (sh, y) \<Longrightarrow>
     in_step s (set_shared sh (s\<lparr>in_resubs := a @ y # b\<rparr>))"
| resub_spawns:
    "in_resubs s = a @ x # b \<Longrightarrow> rr_tasks x = task # tasks \<Longrightarrow>
     in_step s (s\<lparr>in_resubs := a @ x\<lparr>rr_tasks := tasks\<rparr> # b, in_core := (in_core s)\<lparr>sy_tasks := sy_tasks (in_core s) @ [task]\<rparr>\<rparr>)"

section \<open>What every section keeps\<close>

definition shared_ok :: "sub_ref list \<Rightarrow> shared \<Rightarrow> bool" where
  "shared_ok ds sh \<longleftrightarrow> (case sh of (mo, w, res) \<Rightarrow> world_fine w \<and> drains_ok ds w \<and> mon_ok (w_next w) mo)"

text \<open>What a section guarantees to the other goroutines: what is allocated keeps its channel or its node, and no
  connection is registered except those in \<open>own\<close>.\<close>

definition frame :: "ps_ref set \<Rightarrow> world \<Rightarrow> world \<Rightarrow> bool" where
  "frame own w w' \<longleftrightarrow> w_next w \<le> w_next w' \<and> (\<forall>x < w_next w. sub_channel (w_subs w' x) = sub_channel (w_subs w x))
     \<and> (\<forall>mr < w_next w. m_nodeAddr (w_metas w' mr) = m_nodeAddr (w_metas w mr))
     \<and> (\<forall>n. set (conns (w_pool w') n) \<subseteq> set (conns (w_pool w) n) \<union> own)"

text \<open>The connections that a goroutine has created and not yet registered.\<close>

definition owned_ok :: "world \<Rightarrow> (string \<times> ps_ref) list \<Rightarrow> bool" where
  "owned_ok w xs \<longleftrightarrow> distinct (map snd xs) \<and>
     (\<forall>(node, ps) \<in> set xs. ps < w_next w \<and> m_nodeAddr (w_metas w ps) = node \<and> (\<forall>n. ps \<notin> set (conns (w_pool w) n)))"

lemma steady_frame: "steady w w' \<Longrightarrow> frame own w w'"
  by (auto simp: steady_def frame_def)

lemma frame_refl [simp]: "frame own w w"
  by (simp add: frame_def)

lemma owned_ok_perm: "mset xs = mset ys \<Longrightarrow> owned_ok w xs = owned_ok w ys"
proof -
  assume m: "mset xs = mset ys"
  then have "mset (map snd xs) = mset (map snd ys)" by simp
  then have "distinct (map snd xs) = distinct (map snd ys)" by (rule mset_eq_imp_distinct_iff)
  moreover have "set xs = set ys" by (rule mset_eq_setD [OF m])
  ultimately show ?thesis by (simp add: owned_ok_def)
qed

text \<open>What a goroutine has not registered stays so when another goroutine, which owns other connections, acts.\<close>

lemma owned_append: "owned_ok w (xs @ ys) \<longleftrightarrow> owned_ok w xs \<and> owned_ok w ys \<and> snd ` set xs \<inter> snd ` set ys = {}"
  unfolding owned_ok_def set_append ball_Un map_append distinct_append by auto

lemma owned_okD:
  assumes "owned_ok w xs" and "(node, ps) \<in> set xs"
  shows "ps < w_next w" and "m_nodeAddr (w_metas w ps) = node" and "ps \<notin> set (conns (w_pool w) n)"
  using assms by (force simp: owned_ok_def)+

lemma owned_less: "owned_ok w xs \<Longrightarrow> \<forall>ps \<in> snd ` set xs. ps < w_next w"
  using owned_okD(1) by (metis imageE prod.collapse)

lemma owned_frame:
  assumes "owned_ok w (ys @ xs)" and "frame (snd ` set ys) w w'"
  shows "owned_ok w' xs"
proof -
  have o: "owned_ok w xs" and "snd ` set ys \<inter> snd ` set xs = {}" using assms(1) by (auto simp: owned_append)
  then have d: "ps \<notin> snd ` set ys" if "(node, ps) \<in> set xs" for node ps
    using that by (metis disjoint_iff image_eqI snd_conv)
  have "ps < w_next w' \<and> m_nodeAddr (w_metas w' ps) = node \<and> (\<forall>n. ps \<notin> set (conns (w_pool w') n))"
    if x: "(node, ps) \<in> set xs" for node ps
    using owned_okD [OF o x] assms(2) d [OF x] unfolding frame_def by (metis UnE less_le_trans subsetD)
  then show ?thesis using o by (auto simp: owned_ok_def)
qed

subsection \<open>Sections that add nothing\<close>

lemma ok_tame:
  assumes "shared_ok ds (mo, w, res)" and "tame w w'"
  shows "shared_ok ds (mo, w', res') \<and> frame own w w'"
proof -
  have "w_next w \<le> w_next w'" using assms(2) by (simp add: tame_defs)
  then show ?thesis using assms tame_world_fine [OF assms(2)] tame_drains [OF assms(2)] mon_ok_le steady_frame [OF tame_steady [OF assms(2)]]
    by (auto simp: shared_ok_def world_fine_def)
qed

lemma ok_upd_sub:
  assumes "shared_ok ds (mo, w, res)" and "\<And>s. sub_channel (f s) = sub_channel s" and "\<And>s. sub_sequencer (f s) = sub_sequencer s"
  shows "shared_ok ds (mo, upd_sub x f w, res') \<and> frame own w (upd_sub x f w)"
proof -
  let ?w = "upd_sub x f w"
  have td: "tame_delivery w ?w" by (rule tame_delivery_same) (use assms(3) in \<open>auto simp: upd_sub_def\<close>)
  have "filed w \<Longrightarrow> filed ?w" using assms(2) by (auto simp: filed_def regs_def)
  moreover have "w_topology ?w = w_topology w" by (simp add: upd_sub_def)
  ultimately show ?thesis using assms td
    by (auto simp: shared_ok_def world_fine_def tame_delivery_def conns_ok_def frame_def)
qed

text \<open>A change of a connection's metadata that registers only allocated subscriptions, under their own channel.\<close>

lemma ok_upd_meta:
  assumes "shared_ok ds (mo, w, res)" and "reg_ok (w_metas w mr) \<Longrightarrow> reg_ok (f (w_metas w mr))"
    and "m_nodeAddr (f (w_metas w mr)) = m_nodeAddr (w_metas w mr)"
    and "\<And>ch x. x \<in> set (slice_at (m_subscriptions (f (w_metas w mr))) ch) \<Longrightarrow>
      x \<in> set (slice_at (m_subscriptions (w_metas w mr)) ch) \<or> x < w_next w \<and> sub_channel (w_subs w x) = ch"
  shows "shared_ok ds (mo, upd_meta mr f w, res') \<and> frame own w (upd_meta mr f w)"
proof -
  let ?w = "upd_meta mr f w"
  have td: "tame_delivery w ?w" by (rule tame_delivery_same) (simp_all add: upd_meta_def)
  have "filed ?w" if "filed w"
  proof -
    have "x < w_next w \<and> sub_channel (w_subs w x) = ch" if "x \<in> set (regs ?w mr' ch)" for x mr' ch
      using that \<open>filed w\<close> assms(4) [of x ch] by (cases "mr' = mr") (auto simp: regs_def filed_def)
    then show ?thesis using that by (auto simp: filed_def)
  qed
  moreover have "w_topology ?w = w_topology w" by (simp add: upd_meta_def)
  moreover have "conns_ok w \<Longrightarrow> conns_ok ?w" using assms(3) by (auto simp: conns_ok_def pool_ok_def)
  ultimately show ?thesis using assms(1-3) td
    by (auto simp: shared_ok_def world_fine_def tame_delivery_def frame_def)
qed

lemma ok_addCheckFirst:
  assumes "shared_ok ds (mo, w, res)" and "sub < w_next w" and "sub_channel (w_subs w sub) = ch"
    and "addSubscriptionAndCheckFirst sub ch (w_metas w mr) = (m, r)"
  shows "shared_ok ds (mo, upd_meta mr (\<lambda>_. m) w, res') \<and> frame own w (upd_meta mr (\<lambda>_. m) w)"
proof (rule ok_upd_meta [OF assms(1)])
  have m: "m = fst (addSubscriptionAndCheckFirst sub ch (w_metas w mr))" using assms(4) by simp
  show "reg_ok (w_metas w mr) \<Longrightarrow> reg_ok m" unfolding m by (simp add: reg_ok_def addCheckFirst_wf)
  show "m_nodeAddr m = m_nodeAddr (w_metas w mr)" unfolding m by simp
  show "x \<in> set (slice_at (m_subscriptions m) ch') \<Longrightarrow>
      x \<in> set (slice_at (m_subscriptions (w_metas w mr)) ch') \<or> x < w_next w \<and> sub_channel (w_subs w x) = ch'" for ch' x
    unfolding m using assms(2,3) by (auto simp: addCheckFirst_subs split: if_splits)
qed

lemma reg_ok_addSubscription: "reg_ok m \<Longrightarrow> reg_ok (addSubscription ch x m)"
  by (auto simp: reg_ok_def addSubscription_def Let_def intro: inv_intros)

lemma ok_addSubscription:
  assumes "shared_ok ds (mo, w, res)" and "sub < w_next w"
  shows "shared_ok ds (mo, upd_meta mr (addSubscription (sub_channel (w_subs w sub)) sub) w, res')
    \<and> frame own w (upd_meta mr (addSubscription (sub_channel (w_subs w sub)) sub) w)"
  by (rule ok_upd_meta [OF assms(1)])
     (use assms(2) in \<open>auto simp: addSubscription_subs reg_ok_addSubscription split: if_splits\<close>)

lemma ok_addPending:
  "shared_ok ds (mo, w, res) \<Longrightarrow>
   shared_ok ds (mo, upd_meta mr (addPendingSubscription ch sub) w, res') \<and> frame own w (upd_meta mr (addPendingSubscription ch sub) w)"
  by (erule ok_upd_meta) (auto simp: addPendingSubscription_def reg_ok_def)

subsection \<open>Sections that add something\<close>

lemma ok_create:
  assumes "shared_ok ds (mo, w, res)" and "createPubSubToNode node w = (w', ps)"
  shows "shared_ok ds (mo, w', res') \<and> frame own w w' \<and> ps = w_next w \<and> owned_ok w' [(node, ps)]"
proof -
  have w': "ps = w_next w" "w_next w' = Suc ps" "w_metas w' = (w_metas w)(ps := newMetadata node)" "w_subs w' = w_subs w"
    "pl_pubSubMetadata (w_pool w') = AList.update ps ps (pl_pubSubMetadata (w_pool w))" "pl_nodePubSubs (w_pool w') = pl_nodePubSubs (w_pool w)"
    "pl_hashslotPubSubs (w_pool w') = pl_hashslotPubSubs (w_pool w)"
    "w_subscriptions w' = w_subscriptions w" "w_topology w' = w_topology w"
    using assms(2) by (auto simp: createPubSubToNode_def record_metric_def Let_def)
  have td: "tame_delivery w w'"
    using assms(2) by (intro tame_delivery_same) (auto simp: createPubSubToNode_def record_metric_def Let_def)
  have cn: "conns (w_pool w') n = conns (w_pool w) n" for n by (simp add: conns_def w'(6))
  have md: "map_of (pl_pubSubMetadata (w_pool w')) = (map_of (pl_pubSubMetadata (w_pool w)))(ps \<mapsto> ps)" by (simp add: w'(5) update_conv')
  have fine: "world_fine w" using assms(1) by (simp add: shared_ok_def)
  have cw: "conns_ok w" using fine by (simp add: world_fine_def)
  have nin: "ps \<notin> set (conns (w_pool w) n)" for n using cw w'(1) unfolding conns_ok_def by (metis less_irrefl)
  have ids: "map_of (pl_pubSubMetadata (w_pool w)) q = Some mr \<Longrightarrow> mr = q \<and> q < w_next w" for q mr using cw by (auto simp: conns_ok_def)
  have "m_nodeAddr (w_metas w' mr) = n" if "q \<in> set (conns (w_pool w) n)" "map_of (pl_pubSubMetadata (w_pool w')) q = Some mr" for n q mr
  proof -
    have "q \<noteq> ps" using that(1) nin by blast
    with that(2) have m: "map_of (pl_pubSubMetadata (w_pool w)) q = Some mr" by (simp add: md)
    with that(1) cw have "m_nodeAddr (w_metas w mr) = n" by (auto simp: conns_ok_def pool_ok_def)
    with ids [OF m] \<open>q \<noteq> ps\<close> show ?thesis by (simp add: w'(3))
  qed
  then have "pool_ok (w_metas w') (w_pool w')" using cw by (simp add: conns_ok_def pool_ok_def cn w'(6,7))
  then have "conns_ok w'" using cw by (auto simp: conns_ok_def cn md w'(2) less_SucI w'(1))
  moreover have "filed w'" using fine
    by (auto simp: world_fine_def filed_def regs_def w' less_SucI newMetadata_def)
  moreover have "\<forall>mr. reg_ok (w_metas w' mr)" using fine by (simp add: world_fine_def w'(3) reg_ok_def newMetadata_def)
  ultimately have "world_fine w'" using fine td by (simp add: world_fine_def tame_delivery_def w'(8,9))
  moreover have "frame own w w'" by (auto simp: frame_def w'(1-4) cn)
  moreover have "owned_ok w' [(node, ps)]" using nin by (simp add: owned_ok_def cn w'(2,3) newMetadata_def)
  ultimately show ?thesis using assms(1) td w'(1,2) mon_ok_le fine
    by (auto simp: shared_ok_def tame_delivery_def world_fine_def)
qed

lemma ok_register:
  assumes "shared_ok ds (mo, w, res)" and "owned_ok w [(node, ps)]"
  shows "shared_ok ds (mo, w\<lparr>w_pool := register_on_node hs node ps (w_pool w)\<rparr>, res')
    \<and> frame {ps} w (w\<lparr>w_pool := register_on_node hs node ps (w_pool w)\<rparr>)"
proof -
  let ?p = "register_on_node hs node ps (w_pool w)" and ?w = "w\<lparr>w_pool := register_on_node hs node ps (w_pool w)\<rparr>"
  have td: "tame_delivery w ?w" by (rule tame_delivery_same) simp_all
  have o: "ps < w_next w" "m_nodeAddr (w_metas w ps) = node" "ps \<notin> set (conns (w_pool w) n)" for n
    using assms(2) by (auto simp: owned_ok_def)
  have fine: "world_fine w" using assms(1) by (simp add: shared_ok_def)
  have cw: "conns_ok w" using fine by (simp add: world_fine_def)
  have "wf_gomap (pl_nodePubSubs ?p) \<and> wf_gomap (pl_hashslotPubSubs ?p) \<and> (\<forall>hs. distinct (slice_at (pl_hashslotPubSubs ?p) hs))"
    using cw by (auto simp: register_on_node_def addHashslotPubSub_def conns_ok_def pool_ok_def slice_simps intro: inv_intros)
  moreover have "m_nodeAddr (w_metas w mr) = n" if "q \<in> set (conns ?p n)" "map_of (pl_pubSubMetadata ?p) q = Some mr" for n q mr
    using that cw o(2) by (auto simp: conns_register conns_ok_def pool_ok_def split: if_splits)
  ultimately have "pool_ok (w_metas w) ?p" using cw o(3) by (auto simp: pool_ok_def conns_register conns_ok_def)
  then have "conns_ok ?w" using cw o(1) by (auto simp: conns_ok_def conns_register split: if_splits)
  then have "world_fine ?w" using fine td by (auto simp: world_fine_def tame_delivery_def filed_def regs_def)
  moreover have "frame {ps} w ?w" by (auto simp: frame_def conns_register split: if_splits)
  ultimately show ?thesis using assms(1) td fine by (auto simp: shared_ok_def tame_delivery_def world_fine_def)
qed

lemma ok_register_finished:
  assumes "shared_ok ds (mo, w, res)" and "owned_ok w [(node, ps)]"
  shows "shared_ok ds (mo, w\<lparr>w_pool := create_finished hs node (Inr ps) (w_pool w)\<rparr>, res')
    \<and> frame {ps} w (w\<lparr>w_pool := create_finished hs node (Inr ps) (w_pool w)\<rparr>)"
proof -
  let ?v = "w\<lparr>w_pool := register_on_node hs node ps (w_pool w)\<rparr>"
  have e: "w\<lparr>w_pool := create_finished hs node (Inr ps) (w_pool w)\<rparr> =
      ?v\<lparr>w_pool := (w_pool ?v)\<lparr>pl_pendingConnections := AList.delete node (pl_pendingConnections (w_pool w))\<rparr>\<rparr>"
    by (simp add: create_finished_def register_on_node_def addHashslotPubSub_def)
  have r: "shared_ok ds (mo, ?v, res)" "frame {ps} w ?v" using ok_register [OF assms] by auto
  have "shared_ok ds (mo, ?v\<lparr>w_pool := (w_pool ?v)\<lparr>pl_pendingConnections := x\<rparr>\<rparr>, res') \<and>
      frame {} ?v (?v\<lparr>w_pool := (w_pool ?v)\<lparr>pl_pendingConnections := x\<rparr>\<rparr>)" for x
    by (rule ok_tame [OF r(1) tame_pending])
  moreover have "frame {ps} w u" if "frame {} ?v u" for u using r(2) that by (fastforce simp: frame_def)
  ultimately show ?thesis unfolding e by blast
qed

lemma ok_map:
  assumes "shared_ok ds (mo, w, res)" and "sub = w_next w" and "sub_channel s = ch" and "sub_sequencer s = newSequencer limit"
    and "w' = addSubscriptionToMapLocked ch sub (w\<lparr>w_next := Suc sub, w_subs := (w_subs w)(sub := s)\<rparr>)"
  shows "shared_ok ds (mo, w', res') \<and> frame own w w' \<and> sub < w_next w' \<and> sub_channel (w_subs w' sub) = ch"
proof -
  have w': "w_next w' = Suc sub" "w_subs w' = (w_subs w)(sub := s)" "w_metas w' = w_metas w" "w_pool w' = w_pool w"
    "w_topology w' = w_topology w" "w_workerPool w' = w_workerPool w" "w_goDrains w' = w_goDrains w" "w_blocked w' = w_blocked w"
    "w_panicked w' = w_panicked w"
    by (simp_all add: assms(5) addSubscriptionToMapLocked_def)
  have fine: "world_fine w" and dr: "drains_ok ds w" using assms(1) by (auto simp: shared_ok_def)
  have nin: "sub \<notin> set (regs w mr' c)" "sub \<notin> set (slice_at (w_subscriptions w) c)" for mr' c
    using fine assms(2) unfolding world_fine_def filed_def by (metis less_irrefl)+
  have mp: "map_fine (w_subscriptions w')" using fine nin(2)
    by (auto simp: world_fine_def assms(5) addSubscriptionToMapLocked_def map_fine_def map_ok_add add_to_map_subs)
  have "x = sub \<and> c = ch \<or> x \<in> set (slice_at (w_subscriptions w) c)" if "x \<in> set (slice_at (w_subscriptions w') c)" for x c
    using that by (auto simp: assms(5) addSubscriptionToMapLocked_def add_to_map_subs split: if_splits)
  moreover have "x < sub \<and> sub_channel (w_subs w x) = c" if "x \<in> set (slice_at (w_subscriptions w) c)" for x c
    using that fine assms(2) by (auto simp: world_fine_def filed_def)
  ultimately have "x < w_next w' \<and> sub_channel (w_subs w' x) = c" if "x \<in> set (slice_at (w_subscriptions w') c)" for c x
    using that assms(3) by (fastforce simp: w')
  moreover have "x < w_next w' \<and> sub_channel (w_subs w' x) = c" if "x \<in> set (regs w' mr c)" for mr c x
    using that fine assms(2) nin(1) by (auto simp: world_fine_def filed_def regs_def w' less_SucI)
  ultimately have "filed w'" by (simp add: filed_def)
  moreover have "delivery_ok w'" using fine assms(4) by (auto simp: world_fine_def delivery_ok_def w' seq_ok_newSequencer)
  moreover have "conns_ok w'" using fine assms(2) by (auto simp: world_fine_def conns_ok_def w' less_SucI)
  ultimately have f: "world_fine w'" using fine mp by (simp add: world_fine_def w')
  have "\<not> s_active (sub_sequencer (w_subs w sub))" using drains_okD(3) [OF dr, of sub] assms(2) by auto
  with drains_okD(1) [OF dr, of sub] have "count_list (drain_tasks w) sub + count_list ds sub = 0" by simp
  moreover have "drain_tasks w' = drain_tasks w" by (simp add: drain_tasks_def w')
  moreover have "queued w' r = (if r = sub then [] else queued w r)" for r by (simp add: queued_def w' assms(4) newSequencer_def)
  ultimately have "drains_ok ds w'" unfolding drains_ok_def using drains_okD [OF dr] assms(2,4)
    by (auto simp: newSequencer_def less_SucI w')
  then show ?thesis using f assms(1-3) mon_ok_le by (auto simp: shared_ok_def w' frame_def)
qed

section \<open>Goroutines that respect each other\<close>

text \<open>
  The contract of a kind of goroutine: a step keeps the shared state as it should be, keeps what the goroutine
  itself relies on (\<open>needs\<close>, which the steps of others do not disturb), and registers no connection but those that
  the goroutine has created itself (\<open>owns\<close>). Then a step of one goroutine keeps what all others rely on.
\<close>

lemma fresh_disjoint: "B \<inter> R = {} \<Longrightarrow> \<forall>p \<in> R. p < n \<Longrightarrow> \<forall>p \<in> A. p \<in> B \<or> n \<le> p \<Longrightarrow> A \<inter> R = {}" for n :: nat
  by fastforce

locale goroutines =
  fixes go :: "shared \<times> 'l \<Rightarrow> shared \<times> 'l \<Rightarrow> bool"
    and owns :: "'l \<Rightarrow> (string \<times> ps_ref) list"
    and needs :: "world \<Rightarrow> 'l \<Rightarrow> bool"
  assumes go_ok: "go ((mo, w, res), l) ((mo', w', res'), l') \<Longrightarrow> shared_ok ds (mo, w, res) \<Longrightarrow> needs w l \<Longrightarrow> owned_ok w (owns l) \<Longrightarrow>
      shared_ok ds (mo', w', res') \<and> needs w' l' \<and> owned_ok w' (owns l') \<and> frame (snd ` set (owns l)) w w'
      \<and> (\<forall>ps \<in> snd ` set (owns l'). ps \<in> snd ` set (owns l) \<or> w_next w \<le> ps)"
    and needs_frame: "frame own w w' \<Longrightarrow> needs w l \<Longrightarrow> needs w' l"
begin

lemma go_among:
  assumes "go ((mo, w, res), l) ((mo', w', res'), l')" and "shared_ok ds (mo, w, res)" and "\<forall>x \<in> set (a @ l # b). needs w x"
    and "owned_ok w (concat (map owns (a @ l # b)) @ rest)"
  shows "shared_ok ds (mo', w', res') \<and> (\<forall>x \<in> set (a @ l' # b). needs w' x) \<and> owned_ok w' (concat (map owns (a @ l' # b)) @ rest)
    \<and> (\<exists>own. frame own w w')"
proof -
  let ?R = "concat (map owns a) @ concat (map owns b) @ rest"
  have o: "owned_ok w (owns l @ ?R)"
    using assms(4) by (subst owned_ok_perm [of _ "concat (map owns (a @ l # b)) @ rest"]) simp_all
  then have ol: "owned_ok w (owns l)" by (simp add: owned_append)
  note g = go_ok [OF assms(1,2) _ ol]
  have n: "needs w l" using assms(3) by simp
  have "owned_ok w' ?R" using owned_frame [OF o] g n by blast
  moreover have "snd ` set (owns l') \<inter> snd ` set ?R = {}"
  proof (rule fresh_disjoint)
    note d = iffD1 [OF owned_append o, THEN conjunct2]
    show "snd ` set (owns l) \<inter> snd ` set ?R = {}" by (rule d [THEN conjunct2])
    show "\<forall>ps \<in> snd ` set ?R. ps < w_next w" by (rule owned_less [OF d [THEN conjunct1]])
    show "\<forall>ps \<in> snd ` set (owns l'). ps \<in> snd ` set (owns l) \<or> w_next w \<le> ps" using g [OF n] by blast
  qed
  ultimately have "owned_ok w' (owns l' @ ?R)" using g n by (simp add: owned_append)
  then have "owned_ok w' (concat (map owns (a @ l' # b)) @ rest)"
    by (subst owned_ok_perm [of _ "owns l' @ ?R"]) simp_all
  moreover have "needs w' x" if "x \<in> set (a @ l' # b)" for x
  proof (cases "x = l'")
    case False
    then have "needs w x" using that assms(3) by simp
    then show ?thesis using needs_frame g [OF n] by blast
  qed (use g [OF n] in blast)
  ultimately show ?thesis using g [OF n] by blast
qed

end

text \<open>A connection lookup creates connections; nothing else needs to be relied on.\<close>

fun created :: "connecting \<Rightarrow> (string \<times> ps_ref) list" where
  "created (Register node pending ps) = [(node, ps)]"
| "created _ = []"

lemma owned_nil [simp]: "owned_ok w []"
  by (simp add: owned_ok_def)

lemma tame_reuse: "reuse_on_node metas hs node (w_pool w) = Some (p, best) \<Longrightarrow> tame w (w\<lparr>w_pool := p\<rparr>)"
  by (auto simp: reuse_on_node_def tame_addHashslot split: option.splits if_splits)

lemma tame_select:
  assumes "select_locked metas fresh hs nodes (w_pool w) = (p, d)" 
  shows "tame w (w\<lparr>w_pool := p\<rparr>)" and "tame w (w\<lparr>w_pool := p, w_next := Suc (w_next w)\<rparr>)"
proof -
  have "p = w_pool w \<or> (\<exists>best. p = addHashslotPubSub hs best (w_pool w)) \<or> (\<exists>x. p = (w_pool w)\<lparr>pl_pendingConnections := x\<rparr>)"
    using assms by (auto simp: select_locked_def Let_def split: option.splits bool.splits if_splits)
  then show t: "tame w (w\<lparr>w_pool := p\<rparr>)" using tame_addHashslot tame_pending by auto
  have "tame (w\<lparr>w_pool := p\<rparr>) (w\<lparr>w_pool := p, w_next := Suc (w_next w)\<rparr>)" by (rule tame_fields) simp_all
  with t show "tame w (w\<lparr>w_pool := p, w_next := Suc (w_next w)\<rparr>)" by (rule tame_trans)
qed

lemma tame_await: "await_finished hs r (w_pool w) = (p, result) \<Longrightarrow> tame w (w\<lparr>w_pool := p\<rparr>)"
  by (auto simp: await_finished_def tame_addHashslot split: prod.splits option.splits)

lemma connect_section_ok:
  assumes "connect_section slots rnd pick ctxErr hs c w res = Some (w', res', c')" and "shared_ok ds (mo, w, res)"
    and "owned_ok w (created c)"
  shows "shared_ok ds (mo, w', res') \<and> owned_ok w' (created c') \<and> frame (snd ` set (created c)) w w'
    \<and> (\<forall>ps \<in> snd ` set (created c'). ps \<in> snd ` set (created c) \<or> w_next w \<le> ps)"
proof (cases "c = Lookup \<or> c = ChooseNode \<or> c = FirstNode \<or> c = NodeRefresh \<or> c = NodeAgain")
  case True
  then show ?thesis using assms by (auto simp: shared_ok_def Let_def split: option.splits sum.splits if_splits)
next
  case False
  then show ?thesis
  proof (cases c)
    case (OnNode node)
    then show ?thesis using assms ok_tame [OF assms(2) tame_reuse] by (fastforce simp: shared_ok_def split: option.splits)
  next
    case (AcrossNodes nodes)
    obtain p d where s: "select_locked (w_metas w) (w_next w) hs nodes (w_pool w) = (p, d)" by fastforce
    show ?thesis using assms(1) AcrossNodes s ok_tame [OF assms(2) tame_select(1) [OF s]] ok_tame [OF assms(2) tame_select(2) [OF s]]
      by (auto simp: Let_def split: select_decision.splits)
  next
    case (Create node pending)
    then obtain ps where c: "createPubSubToNode node w = (w', ps)" "c' = Register node pending ps"
      using assms(1) by (auto split: prod.splits)
    have "shared_ok ds (mo, w', res') \<and> frame {} w w' \<and> ps = w_next w \<and> owned_ok w' [(node, ps)]" by (rule ok_create [OF assms(2) c(1)])
    with c(2) Create show ?thesis by auto
  next
    case (Register node pending ps)
    then show ?thesis using assms ok_register [OF assms(2)] ok_register_finished [OF assms(2)] by (auto split: option.splits)
  next
    case (Resolve node pr ps)
    then show ?thesis using assms by (auto simp: shared_ok_def)
  next
    case (AwaitResult pr)
    then show ?thesis using assms by (auto split: option.splits)
  next
    case (Associate r)
    obtain p result where a: "await_finished hs r (w_pool w) = (p, result)" by fastforce
    from ok_tame [OF assms(2) tame_await [OF a]] a show ?thesis using assms(1) Associate by auto
  qed (use False assms(1) in auto)
qed

lemma connect_step_ok:
  assumes "connect_step hs ((mo, w, res), c) ((mo', w', res'), c')" and "shared_ok ds (mo, w, res)" and "owned_ok w (created c)"
  shows "shared_ok ds (mo', w', res') \<and> owned_ok w' (created c') \<and> frame (snd ` set (created c)) w w'
    \<and> (\<forall>ps \<in> snd ` set (created c'). ps \<in> snd ` set (created c) \<or> w_next w \<le> ps)"
  using assms(1)
proof cases
  case connect_section
  with connect_section_ok assms(2,3) show ?thesis by blast
next
  case (connect_refresh env)
  have fine: "world_fine (snd (mo, w))" using assms(2) by (simp add: shared_ok_def)
  from refresh_tame [OF this, of env] connect_refresh have t: "tame w w'" "mon_ok (w_next w) mo \<Longrightarrow> mon_ok (w_next w') mo'"
    by (auto simp: refresh_ok_def)
  from ok_tame [OF assms(2) t(1)] t(2) assms(2) connect_refresh show ?thesis by (auto simp: shared_ok_def)
qed

subsection \<open>Subscription calls\<close>

fun start_owns :: "sub_call \<times> starting \<Rightarrow> (string \<times> ps_ref) list" where
  "start_owns (call, Connecting c) = created c"
| "start_owns _ = []"

fun start_needs :: "world \<Rightarrow> sub_call \<times> starting \<Rightarrow> bool" where
  "start_needs w (call, InMap sub mr) = (sub < w_next w \<and> sub_channel (w_subs w sub) = sk_channel call)"
| "start_needs w _ = True"

lemma start_section_ok:
  assumes "start_section call st w = Some (w', st')" and "shared_ok ds (mo, w, res)" and "start_needs w (call, st)"
  shows "shared_ok ds (mo, w', res) \<and> start_needs w' (call, st') \<and> start_owns (call, st') = [] \<and> frame own w w'"
proof (cases st)
  case (Connecting c)
  then show ?thesis using assms by (cases c) (auto split: sum.splits option.splits)
next
  case (HasMeta pubsub mr)
  from ok_map [OF assms(2) refl _ _ refl] assms(1) HasMeta show ?thesis
    by (auto simp: Let_def newSubscription_def)
next
  case (InMap sub mr)
  obtain m needs ex where a: "addSubscriptionAndCheckFirst sub (sk_channel call) (w_metas w mr) = (m, needs, ex)" by (metis prod_cases3)
  have n: "sub < w_next w" "sub_channel (w_subs w sub) = sk_channel call" using assms(3) InMap by auto
  let ?v = "upd_meta mr (\<lambda>_. m) w"
  note k = ok_addCheckFirst [OF assms(2) n a]
  have t: "tame ?v (?v\<lparr>w_next := Suc (w_next ?v), w_responses := f\<rparr>)" for f by (rule tame_alloc) simp
  from k have v: "shared_ok ds (mo, ?v, res)" by blast
  have "frame own w u" if "frame {} ?v u" for u using that k [of _ own] by (fastforce simp: frame_def)
  with ok_tame [OF v t] k assms(1) show ?thesis
    by (auto simp: InMap a Let_def split: if_splits option.splits)
next
  case (JoinPending sub mr pending)
  from ok_tame [OF assms(2) tame_finish_other] assms JoinPending show ?thesis
    by (auto simp: case_prod_beta split: sum.splits)
next
  case (JoinActive sub)
  from ok_tame [OF assms(2) tame_trans [OF tame_setState tame_success]] assms(1) JoinActive show ?thesis by auto
next
  case (Started pr)
  then show ?thesis using assms(1) by simp
qed

interpretation calls: goroutines start_step start_owns start_needs
proof unfold_locales
  fix mo w res l mo' w' res' l' ds
  assume g: "start_step ((mo, w, res), l) ((mo', w', res'), l')" "shared_ok ds (mo, w, res)" "start_needs w l" "owned_ok w (start_owns l)"
  from g(1) show "shared_ok ds (mo', w', res') \<and> start_needs w' l' \<and> owned_ok w' (start_owns l') \<and> frame (snd ` set (start_owns l)) w w'
      \<and> (\<forall>ps \<in> snd ` set (start_owns l'). ps \<in> snd ` set (start_owns l) \<or> w_next w \<le> ps)"
  proof cases
    case (start_connects call c c')
    with connect_step_ok g(2,4) show ?thesis by auto
  next
    case (start_section call st st')
    with start_section_ok [of call st w w' st' ds mo res "snd ` set (start_owns l)"] g(2,3) show ?thesis by auto
  qed
next
  fix own w w' and l :: "sub_call \<times> starting"
  assume "frame own w w'" "start_needs w l"
  then show "start_needs w' l" by (cases "(w, l)" rule: start_needs.cases) (auto simp: frame_def)
qed

subsection \<open>Migrations\<close>

definition resub_owns :: "resub_run \<Rightarrow> (string \<times> ps_ref) list" where
  "resub_owns run = (case rr_phase run of GroupConnects subType channel subs c \<Rightarrow> created c | _ \<Rightarrow> [])"

definition resub_needs :: "world \<Rightarrow> resub_run \<Rightarrow> bool" where
  "resub_needs w run \<longleftrightarrow> (\<forall>x \<in> set (all_slices (rr_groups run)). x < w_next w) \<and> (case rr_phase run of
       GroupConnects subType channel subs c \<Rightarrow> \<forall>x \<in> set subs. x < w_next w
     | GroupMoves subType channel ps subs mv \<Rightarrow> \<forall>x \<in> set subs. x < w_next w
     | _ \<Rightarrow> True)"

lemma move_section_ok:
  assumes "move_section ctxDone ty ch ps sub mv w = (w', mv')" and "shared_ok ds (mo, w, res)" and "sub < w_next w"
  shows "shared_ok ds (mo, w', res) \<and> frame own w w'"
  using assms(1)
proof (cases mv)
  case (LeaveOld old)
  with assms(1) ok_tame [OF assms(2) tame_removeSubscription] show ?thesis by auto
next
  case MarkClosed
  with assms(1) ok_tame [OF assms(2) tame_setState] show ?thesis by auto
next
  case SetNew
  with assms(1) ok_upd_sub [OF assms(2), of "setPubSub ps"] show ?thesis by (auto simp: setPubSub_def)
next
  case (AddNew mr)
  with assms(1) ok_addSubscription [OF assms(2,3)] show ?thesis by auto
next
  case (ResetNew mr)
  have "inert resetConfirmation" by (simp add: inert_def)
  with ResetNew assms(1) ok_tame [OF assms(2) tame_inert] show ?thesis by auto
next
  case (MarkPending mr)
  with assms(1) ok_tame [OF assms(2) tame_setState] show ?thesis by auto
next
  case (AddPending mr)
  with assms(1) ok_addPending [OF assms(2)] show ?thesis by auto
next
  case MarkActive
  with assms(1) ok_tame [OF assms(2) tame_setState] show ?thesis by auto
qed (use assms(2) in auto)

lemma resub_section_ok:
  assumes "resub_section ctxDone run w = Some (w', run')" and "shared_ok ds (mo, w, res)" and "resub_needs w run"
  shows "shared_ok ds (mo, w', res) \<and> resub_needs w' run' \<and> resub_owns run' = [] \<and> frame own w w'"
proof (cases "rr_phase run")
  case NextGroup
  then show ?thesis using assms
    by (auto simp: resub_section_def resub_needs_def resub_owns_def all_slices_def split: list.splits prod.splits)
next
  case (GroupConnects ty ch subs c)
  then show ?thesis using assms
    by (cases c) (auto simp: resub_section_def resub_needs_def resub_owns_def split: sum.splits)
next
  case (GroupMoves ty ch ps subs mv)
  show ?thesis
  proof (cases subs)
    case Nil
    then show ?thesis using assms GroupMoves by (auto simp: resub_section_def resub_needs_def resub_owns_def)
  next
    case (Cons sub rest)
    obtain w1 mv1 where m: "move_section ctxDone ty ch ps sub mv w = (w1, mv1)" by fastforce
    have n: "sub < w_next w" using assms(3) GroupMoves Cons by (simp add: resub_needs_def)
    note k = move_section_ok [OF m assms(2) n]
    have "w_next w \<le> w_next w1" using k by (simp add: frame_def)
    then have "resub_needs w1 (run\<lparr>rr_phase := GroupMoves ty ch ps (sub # rest) mv1\<rparr>)"
      using assms(3) GroupMoves Cons by (auto simp: resub_needs_def)
    moreover have "resub_needs w (run\<lparr>rr_phase := GroupMoves ty ch ps rest ReadOld, rr_tasks := t\<rparr>)" for t
      using assms(3) GroupMoves Cons by (auto simp: resub_needs_def)
    ultimately show ?thesis using assms(1,2) GroupMoves Cons m k
      by (auto simp: resub_section_def resub_owns_def split: moving.splits)
  qed
next
  case GroupsDone
  then show ?thesis using assms(1) by (simp add: resub_section_def)
qed

lemma resub_needs_frame: "frame own w w' \<Longrightarrow> resub_needs w run \<Longrightarrow> resub_needs w' run"
  by (auto simp: resub_needs_def frame_def dest: less_le_trans split: resubbing.splits)

interpretation migs: goroutines resub_step resub_owns resub_needs
proof unfold_locales
  fix mo w res l mo' w' res' l' ds
  assume g: "resub_step ((mo, w, res), l) ((mo', w', res'), l')" "shared_ok ds (mo, w, res)" "resub_needs w l" "owned_ok w (resub_owns l)"
  from g(1) show "shared_ok ds (mo', w', res') \<and> resub_needs w' l' \<and> owned_ok w' (resub_owns l') \<and> frame (snd ` set (resub_owns l)) w w'
      \<and> (\<forall>ps \<in> snd ` set (resub_owns l'). ps \<in> snd ` set (resub_owns l) \<or> w_next w \<le> ps)"
  proof cases
    case (resub_connects ty ch subs c c')
    have k: "shared_ok ds (mo', w', res') \<and> owned_ok w' (created c') \<and> frame (snd ` set (created c)) w w'
      \<and> (\<forall>ps \<in> snd ` set (created c'). ps \<in> snd ` set (created c) \<or> w_next w \<le> ps)"
      by (rule connect_step_ok [OF resub_connects(3) g(2)]) (use g(4) resub_connects(2) in \<open>simp add: resub_owns_def\<close>)
    then have "resub_needs w' l" using resub_needs_frame g(3) by blast
    with k show ?thesis using resub_connects(1,2) by (auto simp: resub_needs_def resub_owns_def)
  next
    case (resub_section ctxDone)
    with resub_section_ok [of ctxDone l w w' l' ds mo res "snd ` set (resub_owns l)"] g(2,3) show ?thesis by simp
  qed
qed (rule resub_needs_frame)

subsection \<open>The groups of a migration\<close>

lemma in_alist_update: "x \<in> set (AList.update k v m) \<Longrightarrow> x = (k, v) \<or> x \<in> set m"
  by (induction m) (auto split: if_splits)

lemma slice_in: "slice_at m k = [] \<or> (k, slice_at m k) \<in> set m"
  by (cases "map_of m k") (auto simp: slice_at_def dest: map_of_SomeD)

lemma all_slices_append_at: "set (all_slices (append_at k x m)) \<subseteq> insert x (set (all_slices m))"
proof
  fix y assume "y \<in> set (all_slices (append_at k x m))"
  then obtain k' ys where "(k', ys) \<in> set (AList.update k (slice_at m k @ [x]) m)" "y \<in> set ys"
    by (auto simp: append_at_def all_slices_def)
  then show "y \<in> insert x (set (all_slices m))" using in_alist_update [of "(k', ys)" k _ m] slice_in [of m k]
    by (force simp: all_slices_def)
qed

lemma group_members: "set (all_slices (nested_groups (channelsByType subs w))) \<subseteq> set subs"
proof -
  let ?f = "\<lambda>s m. AList.update (sub_subType (w_subs w s)) (append_at (sub_channel (w_subs w s)) s (slice_at m (sub_subType (w_subs w s)))) m"
  have "\<forall>(ty, chs) \<in> set (fold ?f xs m). set (all_slices chs) \<subseteq> S"
    if "\<forall>(ty, chs) \<in> set m. set (all_slices chs) \<subseteq> S" and "set xs \<subseteq> S" for xs m S
    using that
  proof (induction xs arbitrary: m)
    case (Cons s xs)
    have old: "set (all_slices (slice_at m ty)) \<subseteq> S" for ty
      using slice_in [of m ty] Cons.prems(1) by (elim disjE) (simp add: all_slices_def, blast)
    have "set (all_slices chs) \<subseteq> S" if "(ty, chs) \<in> set (?f s m)" for ty chs
    proof (cases "(ty, chs) \<in> set m")
      case True
      then show ?thesis using Cons.prems(1) by blast
    next
      case False
      with in_alist_update [OF that] have chs: "chs = append_at (sub_channel (w_subs w s)) s (slice_at m (sub_subType (w_subs w s)))" by simp
      have "s \<in> S" using Cons.prems(2) by simp
      with all_slices_append_at [of "sub_channel (w_subs w s)" s "slice_at m (sub_subType (w_subs w s))"] old [of "sub_subType (w_subs w s)"]
      show ?thesis unfolding chs by blast
    qed
    then have "\<forall>(ty, chs) \<in> set (?f s m). set (all_slices chs) \<subseteq> S" by blast
    with Cons.IH [of "?f s m"] Cons.prems(2) show ?case by simp
  qed simp
  from this [of "[]" "set subs" subs] have "\<forall>(ty, chs) \<in> set (channelsByType subs w). set (all_slices chs) \<subseteq> set subs"
    by (simp add: channelsByType_def)
  then show ?thesis by (fastforce simp: nested_groups_def all_slices_def)
qed

section \<open>The invariant of all interleavings\<close>

definition in_owned :: "interleaved \<Rightarrow> (string \<times> ps_ref) list" where
  "in_owned s = concat (map start_owns (in_starts s)) @ concat (map resub_owns (in_resubs s))"

definition in_inv :: "interleaved \<Rightarrow> bool" where
  "in_inv s \<longleftrightarrow> system_fine (in_core s) \<and> (\<forall>x \<in> set (in_starts s). start_needs (sy_world (in_core s)) x)
     \<and> (\<forall>x \<in> set (in_resubs s). resub_needs (sy_world (in_core s)) x) \<and> owned_ok (sy_world (in_core s)) (in_owned s)"

lemma in_shared_ok: "shared_ok (sy_drains (in_core s)) (in_shared s) \<longleftrightarrow> system_fine (in_core s)"
  by (simp add: shared_ok_def in_shared_def system_fine_def)

lemma in_inv_init: "in_init s \<Longrightarrow> in_inv s"
  using system_inv_fine [OF system_inv_init] by (simp add: in_init_def in_inv_def in_owned_def)

text \<open>A step that changes the shared state without registering a connection keeps what the goroutines rely on.\<close>

lemma in_inv_frame:
  assumes "in_inv s" and "frame {} (sy_world (in_core s)) (sy_world c)" and "system_fine c"
    and "\<forall>x \<in> set new. resub_needs (sy_world c) x \<and> resub_owns x = []"
  shows "in_inv (s\<lparr>in_core := c, in_begun := hs, in_resubs := in_resubs s @ new\<rparr>)"
proof -
  have "owned_ok (sy_world c) (in_owned s)"
    using owned_frame [of "sy_world (in_core s)" "[]" "in_owned s"] assms(1,2) by (simp add: in_inv_def)
  moreover have "concat (map resub_owns new) = []" using assms(4) by simp
  then have "in_owned (s\<lparr>in_core := c, in_begun := hs, in_resubs := in_resubs s @ new\<rparr>) = in_owned s" by (simp only: in_owned_def) simp
  ultimately show ?thesis using assms calls.needs_frame [OF assms(2)] migs.needs_frame [OF assms(2)]
    by (auto simp: in_inv_def)
qed

lemma in_inv_step: "in_step s t \<Longrightarrow> in_inv s \<Longrightarrow> in_inv t"
proof (induction rule: in_step.induct)
  case (in_core_step s c)
  have k: "kept (in_core s) c" using kept_core [OF in_core_step(1)] in_core_step(2) by (simp add: in_inv_def)
  have "in_inv (s\<lparr>in_core := c, in_begun := in_begun s, in_resubs := in_resubs s @ []\<rparr>)"
    by (rule in_inv_frame [OF in_core_step(2)]) (use k steady_frame in \<open>auto simp: kept_def\<close>)
  then show ?case by simp
next
  case (call_begins call s rnd)
  then show ?case by (auto simp: in_inv_def in_owned_def)
next
  case (call_continues s a x b sh y)
  obtain mo w res where sh: "sh = (mo, w, res)" by (cases sh)
  let ?w = "sy_world (in_core s)"
  have i: "shared_ok (sy_drains (in_core s)) (sy_mon (in_core s), ?w, in_results s)" "\<forall>z \<in> set (a @ x # b). start_needs ?w z"
    "owned_ok ?w (concat (map start_owns (a @ x # b)) @ concat (map resub_owns (in_resubs s)))"
    using call_continues(1,3) by (auto simp: in_inv_def in_owned_def in_shared_ok in_shared_def [symmetric])
  note g = calls.go_among [OF call_continues(2) [unfolded in_shared_def sh] i]
  then show ?case using call_continues(3) migs.needs_frame [of _ ?w w]
    by (auto simp: in_inv_def in_owned_def set_shared_def sh shared_ok_def system_fine_def)
next
  case (call_started s a call pr b)
  then show ?case by (auto simp: in_inv_def in_owned_def system_fine_def)
next
  case (resub_begins h subs mig s w run)
  have "\<forall>x \<in> set subs. x < w_next w"
    using resub_begins(1,3,5) by (auto simp: in_inv_def system_fine_def mon_ok_def mon_refs_def)
  then have "resub_needs w run" using group_members resub_begins(4) by (fastforce simp: resub_needs_def)
  moreover have t: "tame w (w\<lparr>w_pool := invalidateHashslot (mig_hashslot mig) (w_pool w)\<rparr>)" by (rule tame_invalidate)
  then have "kept (in_core s) ((in_core s)\<lparr>sy_world := w\<lparr>w_pool := invalidateHashslot (mig_hashslot mig) (w_pool w)\<rparr>\<rparr>)"
    using resub_begins(3,5) by (intro kept_tame) (auto simp: in_inv_def)
  ultimately show ?case using resub_begins(3,4,5)
    by (intro in_inv_frame) (auto simp: kept_def resub_owns_def steady_frame resub_needs_def)
next
  case (resub_continues s a x b sh y)
  obtain mo w res where sh: "sh = (mo, w, res)" by (cases sh)
  let ?w = "sy_world (in_core s)"
  have m: "mset (concat (map resub_owns (a @ x # b)) @ concat (map start_owns (in_starts s))) = mset (in_owned s)"
    using resub_continues(1) by (simp add: in_owned_def)
  have i: "shared_ok (sy_drains (in_core s)) (sy_mon (in_core s), ?w, in_results s)" "\<forall>z \<in> set (a @ x # b). resub_needs ?w z"
    "owned_ok ?w (concat (map resub_owns (a @ x # b)) @ concat (map start_owns (in_starts s)))"
    using resub_continues(1,3) owned_ok_perm [OF m] by (auto simp: in_inv_def in_shared_ok in_shared_def [symmetric])
  note g = migs.go_among [OF resub_continues(2) [unfolded in_shared_def sh] i]
  have m': "mset (concat (map start_owns (in_starts s)) @ concat (map resub_owns (a @ y # b))) =
      mset (concat (map resub_owns (a @ y # b)) @ concat (map start_owns (in_starts s)))" by simp
  show ?case using resub_continues(3) calls.needs_frame [of _ ?w w] g owned_ok_perm [OF m', of w]
    by (auto simp: in_inv_def in_owned_def set_shared_def sh shared_ok_def system_fine_def)
next
  case (resub_spawns s a x b task tasks)
  then show ?case by (auto simp: in_inv_def in_owned_def system_fine_def resub_needs_def resub_owns_def)
qed

interpretation interleaving: transition_system in_init in_step in_inv
  by unfold_locales (blast intro: in_inv_init in_inv_step)+

section \<open>Uninterrupted calls\<close>

lemma connect_then: "connect_section slots rnd pick ctxErr hs c w res = Some (w', res', c') \<Longrightarrow> (connect_step hs)\<^sup>*\<^sup>* ((mo, w', res'), c') e \<Longrightarrow>
   (connect_step hs)\<^sup>*\<^sup>* ((mo, w, res), c) e"
  by (meson connect_step.connect_section converse_rtranclp_into_rtranclp)

lemma connect_one: "connect_section slots rnd pick ctxErr hs c w res = Some (w', res', c') \<Longrightarrow>
   (connect_step hs)\<^sup>*\<^sup>* ((mo, w, res), c) ((mo, w', res'), c')"
  by (erule connect_then) simp

text \<open>Where a lookup is when the call returns or waits.\<close>

definition outcome :: "connect_result \<Rightarrow> connecting" where
  "outcome r = (case r of Connected ps \<Rightarrow> Returned (Inr (Some ps)) | ConnectError err \<Rightarrow> Returned (Inl err) | AwaitConnection pr \<Rightarrow> AwaitResult pr)"

lemma select_uninterrupted:
  assumes "selectLeastLoadedAcrossNodes hs nodes w = (w', r)"
  shows "\<exists>res'. (connect_step hs)\<^sup>*\<^sup>* ((mo, w, res), AcrossNodes nodes) ((mo, w', res'), outcome r)"
proof -
  obtain p d where s: "select_locked (w_metas w) (w_next w) hs nodes (w_pool w) = (p, d)" by fastforce
  show ?thesis
  proof (cases "\<exists>node. d = CreateAt node")
    case True
    then obtain node where CreateAt: "d = CreateAt node" ..
    let ?v = "w\<lparr>w_pool := p, w_next := Suc (w_next w)\<rparr>" and ?res = "res(w_next w := newPendingConnectionResult)"
    obtain w2 ps where c: "createPubSubToNode node ?v = (w2, ps)" by fastforce
    have w': "w' = w2\<lparr>w_pool := create_finished hs node (Inr ps) (w_pool w2)\<rparr>" "r = Connected ps"
      using assms s CreateAt c by (auto simp: selectLeastLoadedAcrossNodes_def Let_def)
    have "(connect_step hs)\<^sup>*\<^sup>* ((mo, w, res), AcrossNodes nodes) ((mo, w', ?res(w_next w := create_result node (Inr ps) (?res (w_next w)))), outcome r)"
      apply (rule connect_then [of "Inr []" 0 0 None], simp add: s CreateAt)
      apply (rule connect_then [of "Inr []" 0 0 None], simp add: c)
      apply (rule connect_then [of "Inr []" 0 0 None], simp)
      apply (rule connect_then [of "Inr []" 0 0 None], simp)
      by (simp add: w' outcome_def)
    then show ?thesis by blast
  next
    case False
    then have "connect_section (Inr []) 0 0 None hs (AcrossNodes nodes) w res = Some (w', res, outcome r)"
      using assms s by (cases d) (auto simp: selectLeastLoadedAcrossNodes_def outcome_def Let_def)
    from connect_one [OF this] show ?thesis by blast
  qed
qed

lemma node_uninterrupted:
  assumes "(case reuse_on_node (w_metas w) hs node (w_pool w) of
      Some (p, best) \<Rightarrow> (w\<lparr>w_pool := p\<rparr>, Connected best)
    | None \<Rightarrow> (let (w2, ps) = createPubSubToNode node w in (w2\<lparr>w_pool := register_on_node hs node ps (w_pool w2)\<rparr>, Connected ps))) = (w', r)"
  shows "(connect_step hs)\<^sup>*\<^sup>* ((mo, w, res), OnNode node) ((mo, w', res), outcome r)"
proof (cases "reuse_on_node (w_metas w) hs node (w_pool w)")
  case None
  obtain w2 ps where c: "createPubSubToNode node w = (w2, ps)" by fastforce
  have w': "w' = w2\<lparr>w_pool := register_on_node hs node ps (w_pool w2)\<rparr>" "r = Connected ps" using assms None c by auto
  show ?thesis
    apply (rule connect_then [of "Inr []" 0 0 None], simp add: None)
    apply (rule connect_then [of "Inr []" 0 0 None], simp add: c)
    apply (rule connect_then [of "Inr []" 0 0 None], simp)
    by (simp add: w' outcome_def)
next
  case (Some x)
  then have "connect_section (Inr []) 0 0 None hs (OnNode node) w res = Some (w', res, outcome r)"
    using assms by (auto simp: outcome_def split: prod.splits)
  then show ?thesis by (rule connect_one)
qed

text \<open>A lookup whose sections are not interrupted is a call of \<open>getPubSubForHashslot\<close>.\<close>

lemma connect_uninterrupted:
  assumes "getPubSubForHashslot (\<lambda>v. snd (do_refresh env (mo, v))) slots rnd hs w = (w', r)"
  shows "\<exists>mo' res'. (connect_step hs)\<^sup>*\<^sup>* ((mo, w, res), Lookup) ((mo', w', res'), outcome r)"
proof (cases "getPubSub_cached (w_pool w) (w_metas w) hs")
  case (Some ps)
  then have "connect_section slots rnd 0 None hs Lookup w res = Some (w', res, outcome r)"
    using assms by (auto simp: getPubSubForHashslot_def outcome_def)
  from connect_one [OF this] show ?thesis by blast
next
  case None
  let ?refresh = "\<lambda>v. snd (do_refresh env (mo, v))"
  define nodes where "nodes = (if cfg_nodePreference (w_config w) = BalancedAll then tm_getNodesForHashslot hs w else None)"
  have c: "createPubSubForHashslot ?refresh slots rnd hs w = (w', r)" using assms None by (simp add: getPubSubForHashslot_def)
  have start: "(connect_step hs)\<^sup>*\<^sup>* ((mo, w, res), Lookup) e" if "(connect_step hs)\<^sup>*\<^sup>* ((mo, w, res), ChooseNode) e" for e
    by (rule connect_then [of slots rnd 0 None, OF _ that]) (simp add: None)
  show ?thesis
  proof (cases "nodes \<noteq> None \<and> nodes \<noteq> Some []")
    case True
    then have "selectLeastLoadedAcrossNodes hs (the nodes) w = (w', r)"
      using c unfolding createPubSubForHashslot_def Let_def nodes_def [symmetric] by (simp only: if_True simp_thms)
    from select_uninterrupted [OF this] obtain res' where
      "(connect_step hs)\<^sup>*\<^sup>* ((mo, w, res), AcrossNodes (the nodes)) ((mo, w', res'), outcome r)" by blast
    moreover have "connect_section slots rnd 0 None hs ChooseNode w res = Some (w, res, AcrossNodes (the nodes))"
      using True unfolding nodes_def by (simp add: Let_def)
    ultimately have "(connect_step hs)\<^sup>*\<^sup>* ((mo, w, res), ChooseNode) ((mo, w', res'), outcome r)" using connect_then by blast
    from start [OF this] show ?thesis by blast
  next
    case False
    define w1 where "w1 = (if tm_getNodeForHashslot rnd hs w = None then ?refresh w else w)"
    define mo1 where "mo1 = (if tm_getNodeForHashslot rnd hs w = None then fst (do_refresh env (mo, w)) else mo)"
    let ?node = "pool_getNodeForHashslot (Some (tm_getNodeForHashslot rnd hs w, tm_getNodeForHashslot rnd hs w1)) slots hs"
    have c1: "(case ?node of
          Inl err \<Rightarrow> (w1, ConnectError (Wrapf (''failed to get node for hashslot '' @ showInt hs @ '': '') err))
        | Inr node \<Rightarrow> (case reuse_on_node (w_metas w1) hs node (w_pool w1) of
            Some (p, best) \<Rightarrow> (w1\<lparr>w_pool := p\<rparr>, Connected best)
          | None \<Rightarrow> (let (w2, ps) = createPubSubToNode node w1 in (w2\<lparr>w_pool := register_on_node hs node ps (w_pool w2)\<rparr>, Connected ps)))) = (w', r)"
      using c False unfolding createPubSubForHashslot_def Let_def nodes_def [symmetric] w1_def [symmetric] by (simp only: if_False)
    have first: "connect_section slots rnd 0 None hs ChooseNode w res = Some (w, res, FirstNode)"
      using False unfolding nodes_def by (simp add: Let_def)
    have go: "(connect_step hs)\<^sup>*\<^sup>* ((mo, w, res), FirstNode)
        ((mo1, w1, res), case ?node of Inl err \<Rightarrow> Returned (Inl (Wrapf (''failed to get node for hashslot '' @ showInt hs @ '': '') err)) | Inr node \<Rightarrow> OnNode node)"
    proof (cases "tm_getNodeForHashslot rnd hs w")
      case (Some node)
      then have e: "mo1 = mo" "w1 = w" "?node = Inr node" by (simp_all add: w1_def mo1_def pool_getNodeForHashslot_def)
      show ?thesis unfolding e by (rule connect_one [of slots rnd 0 None]) (simp add: Some pool_getNodeForHashslot_def)
    next
      case None
      have "do_refresh env (mo, w) = (mo1, w1)" using None by (simp add: mo1_def w1_def)
      then have "connect_step hs ((mo, w, res), NodeRefresh) ((mo1, w1, res), NodeAgain)" by (rule connect_refresh)
      moreover have "(connect_step hs)\<^sup>*\<^sup>* ((mo1, w1, res), NodeAgain)
          ((mo1, w1, res), case ?node of Inl err \<Rightarrow> Returned (Inl (Wrapf (''failed to get node for hashslot '' @ showInt hs @ '': '') err)) | Inr node \<Rightarrow> OnNode node)"
        by (rule connect_one [of slots rnd 0 None]) (simp add: None)
      ultimately have "(connect_step hs)\<^sup>*\<^sup>* ((mo, w, res), NodeRefresh)
          ((mo1, w1, res), case ?node of Inl err \<Rightarrow> Returned (Inl (Wrapf (''failed to get node for hashslot '' @ showInt hs @ '': '') err)) | Inr node \<Rightarrow> OnNode node)"
        by (rule converse_rtranclp_into_rtranclp)
      then show ?thesis by (rule connect_then [of slots rnd 0 None, rotated]) (simp add: None)
    qed
    have "(connect_step hs)\<^sup>*\<^sup>* ((mo1, w1, res), case ?node of Inl err \<Rightarrow> Returned (Inl (Wrapf (''failed to get node for hashslot '' @ showInt hs @ '': '') err)) | Inr node \<Rightarrow> OnNode node)
        ((mo1, w', res), outcome r)"
    proof (cases ?node)
      case (Inr node)
      then show ?thesis using c1 by (simp add: node_uninterrupted)
    qed (use c1 in \<open>auto simp: outcome_def\<close>)
    with go have "(connect_step hs)\<^sup>*\<^sup>* ((mo, w, res), FirstNode) ((mo1, w', res), outcome r)" by (rule rtranclp_trans)
    from start [OF connect_then [OF first this]] show ?thesis by blast
  qed
qed

lemma start_then: "start_section call st w = Some (w', st') \<Longrightarrow> start_step\<^sup>*\<^sup>* ((mo, w', res), call, st') e \<Longrightarrow>
   start_step\<^sup>*\<^sup>* ((mo, w, res), call, st) e"
  by (meson start_step.start_section converse_rtranclp_into_rtranclp)

lemma start_connecting:
  "(connect_step (sk_hashslot call))\<^sup>*\<^sup>* (sh, c) (sh', c') \<Longrightarrow> start_step\<^sup>*\<^sup>* (sh, call, Connecting c) (sh', call, Connecting c')"
  by (induction rule: rtranclp_induct2) (auto intro: start_connects rtranclp.rtrancl_into_rtrancl)

text \<open>The sections leave the command to be sent; \<open>subscribeToChannel\<close> sends it if it can.\<close>

definition sends :: "nat \<Rightarrow> goerror option \<Rightarrow> world \<times> sub_progress \<Rightarrow> world \<times> sub_progress \<Rightarrow> bool" where
  "sends pick ctxErr x y \<longleftrightarrow> x = y \<or> (\<exists>sub mr cmd m result. snd x = SendBlocks sub mr cmd \<and> sendCommand pick ctxErr cmd (w_metas (fst x) mr) = Some (m, result)
     \<and> after_sendCommand sub mr result (upd_meta mr (\<lambda>_. m) (fst x)) = y)"

lemma register_uninterrupted:
  assumes "register_and_send pick (sk_ctx call) ctxErr (subscribeCommandName (sk_subType call)) mr
      (newSubscription (sk_channel call) (sk_subType call) pubsub (sk_callback call) (sk_hashslot call) (sk_limit call)) w = (w', pr)"
  shows "\<exists>x. start_step\<^sup>*\<^sup>* ((mo, w, res), call, HasMeta pubsub mr) ((mo, fst x, res), call, Started (snd x)) \<and> sends pick ctxErr x (w', pr)"
proof -
  let ?s = "newSubscription (sk_channel call) (sk_subType call) pubsub (sk_callback call) (sk_hashslot call) (sk_limit call)"
  let ?sub = "w_next w"
  let ?w2 = "addSubscriptionToMapLocked (sk_channel call) ?sub (w\<lparr>w_next := Suc ?sub, w_subs := (w_subs w)(?sub := ?s)\<rparr>)"
  have ch: "sub_channel ?s = sk_channel call" by (simp add: newSubscription_def)
  obtain m needs ex where a: "addSubscriptionAndCheckFirst ?sub (sk_channel call) (w_metas ?w2 mr) = (m, needs, ex)" by (metis prod_cases3)
  let ?w3 = "upd_meta mr (\<lambda>_. m) ?w2"
  let ?w4 = "?w3\<lparr>w_next := Suc (w_next ?w3), w_responses := (w_responses ?w3)(w_next ?w3 := [])\<rparr>"
  let ?cmd = "\<lparr>c_ctx = sk_ctx call, c_cmd = subscribeCommandName (sk_subType call), c_args = [sk_channel call], c_sub = Some ?sub, c_response = Some (w_next ?w3)\<rparr>"
  have r: "(if needs
      then (case sendCommand pick ctxErr ?cmd (w_metas ?w4 mr) of
              None \<Rightarrow> (?w4, SendBlocks ?sub mr ?cmd)
            | Some (m', result) \<Rightarrow> after_sendCommand ?sub mr result (upd_meta mr (\<lambda>_. m') ?w4))
      else (case ex of
              Some pending \<Rightarrow>
                (case waitForActive_enter (w_subs ?w3 pending) of
                   Inl result \<Rightarrow> finish_other ?sub mr pending result ?w3
                 | Inr ch \<Rightarrow> (?w3, WaitOther ?sub mr pending ch))
            | None \<Rightarrow> (sub_success ?sub (upd_sub ?sub (setState subStateActive None) ?w3), SubSucceeds ?sub))) = (w', pr)"
    using assms unfolding register_and_send_def Let_def ch a by simp
  have first: "start_step\<^sup>*\<^sup>* ((mo, w, res), call, HasMeta pubsub mr) e" if "start_step\<^sup>*\<^sup>* ((mo, ?w2, res), call, InMap ?sub mr) e" for e
    by (rule start_then [OF _ that]) (simp add: Let_def)
  show ?thesis
  proof (cases needs)
    case True
    have "start_section call (InMap ?sub mr) ?w2 = Some (?w4, Started (SendBlocks ?sub mr ?cmd))" using a True by (simp add: Let_def)
    from first [OF start_then [OF this rtranclp.rtrancl_refl]] have
      "start_step\<^sup>*\<^sup>* ((mo, w, res), call, HasMeta pubsub mr) ((mo, ?w4, res), call, Started (SendBlocks ?sub mr ?cmd))" .
    moreover have "sends pick ctxErr (?w4, SendBlocks ?sub mr ?cmd) (w', pr)"
      using r True unfolding sends_def by (cases "sendCommand pick ctxErr ?cmd (w_metas ?w4 mr)") auto
    ultimately show ?thesis by (intro exI [of _ "(?w4, SendBlocks ?sub mr ?cmd)"]) simp
  next
    case False
    have join: "start_section call (InMap ?sub mr) ?w2 = Some (?w3, case ex of Some pending \<Rightarrow> JoinPending ?sub mr pending | None \<Rightarrow> JoinActive ?sub)"
      using a False by (simp add: Let_def)
    have "start_section call (case ex of Some pending \<Rightarrow> JoinPending ?sub mr pending | None \<Rightarrow> JoinActive ?sub) ?w3 = Some (w', Started pr)"
      using r False by (cases ex) (auto split: sum.splits prod.splits)
    from first [OF start_then [OF join start_then [OF this rtranclp.rtrancl_refl]]] show ?thesis
      by (intro exI [of _ "(w', pr)"]) (simp add: sends_def)
  qed
qed

lemma start_uninterrupted:
  assumes "subscribeToChannel (\<lambda>v. snd (do_refresh env (mo, v))) slots rnd pick (sk_ctx call) ctxErr (sk_channel call) (sk_subType call)
      (subscribeCommandName (sk_subType call)) (sk_callback call) (sk_limit call) w = (w', Inl pr)"
    and "sk_channel call \<noteq> []" and "sk_hashslot call = Hashslot rnd (sk_channel call)"
  shows "\<exists>mo' res' x. start_step\<^sup>*\<^sup>* ((mo, w, res), call, Connecting Lookup) ((mo', fst x, res'), call, Started (snd x)) \<and> sends pick ctxErr x (w', pr)"
proof -
  obtain w1 r where g: "getPubSubForHashslot (\<lambda>v. snd (do_refresh env (mo, v))) slots rnd (sk_hashslot call) w = (w1, r)" by fastforce
  from connect_uninterrupted [OF g, of res] obtain mo' res' where
    "(connect_step (sk_hashslot call))\<^sup>*\<^sup>* ((mo, w, res), Lookup) ((mo', w1, res'), outcome r)" by blast
  note c = start_connecting [OF this]
  have rest: "(case r of
        ConnectError err \<Rightarrow> (w1, Inl (SubFails (Wrapf (''failed to get PubSub for hashslot '' @ showInt (sk_hashslot call) @ '': '') err)))
      | AwaitConnection p \<Rightarrow> (w1, Inr (p, sk_hashslot call))
      | Connected ps \<Rightarrow> (let (w2, q) = after_connection pick (sk_ctx call) ctxErr (sk_channel call) (sk_subType call)
          (subscribeCommandName (sk_subType call)) (sk_callback call) (sk_limit call) (sk_hashslot call) ps w1 in (w2, Inl q))) = (w', Inl pr)"
    using assms(1,2) g unfolding subscribeToChannel_def assms(3) by (cases r) (simp_all add: Let_def)
  have one: ?thesis if "start_section call (Connecting (outcome r)) w1 = Some (w', Started pr)"
  proof -
    from rtranclp_trans [OF c start_then [OF that rtranclp.rtrancl_refl]] show ?thesis
      by (intro exI [of _ mo'] exI [of _ res'] exI [of _ "(w', pr)"]) (simp add: sends_def)
  qed
  show ?thesis
  proof (cases r)
    case (Connected ps)
    show ?thesis
    proof (cases "getMetadata (Some ps) (w_pool w1)")
      case None
      then show ?thesis using rest Connected by (intro one) (auto simp: outcome_def after_connection_def)
    next
      case (Some mr)
      have "register_and_send pick (sk_ctx call) ctxErr (subscribeCommandName (sk_subType call)) mr
          (newSubscription (sk_channel call) (sk_subType call) (Some ps) (sk_callback call) (sk_hashslot call) (sk_limit call)) w1 = (w', pr)"
        using rest Connected Some by (auto simp: after_connection_def split: prod.splits)
      from register_uninterrupted [OF this] obtain x where
        x: "start_step\<^sup>*\<^sup>* ((mo', w1, res'), call, HasMeta (Some ps) mr) ((mo', fst x, res'), call, Started (snd x))" "sends pick ctxErr x (w', pr)" by blast
      have "start_section call (Connecting (outcome r)) w1 = Some (w1, HasMeta (Some ps) mr)" using Connected Some by (simp add: outcome_def)
      from rtranclp_trans [OF c start_then [OF this x(1)]] x(2) show ?thesis by blast
    qed
  next
    case (ConnectError err)
    then show ?thesis using rest by (intro one) (auto simp: outcome_def)
  qed (use rest in simp)
qed

lemma resub_then: "resub_section ctxDone run w = Some (w', run') \<Longrightarrow> resub_step\<^sup>*\<^sup>* ((mo, w', res), run') e \<Longrightarrow>
   resub_step\<^sup>*\<^sup>* ((mo, w, res), run) e"
  by (meson resub_step.resub_section converse_rtranclp_into_rtranclp)

lemma resub_connecting:
  "(connect_step (rr_hashslot run))\<^sup>*\<^sup>* (sh, c) (sh', c') \<Longrightarrow>
   resub_step\<^sup>*\<^sup>* (sh, run\<lparr>rr_phase := GroupConnects ty ch subs c\<rparr>) (sh', run\<lparr>rr_phase := GroupConnects ty ch subs c'\<rparr>)"
proof (induction rule: rtranclp_induct2)
  case (step sh1 c1 sh2 c2)
  from resub_connects [of "run\<lparr>rr_phase := GroupConnects ty ch subs c1\<rparr>" ty ch subs c1 sh1 sh2 c2] step show ?case by simp
qed simp

lemma move_then:
  assumes "move_section ctxDone ty ch ps sub mv w = (w', mv')" and "\<forall>t. mv \<noteq> Moved t"
    and "resub_step\<^sup>*\<^sup>* ((mo, w', res), run\<lparr>rr_phase := GroupMoves ty ch ps (sub # subs) mv'\<rparr>) e"
  shows "resub_step\<^sup>*\<^sup>* ((mo, w, res), run\<lparr>rr_phase := GroupMoves ty ch ps (sub # subs) mv\<rparr>) e"
proof (rule resub_then [OF _ assms(3)])
  show "resub_section ctxDone (run\<lparr>rr_phase := GroupMoves ty ch ps (sub # subs) mv\<rparr>) w = Some (w', run\<lparr>rr_phase := GroupMoves ty ch ps (sub # subs) mv'\<rparr>)"
    using assms(1,2) by (cases mv) (auto simp: resub_section_def)
qed

lemma move_done:
  assumes "resub_step\<^sup>*\<^sup>* ((mo, w, res), run\<lparr>rr_phase := GroupMoves ty ch ps subs ReadOld, rr_tasks := rr_tasks run @ tasks\<rparr>) e"
  shows "resub_step\<^sup>*\<^sup>* ((mo, w, res), run\<lparr>rr_phase := GroupMoves ty ch ps (sub # subs) (Moved tasks)\<rparr>) e"
  by (rule resub_then [OF _ assms]) (simp add: resub_section_def)

lemma leave_uninterrupted:
  assumes "resub_step\<^sup>*\<^sup>* ((mo, leave_old sub w, res), run\<lparr>rr_phase := GroupMoves ty ch ps (sub # subs) SetNew\<rparr>) e"
  shows "resub_step\<^sup>*\<^sup>* ((mo, w, res), run\<lparr>rr_phase := GroupMoves ty ch ps (sub # subs) ReadOld\<rparr>) e"
proof (rule move_then [of False])
  show "resub_step\<^sup>*\<^sup>* ((mo, w, res), run\<lparr>rr_phase := GroupMoves ty ch ps (sub # subs) (FindOld (getPubSub (w_subs w sub)))\<rparr>) e"
  proof (cases "getMetadata (getPubSub (w_subs w sub)) (w_pool w)")
    case None
    then have l: "leave_old sub w = w" by (simp add: leave_old_def)
    show ?thesis by (rule move_then [of False, OF _ _ assms [unfolded l]]) (simp_all add: None)
  next
    case (Some old)
    let ?w1 = "upd_meta old (removeSubscription (sub_channel (w_subs w sub)) sub) w"
    have "resub_step\<^sup>*\<^sup>* ((mo, ?w1, res), run\<lparr>rr_phase := GroupMoves ty ch ps (sub # subs) (LookOld old)\<rparr>) e"
    proof (cases "meta_getState (w_metas ?w1 old) = connStateActive")
      case True
      have "resub_step\<^sup>*\<^sup>* ((mo, ?w1, res), run\<lparr>rr_phase := GroupMoves ty ch ps (sub # subs) MarkClosed\<rparr>) e"
        by (rule move_then [of False, OF _ _ assms]) (use Some True in \<open>auto simp: leave_old_def Let_def\<close>)
      then show ?thesis by (rule move_then [of False, rotated 2]) (use True in auto)
    next
      case False
      show ?thesis by (rule move_then [of False, OF _ _ assms]) (use Some False in \<open>auto simp: leave_old_def Let_def\<close>)
    qed
    then have "resub_step\<^sup>*\<^sup>* ((mo, w, res), run\<lparr>rr_phase := GroupMoves ty ch ps (sub # subs) (LeaveOld old)\<rparr>) e"
      by (rule move_then [of False, rotated 2]) auto
    then show ?thesis by (rule move_then [of False, rotated 2]) (use Some in auto)
  qed
qed auto

text \<open>The move of a subscription whose sections are not interrupted is \<open>resub_one\<close>.\<close>

lemma move_uninterrupted:
  assumes "resub_one ctxDone ty ch ps sub (w, tasks, cnt) = (w', tasks', cnt')"
  shows "\<exists>new. tasks' = tasks @ new \<and> resub_step\<^sup>*\<^sup>* ((mo, w, res), run\<lparr>rr_phase := GroupMoves ty ch (Some ps) (sub # subs) ReadOld\<rparr>)
    ((mo, w', res), run\<lparr>rr_phase := GroupMoves ty ch (Some ps) subs ReadOld, rr_tasks := rr_tasks run @ new\<rparr>)"
proof -
  let ?at = "\<lambda>mv. run\<lparr>rr_phase := GroupMoves ty ch (Some ps) (sub # subs) mv\<rparr>"
  let ?target = "\<lambda>new. ((mo, w', res), run\<lparr>rr_phase := GroupMoves ty ch (Some ps) subs ReadOld, rr_tasks := rr_tasks run @ new\<rparr>)"
  let ?w1 = "upd_sub sub (setPubSub (Some ps)) (leave_old sub w)"
  have start: "resub_step\<^sup>*\<^sup>* ((mo, w, res), ?at ReadOld) e" if "resub_step\<^sup>*\<^sup>* ((mo, ?w1, res), ?at FindNew) e" for e
    by (rule leave_uninterrupted, rule move_then [of False, OF _ _ that]) auto
  have fin: "resub_step\<^sup>*\<^sup>* ((mo, w', res), ?at (Moved new)) (?target new)" for new by (rule move_done) simp
  show ?thesis
  proof (cases "getMetadata (Some ps) (w_pool ?w1)")
    case None
    then have w': "w' = ?w1" "tasks' = tasks" using assms by (auto simp: resub_one_def Let_def)
    have "resub_step\<^sup>*\<^sup>* ((mo, ?w1, res), ?at FindNew) (?target [])"
      by (rule move_then [of False, OF _ _ fin]) (use None w' in auto)
    from start [OF this] show ?thesis using w'(2) by (intro exI [of _ "[]"]) simp
  next
    case (Some mr)
    let ?w2 = "upd_meta mr (addSubscription (sub_channel (w_subs ?w1 sub)) sub) ?w1"
    have go: "resub_step\<^sup>*\<^sup>* ((mo, w, res), ?at ReadOld) e" if "resub_step\<^sup>*\<^sup>* ((mo, ?w2, res), ?at (CountNew mr)) e" for e
      by (rule start, rule move_then [of False], use Some in simp, simp, rule move_then [of False, OF _ _ that]) auto
    have first: "isFirst = (length (getSubscriptions ch (w_metas ?w2 mr)) = 1) \<Longrightarrow> resub_one ctxDone ty ch ps sub (w, tasks, cnt) =
        (if isFirst
         then (if ctxDone then (?w2, tasks, cnt + 1)
               else (let w3 = upd_sub sub (\<lambda>s. setState subStatePending None (resetConfirmation s)) ?w2;
                         w4 = upd_meta mr (addPendingSubscription (sub_channel (w_subs w3 sub)) sub) w3
                     in (w4, tasks @ [(sub, subscribeCommandName ty, ch, mr)], cnt)))
         else (upd_sub sub (setState subStateActive None) ?w2, tasks, cnt + 1))" for isFirst
      using Some by (simp add: resub_one_def Let_def)
    show ?thesis
    proof (cases "length (getSubscriptions ch (w_metas ?w2 mr)) = 1")
      case False
      then have w': "w' = upd_sub sub (setState subStateActive None) ?w2" "tasks' = tasks" using first [of False] assms by auto
      have "resub_step\<^sup>*\<^sup>* ((mo, ?w2, res), ?at MarkActive) (?target [])" by (rule move_then [of ctxDone, OF _ _ fin]) (use w' in auto)
      then have "resub_step\<^sup>*\<^sup>* ((mo, ?w2, res), ?at (CountNew mr)) (?target [])" by (rule move_then [of ctxDone, rotated 2]) (use False in auto)
      from go [OF this] show ?thesis using w'(2) by (intro exI [of _ "[]"]) simp
    next
      case True
      show ?thesis
      proof (cases ctxDone)
        case True': True
        then have w': "w' = ?w2" "tasks' = tasks" using first [of True] True assms by auto
        have "resub_step\<^sup>*\<^sup>* ((mo, ?w2, res), ?at (CountNew mr)) (?target [])" by (rule move_then [of ctxDone, OF _ _ fin]) (use True True' w' in auto)
        from go [OF this] show ?thesis using w'(2) by (intro exI [of _ "[]"]) simp
      next
        case False
        let ?w3a = "upd_sub sub resetConfirmation ?w2"
        let ?w3 = "upd_sub sub (setState subStatePending None) ?w3a"
        have "upd_sub sub (\<lambda>s. setState subStatePending None (resetConfirmation s)) ?w2 = ?w3" by (simp add: upd_sub_def)
        then have w': "w' = upd_meta mr (addPendingSubscription (sub_channel (w_subs ?w3 sub)) sub) ?w3" "tasks' = tasks @ [(sub, subscribeCommandName ty, ch, mr)]"
          using first [of True] True False assms by (auto simp: Let_def)
        let ?new = "[(sub, subscribeCommandName ty, ch, mr)]"
        have "resub_step\<^sup>*\<^sup>* ((mo, ?w3, res), ?at (AddPending mr)) (?target ?new)" by (rule move_then [of False, OF _ _ fin]) (use w' in auto)
        then have "resub_step\<^sup>*\<^sup>* ((mo, ?w3a, res), ?at (MarkPending mr)) (?target ?new)" by (rule move_then [of False, rotated 2]) auto
        then have "resub_step\<^sup>*\<^sup>* ((mo, ?w2, res), ?at (ResetNew mr)) (?target ?new)" by (rule move_then [of False, rotated 2]) auto
        then have "resub_step\<^sup>*\<^sup>* ((mo, ?w2, res), ?at (CountNew mr)) (?target ?new)" by (rule move_then [of False, rotated 2]) (use True in auto)
        from go [OF this] show ?thesis using w'(2) by (intro exI [of _ ?new]) simp
      qed
    qed
  qed
qed

lemma run_swap: "run\<lparr>rr_tasks := t, rr_phase := p\<rparr> = run\<lparr>rr_phase := p, rr_tasks := t\<rparr>"
  by (cases run) simp

lemma subs_uninterrupted:
  "resub_subs ctxDone ty ch ps subs k (w, tasks, cnt) = (w', tasks', cnt') \<Longrightarrow>
   \<exists>new. tasks' = tasks @ new \<and> resub_step\<^sup>*\<^sup>* ((mo, w, res), run\<lparr>rr_phase := GroupMoves ty ch (Some ps) subs ReadOld\<rparr>)
     ((mo, w', res), run\<lparr>rr_phase := NextGroup, rr_tasks := rr_tasks run @ new\<rparr>)"
proof (induction subs arbitrary: k w tasks cnt run)
  case Nil
  have "resub_section False (run\<lparr>rr_phase := GroupMoves ty ch (Some ps) [] ReadOld\<rparr>) w = Some (w, run\<lparr>rr_phase := NextGroup\<rparr>)"
    by (simp add: resub_section_def)
  from resub_then [OF this rtranclp.rtrancl_refl] Nil show ?case by simp
next
  case (Cons sub subs)
  obtain w1 t1 c1 where o: "resub_one (ctxDone k) ty ch ps sub (w, tasks, cnt) = (w1, t1, c1)" by (metis prod_cases3)
  from move_uninterrupted [OF o] obtain n1 where n1: "t1 = tasks @ n1"
    "resub_step\<^sup>*\<^sup>* ((mo, w, res), run\<lparr>rr_phase := GroupMoves ty ch (Some ps) (sub # subs) ReadOld\<rparr>)
      ((mo, w1, res), run\<lparr>rr_phase := GroupMoves ty ch (Some ps) subs ReadOld, rr_tasks := rr_tasks run @ n1\<rparr>)" by blast
  have "resub_subs ctxDone ty ch ps subs (Suc k) (w1, t1, c1) = (w', tasks', cnt')" using Cons.prems o by simp
  from Cons.IH [OF this, of "run\<lparr>rr_tasks := rr_tasks run @ n1\<rparr>"] obtain n2 where n2: "tasks' = t1 @ n2"
    "resub_step\<^sup>*\<^sup>* ((mo, w1, res), run\<lparr>rr_phase := GroupMoves ty ch (Some ps) subs ReadOld, rr_tasks := rr_tasks run @ n1\<rparr>)
      ((mo, w', res), run\<lparr>rr_phase := NextGroup, rr_tasks := rr_tasks run @ n1 @ n2\<rparr>)" by (auto simp: run_swap)
  from rtranclp_trans [OF n1(2) n2(2)] n1(1) n2(1) show ?case by (intro exI [of _ "n1 @ n2"]) simp
qed

text \<open>A migration goroutine whose moves are not interrupted, and whose lookups are completed calls, is \<open>resubscribeOnNewNode\<close>.\<close>

lemma groups_uninterrupted:
  assumes "\<And>i v v' r mo res. conn i v = (v', r) \<Longrightarrow>
      \<exists>mo' res'. (connect_step hs)\<^sup>*\<^sup>* ((mo, v, res), Lookup) ((mo', v', res'), Returned (map_sum id Some r))"
  shows "resub_groups ctxDone conn i groups (w, tasks, cnt) = (w', tasks', cnt') \<Longrightarrow> rr_hashslot run = hs \<Longrightarrow> rr_phase run = NextGroup \<Longrightarrow>
     rr_groups run = groups \<Longrightarrow>
     \<exists>mo' res' run'. resub_step\<^sup>*\<^sup>* ((mo, w, res), run) ((mo', w', res'), run') \<and> rr_phase run' = GroupsDone \<and> tasks @ drop (length (rr_tasks run)) (rr_tasks run') = tasks'
       \<and> take (length (rr_tasks run)) (rr_tasks run') = rr_tasks run"
proof (induction groups arbitrary: i w tasks cnt mo res run)
  case Nil
  have "resub_section False run w = Some (w, run\<lparr>rr_phase := GroupsDone\<rparr>)" using Nil by (simp add: resub_section_def)
  from resub_then [OF this rtranclp.rtrancl_refl] Nil show ?case by fastforce
next
  case (Cons g groups)
  obtain ty ch subs where g: "g = ((ty, ch), subs)" by (metis surj_pair)
  have run: "run\<lparr>rr_groups := groups, rr_phase := p\<rparr> = (run\<lparr>rr_groups := groups\<rparr>)\<lparr>rr_phase := p\<rparr>" for p by simp
  show ?case
  proof (cases "ctxDone i 0")
    case True
    have s: "resub_section True run w = Some (w, run\<lparr>rr_groups := groups, rr_phase := NextGroup\<rparr>)"
      using Cons.prems g by (simp add: resub_section_def)
    have "resub_groups ctxDone conn (Suc i) groups (w, tasks, cnt + length subs) = (w', tasks', cnt')" using Cons.prems True g by simp
    from Cons.IH [OF this, of "run\<lparr>rr_groups := groups, rr_phase := NextGroup\<rparr>" mo res] Cons.prems(2) show ?thesis
      using resub_then [OF s] by fastforce
  next
    case False
    let ?run = "run\<lparr>rr_groups := groups\<rparr>"
    have s: "resub_section False run w = Some (w, ?run\<lparr>rr_phase := GroupConnects ty ch subs Lookup\<rparr>)"
      using Cons.prems g by (simp add: resub_section_def)
    obtain w1 r where c: "conn i w = (w1, r)" by fastforce
    from assms [OF this, of mo res] obtain mo1 res1 where
      "(connect_step (rr_hashslot ?run))\<^sup>*\<^sup>* ((mo, w, res), Lookup) ((mo1, w1, res1), Returned (map_sum id Some r))"
      using Cons.prems(2) by auto
    from resub_then [OF s resub_connecting [OF this]] have go:
      "resub_step\<^sup>*\<^sup>* ((mo, w, res), run) ((mo1, w1, res1), ?run\<lparr>rr_phase := GroupConnects ty ch subs (Returned (map_sum id Some r))\<rparr>)" .
    show ?thesis
    proof (cases r)
      case (Inl err)
      let ?done = "ctxDone i 1"
      have s2: "resub_section ?done (?run\<lparr>rr_phase := GroupConnects ty ch subs (Returned (map_sum id Some r))\<rparr>) w1 =
          Some (w1, ?run\<lparr>rr_phase := if ?done then GroupsDone else NextGroup\<rparr>)" using Inl by (simp add: resub_section_def)
      note st = rtranclp_trans [OF go resub_then [OF s2]]
      show ?thesis
      proof (cases ?done)
        case True
        then have "w' = w1" "tasks' = tasks" using Cons.prems(1) False c Inl g by auto
        with st [OF rtranclp.rtrancl_refl] True show ?thesis by fastforce
      next
        case False'': False
        then have "resub_groups ctxDone conn (Suc i) groups (w1, tasks, cnt + length subs) = (w', tasks', cnt')"
          using Cons.prems(1) False c Inl g by simp
        from Cons.IH [OF this, of "?run\<lparr>rr_phase := NextGroup\<rparr>" mo1 res1] Cons.prems(2) obtain mo' res' run' where
          "resub_step\<^sup>*\<^sup>* ((mo1, w1, res1), ?run\<lparr>rr_phase := NextGroup\<rparr>) ((mo', w', res'), run')" "rr_phase run' = GroupsDone"
          "tasks @ drop (length (rr_tasks run)) (rr_tasks run') = tasks'" "take (length (rr_tasks run)) (rr_tasks run') = rr_tasks run" by auto
        with st False'' show ?thesis by fastforce
      qed
    next
      case (Inr ps)
      obtain w2 t2 c2 where m: "resub_subs (ctxDone i) ty ch ps subs 2 (w1, tasks, cnt) = (w2, t2, c2)" by (metis prod_cases3)
      have s2: "resub_section False (?run\<lparr>rr_phase := GroupConnects ty ch subs (Returned (map_sum id Some r))\<rparr>) w1 =
          Some (w1, ?run\<lparr>rr_phase := GroupMoves ty ch (Some ps) subs ReadOld\<rparr>)" using Inr by (simp add: resub_section_def)
      from subs_uninterrupted [OF m, of mo1 res1 ?run] obtain new where new: "t2 = tasks @ new"
        "resub_step\<^sup>*\<^sup>* ((mo1, w1, res1), ?run\<lparr>rr_phase := GroupMoves ty ch (Some ps) subs ReadOld\<rparr>)
          ((mo1, w2, res1), ?run\<lparr>rr_phase := NextGroup, rr_tasks := rr_tasks run @ new\<rparr>)" by auto
      note st = rtranclp_trans [OF go resub_then [OF s2 new(2)]]
      have "resub_groups ctxDone conn (Suc i) groups (w2, t2, c2) = (w', tasks', cnt')" using Cons.prems(1) False c Inr g m by simp
      from Cons.IH [OF this, of "?run\<lparr>rr_phase := NextGroup, rr_tasks := rr_tasks run @ new\<rparr>" mo1 res1] Cons.prems(2) obtain mo' res' run' where
        r: "resub_step\<^sup>*\<^sup>* ((mo1, w2, res1), ?run\<lparr>rr_phase := NextGroup, rr_tasks := rr_tasks run @ new\<rparr>) ((mo', w', res'), run')" "rr_phase run' = GroupsDone"
        "t2 @ drop (length (rr_tasks run @ new)) (rr_tasks run') = tasks'" "take (length (rr_tasks run @ new)) (rr_tasks run') = rr_tasks run @ new" by auto
      obtain rest where "rr_tasks run' = rr_tasks run @ new @ rest" using r(4) by (metis append.assoc append_take_drop_id)
      with rtranclp_trans [OF st r(1)] r(2,3) new(1) show ?thesis by fastforce
    qed
  qed
qed

lemma in_lift_start:
  assumes "start_step\<^sup>*\<^sup>* (in_shared s, x) (sh, y)" and "in_starts s = a @ x # b"
  shows "in_step\<^sup>*\<^sup>* s (set_shared sh (s\<lparr>in_starts := a @ y # b\<rparr>))"
  using assms(1)
proof (induction rule: rtranclp_induct2)
  case refl
  have "set_shared (in_shared s) (s\<lparr>in_starts := a @ x # b\<rparr>) = s" by (simp add: assms(2) [symmetric] set_shared_def in_shared_def)
  then show ?case by simp
next
  case (step sh1 y1 sh2 y2)
  let ?t = "set_shared sh1 (s\<lparr>in_starts := a @ y1 # b\<rparr>)"
  have t: "in_starts ?t = a @ y1 # b" "in_shared ?t = sh1" "set_shared sh2 (?t\<lparr>in_starts := a @ y2 # b\<rparr>) = set_shared sh2 (s\<lparr>in_starts := a @ y2 # b\<rparr>)"
    by (simp_all add: set_shared_def in_shared_def split: prod.split)
  from call_continues [OF t(1), of sh2 y2] step(2) t(2,3) step(3) show ?case by simp
qed

lemma in_lift_resub:
  assumes "resub_step\<^sup>*\<^sup>* (in_shared s, x) (sh, y)" and "in_resubs s = a @ x # b"
  shows "in_step\<^sup>*\<^sup>* s (set_shared sh (s\<lparr>in_resubs := a @ y # b\<rparr>))"
  using assms(1)
proof (induction rule: rtranclp_induct2)
  case refl
  have "set_shared (in_shared s) (s\<lparr>in_resubs := a @ x # b\<rparr>) = s" by (simp add: assms(2) [symmetric] set_shared_def in_shared_def)
  then show ?case by simp
next
  case (step sh1 y1 sh2 y2)
  let ?t = "set_shared sh1 (s\<lparr>in_resubs := a @ y1 # b\<rparr>)"
  have t: "in_resubs ?t = a @ y1 # b" "in_shared ?t = sh1" "set_shared sh2 (?t\<lparr>in_resubs := a @ y2 # b\<rparr>) = set_shared sh2 (s\<lparr>in_resubs := a @ y2 # b\<rparr>)"
    by (simp_all add: set_shared_def in_shared_def split: prod.split)
  from resub_continues [OF t(1), of sh2 y2] step(2) t(2,3) step(3) show ?case by simp
qed

lemma in_core_steps: "core_step\<^sup>*\<^sup>* (in_core s) c \<Longrightarrow> in_step\<^sup>*\<^sup>* s (s\<lparr>in_core := c\<rparr>)"
proof (induction rule: rtranclp_induct)
  case (step c d)
  from in_core_step [of "s\<lparr>in_core := c\<rparr>" d] step show ?case by simp
qed simp

section \<open>A concrete race\<close>

text \<open>One node \<open>a:1\<close> serves the slot of channel \<open>c\<close>. The topology monitor's first refreshes fail; then one succeeds.\<close>

definition race_slots :: "ClusterSlot list" where
  "race_slots = [\<lparr>slot_Start = Hashslot 0 ''c'', slot_End = Hashslot 0 ''c'', slot_Nodes = [''a:1'']\<rparr>]"

definition refresh_answer :: "goerror + ClusterSlot list \<Rightarrow> refresh_env" where
  "refresh_answer main = \<lparr>re_pick = 0, re_now = 0, re_elapsed = 0, re_main = main, re_seeds = [], re_nodes = Inl (Errorf ''unreachable'')\<rparr>"

definition race_call :: sub_call where
  "race_call = \<lparr>sk_ctx = None, sk_channel = ''c'', sk_subType = subTypeSubscribe, sk_callback = 7, sk_limit = 0, sk_hashslot = Hashslot 0 ''c''\<rparr>"

definition race_world :: world where
  "race_world = (case New 1 False [WithAutoResubscribe True] of Inr (mo, w) \<Rightarrow> w | Inl _ \<Rightarrow> world1)"

definition race_init :: interleaved where
  "race_init = \<lparr>in_core = \<lparr>sy_mon = newTopologyMonitor, sy_world = race_world, sy_calls = [], sy_unsubs = [], sy_tasks = [], sy_confirms = [],
     sy_drains = []\<rparr>, in_results = (\<lambda>_. newPendingConnectionResult), in_starts = [], in_resubs = [], in_begun = []\<rparr>"

lemma race_world_eq: "New 1 False [WithAutoResubscribe True] = Inr (newTopologyMonitor, race_world)"
  by (simp add: race_world_def New_def Let_def Start_def NewWorkerPool_def)

lemma race_init: "in_init race_init"
  unfolding in_init_def system_init_def race_init_def using race_world_eq by auto

lemma race_world_fields:
  "w_next race_world = 1" "w_pool race_world = newPubSubPool" "w_topology race_world = newTopologyState" "\<not> w_closed race_world"
  "w_metas race_world = (\<lambda>_. newMetadata [])" "w_subscriptions race_world = []" "cfg_autoResubscribe (w_config race_world)"
  "cfg_nodePreference (w_config race_world) = BalancedAll"
  by (simp_all add: race_world_def New_def Let_def Start_def NewWorkerPool_def applyOptions_def WithAutoResubscribe_def defaultConfig_def)

lemma refresh_fails:
  "do_refresh (refresh_answer (Inl err)) (mo, w) = (mo, record_metric (TopologyRefreshLatency 0) (record_metric (TopologyRefresh False) w))"
  by (simp add: do_refresh_def refresh_answer_def refreshTopology_def fetch_slots_def)

text \<open>The call asks the cluster client for the node, connects to it and puts its subscription into the global map.\<close>

lemma race_in_map:
  "\<exists>w. start_step\<^sup>*\<^sup>* ((newTopologyMonitor, race_world, res), race_call, Connecting Lookup) ((newTopologyMonitor, w, res), race_call, InMap 2 1)
     \<and> w_next w = 3 \<and> w_subs w 2 = newSubscription ''c'' subTypeSubscribe (Some 1) 7 (Hashslot 0 ''c'') 0 \<and> w_metas w 1 = newMetadata ''a:1''
     \<and> w_subscriptions w = [(''c'', [2])] \<and> w_topology w = newTopologyState \<and> w_config w = w_config race_world
     \<and> w_pool w = \<lparr>pl_nodePubSubs = [(''a:1'', [1])], pl_hashslotPubSubs = [(Hashslot 0 ''c'', [1])], pl_pubSubMetadata = [(1, 1)], pl_pendingConnections = []\<rparr>"
proof -
  let ?hs = "Hashslot 0 ''c''" and ?mo = newTopologyMonitor
  define w1 where "w1 = record_metric (TopologyRefreshLatency 0) (record_metric (TopologyRefresh False) race_world)"
  have f1: "w_next w1 = 1" "w_pool w1 = newPubSubPool" "w_topology w1 = newTopologyState" "w_metas w1 = (\<lambda>_. newMetadata [])"
    "w_subscriptions w1 = []" "w_config w1 = w_config race_world"
    by (simp_all add: w1_def race_world_fields record_metric_def)
  obtain w2 where c: "createPubSubToNode ''a:1'' w1 = (w2, 1)" and f2: "w_next w2 = 2" "w_metas w2 1 = newMetadata ''a:1''"
    "w_pool w2 = newPubSubPool\<lparr>pl_pubSubMetadata := [(1, 1)]\<rparr>" "w_topology w2 = newTopologyState" "w_subscriptions w2 = []" "w_config w2 = w_config race_world"
    by (auto simp: createPubSubToNode_def Let_def f1 record_metric_def newPubSubPool_def)
  let ?w3 = "w2\<lparr>w_pool := register_on_node ?hs ''a:1'' 1 (w_pool w2)\<rparr>"
  have none: "tm_getNodeForHashslot 0 ?hs race_world = None" "tm_getNodeForHashslot 0 ?hs w1 = None"
    by (simp_all add: tm_getNodeForHashslot_def selectNodeForHashslot_def ts_getNodesForHashslot_def race_world_fields f1 newTopologyState_def)
  have g1: "(connect_step ?hs)\<^sup>*\<^sup>* ((?mo, race_world, res), Lookup) ((?mo, race_world, res), NodeRefresh)"
    apply (rule connect_then [of "Inr []" 0 0 None], simp add: getPubSub_cached_def race_world_fields newPubSubPool_def)
    apply (rule connect_then [of "Inr []" 0 0 None], simp add: tm_getNodesForHashslot_def ts_getNodesForHashslot_def race_world_fields newTopologyState_def)
    by (rule connect_one [of "Inr []" 0 0 None]) (simp add: none)
  have g2: "connect_step ?hs ((?mo, race_world, res), NodeRefresh) ((?mo, w1, res), NodeAgain)"
    by (rule connect_refresh [of "refresh_answer (Inl (Errorf ''down''))"]) (simp add: refresh_fails w1_def)
  have g3: "(connect_step ?hs)\<^sup>*\<^sup>* ((?mo, w1, res), NodeAgain) ((?mo, ?w3, res), Returned (Inr (Some 1)))"
    apply (rule connect_then [of "Inr race_slots" 0 0 None], simp add: none pool_getNodeForHashslot_def race_slots_def)
    apply (rule connect_then [of "Inr []" 0 0 None], simp add: reuse_on_node_def f1 newPubSubPool_def)
    apply (rule connect_then [of "Inr []" 0 0 None], simp add: c)
    by (rule connect_one [of "Inr []" 0 0 None]) simp
  have "sk_hashslot race_call = ?hs" by (simp add: race_call_def)
  from start_connecting [of race_call, unfolded this, OF rtranclp_trans [OF g1 converse_rtranclp_into_rtranclp [OF g2 g3]]]
  have "start_step\<^sup>*\<^sup>* ((?mo, race_world, res), race_call, Connecting Lookup) ((?mo, ?w3, res), race_call, Connecting (Returned (Inr (Some 1))))" .
  moreover have "getMetadata (Some 1) (w_pool ?w3) = Some 1"
    by (simp add: getMetadata_def register_on_node_def addHashslotPubSub_def f2 newPubSubPool_def)
  then have "start_section race_call (Connecting (Returned (Inr (Some 1)))) ?w3 = Some (?w3, HasMeta (Some 1) 1)" by simp
  moreover define s where "s = newSubscription ''c'' subTypeSubscribe (Some 1) 7 ?hs 0"
  define w4 where "w4 = addSubscriptionToMapLocked ''c'' 2 (?w3\<lparr>w_next := Suc 2, w_subs := (w_subs ?w3)(2 := s)\<rparr>)"
  have "start_section race_call (HasMeta (Some 1) 1) ?w3 = Some (w4, InMap 2 1)" by (simp add: f2 race_call_def w4_def s_def Let_def)
  ultimately have "start_step\<^sup>*\<^sup>* ((?mo, race_world, res), race_call, Connecting Lookup) ((?mo, w4, res), race_call, InMap 2 1)"
    by (meson rtranclp_trans start_then rtranclp.rtrancl_refl)
  then show ?thesis
    by (intro exI [of _ w4]) (auto simp: w4_def s_def addSubscriptionToMapLocked_def add_to_map_def f2 f2(2) [unfolded One_nat_def] register_on_node_def
        addHashslotPubSub_def newPubSubPool_def append_at_def slice_at_def Let_def)
qed

text \<open>The refresh reports a slot whose node was unknown, which counts as a migration; the subscription is in the global
  map, so it is affected.\<close>

lemma race_refresh:
  assumes "w_subs w 2 = newSubscription ''c'' subTypeSubscribe (Some 1) 7 (Hashslot 0 ''c'') 0" and "w_subscriptions w = [(''c'', [2])]"
    and "w_topology w = newTopologyState" and "cfg_autoResubscribe (w_config w)"
  shows "\<exists>mo' w' mig. do_refresh (refresh_answer (Inr race_slots)) (newTopologyMonitor, w) = (mo', w') \<and> mo_running mo' = [(0, [2], mig)]
    \<and> mig_hashslot mig = Hashslot 0 ''c'' \<and> w_metas w' = w_metas w \<and> w_config w' = w_config w
    \<and> w_pool w' = (w_pool w)\<lparr>pl_hashslotPubSubs := AList.delete (Hashslot 0 ''c'') (pl_hashslotPubSubs (w_pool w))\<rparr>
    \<and> sub_channel (w_subs w' 2) = ''c'' \<and> sub_pubsub (w_subs w' 2) = Some 1 \<and> sub_subType (w_subs w' 2) = subTypeSubscribe
    \<and> s_maxQueueSize (sub_sequencer (w_subs w' 2)) = 0
    \<and> ts_getNodesForHashslot (Hashslot 0 ''c'') (w_topology w') = Some [''a:1'']"
proof -
  let ?hs = "Hashslot 0 ''c''"
  let ?mig = "\<lparr>mig_hashslot = ?hs, mig_oldNode = [], mig_newNode = ''a:1''\<rparr>"
  have t: "new_state race_slots (Inl e) = \<lparr>ts_hashslotToNode = [(?hs, ''a:1'')], ts_hashslotToNodes = [(?hs, [''a:1''])], ts_nodeToHashslots = [(''a:1'', [?hs])]\<rparr>" for e
    by (simp add: new_state_def update_topology_def race_slots_def update_range_def map_slot_def newTopologyState_def append_at_def slice_at_def)
  have c: "compareAndDetectChanges (new_state race_slots (Inl e)) newTopologyState = [?mig]" for e
    by (simp add: compareAndDetectChanges_def t newTopologyState_def)
  have m: "w_topology (record_metric x v) = w_topology v" for x v by (simp add: record_metric_def)
  have a: "findAffectedSubscriptions ?hs v = [2]" if "w_subs v = w_subs w" "w_subscriptions v = w_subscriptions w" for v
    using that assms(1,2) by (simp add: findAffectedSubscriptions_def all_slices_def newSubscription_def getState_def)
  have f: "collectFailedSubscriptions v = []" if "sub_state (w_subs v 2) = subStatePending" "w_subscriptions v = w_subscriptions w" for v
    using that assms(2) by (simp add: collectFailedSubscriptions_def all_slices_def getState_def)
  show ?thesis
    using assms by (simp add: do_refresh_def refresh_answer_def refreshTopology_def fetch_slots_def c handleMigrations_def handleMigration_def a
        launch_def newTopologyMonitor_def sendSignalMessages_def broadcastSignal_def recoverFailedSubscriptions_def f Let_def
        invalidateHashslot_def newSubscription_def invoke_limit newSequencer_def) (simp add: t m ts_getNodesForHashslot_def go_copy_def)
qed

text \<open>The migration finds the connection that the call has created and registers the subscription there.\<close>

lemma race_moves:
  assumes "w_pool w = \<lparr>pl_nodePubSubs = [(''a:1'', [1])], pl_hashslotPubSubs = [], pl_pubSubMetadata = [(1, 1)], pl_pendingConnections = []\<rparr>"
    and "w_metas w 1 = newMetadata ''a:1''" and "cfg_nodePreference (w_config w) = BalancedAll"
    and "ts_getNodesForHashslot (Hashslot 0 ''c'') (w_topology w) = Some [''a:1'']" and "sub_channel (w_subs w 2) = ''c''"
    and "sub_pubsub (w_subs w 2) = Some 1" and "s_maxQueueSize (sub_sequencer (w_subs w 2)) = 0"
    and "run = \<lparr>rr_hashslot = Hashslot 0 ''c'', rr_groups = [((subTypeSubscribe, ''c''), [2])], rr_phase = NextGroup, rr_tasks = []\<rparr>"
  shows "\<exists>w' run'. resub_step\<^sup>*\<^sup>* ((mo, w, res), run) ((mo, w', res), run') \<and> getSubscriptions ''c'' (w_metas w' 1) = [2]
    \<and> m_state (w_metas w' 1) = connStateActive \<and> getMetadata (Some 1) (w_pool w') = Some 1 \<and> sub_state (w_subs w' 2) = subStatePending
    \<and> s_maxQueueSize (sub_sequencer (w_subs w' 2)) = 0"
proof -
  let ?hs = "Hashslot 0 ''c''"
  let ?run = "run\<lparr>rr_groups := []\<rparr>"
  define p where "p = addHashslotPubSub ?hs 1 (w_pool w)"
  define w1 where "w1 = w\<lparr>w_pool := p\<rparr>"
  have sel: "select_locked (w_metas w) (w_next w) ?hs [''a:1''] (w_pool w) = (p, Reuse 1)"
    using assms(1,2) by (simp add: select_locked_def scan_node_def scan0_def slice_at_def findLeastLoadedPubSub_def least_step_def
        meta_getState_def newMetadata_def meta_subscriptionCount_def maxInt64_def p_def)
  have "(connect_step ?hs)\<^sup>*\<^sup>* ((mo, w, res), Lookup) ((mo, w1, res), Returned (Inr (Some 1)))"
    apply (rule connect_then [of "Inr []" 0 0 None], simp add: getPubSub_cached_def assms(1) slice_at_def)
    apply (rule connect_then [of "Inr []" 0 0 None], simp add: tm_getNodesForHashslot_def assms(3,4))
    by (rule connect_one [of "Inr []" 0 0 None]) (simp add: sel w1_def)
  then have c: "resub_step\<^sup>*\<^sup>* ((mo, w, res), ?run\<lparr>rr_phase := GroupConnects subTypeSubscribe ''c'' [2] Lookup\<rparr>)
      ((mo, w1, res), ?run\<lparr>rr_phase := GroupConnects subTypeSubscribe ''c'' [2] (Returned (Inr (Some 1)))\<rparr>)"
    using assms(8) by (intro resub_connecting) simp
  have "resub_section False run w = Some (w, ?run\<lparr>rr_phase := GroupConnects subTypeSubscribe ''c'' [2] Lookup\<rparr>)"
    by (simp add: resub_section_def assms(8))
  note first = resub_then [OF this c]
  have second: "resub_section False (?run\<lparr>rr_phase := GroupConnects subTypeSubscribe ''c'' [2] (Returned (Inr (Some 1)))\<rparr>) w1 =
      Some (w1, ?run\<lparr>rr_phase := GroupMoves subTypeSubscribe ''c'' (Some 1) [2] ReadOld\<rparr>)"
    by (simp add: resub_section_def)
  obtain w2 t n where r: "resub_one False subTypeSubscribe ''c'' 1 2 (w1, [], 0) = (w2, t, n)" by (metis prod_cases3)
  from move_uninterrupted [OF r, where mo = mo and res = res and run = ?run and subs = "[]"] obtain run' where
    "resub_step\<^sup>*\<^sup>* ((mo, w1, res), ?run\<lparr>rr_phase := GroupMoves subTypeSubscribe ''c'' (Some 1) [2] ReadOld\<rparr>) ((mo, w2, res), run')" by blast
  from rtranclp_trans [OF first resub_then [OF second this]] have go: "resub_step\<^sup>*\<^sup>* ((mo, w, res), run) ((mo, w2, res), run')" .
  have md: "getMetadata (Some 1) p = Some 1" by (simp add: getMetadata_def p_def addHashslotPubSub_def assms(1))
  have "getSubscriptions ''c'' (w_metas w2 1) = [2] \<and> m_state (w_metas w2 1) = connStateActive \<and> w_pool w2 = p \<and> sub_state (w_subs w2 2) = subStatePending
      \<and> s_maxQueueSize (sub_sequencer (w_subs w2 2)) = 0"
    using r assms(2,5-7) md
    by (auto simp: resub_one_def leave_old_def w1_def getPubSub_def setPubSub_def Let_def newMetadata_def removeSubscription_def slice_at_def
        addSubscription_def getSubscriptions_def addPendingSubscription_def meta_getState_def upd_meta_def split: if_splits)
  with go md show ?thesis by blast
qed

text \<open>A subscription is dispatched a message at most as often as it is registered, and exactly so often if its queue is
  not limited.\<close>

lemma dispatch_times:
  "delivery_ok w \<Longrightarrow> \<exists>k \<le> count_list subs r. queued (fold (dispatch_one pick now msg) subs w) r = queued w r @ replicate k \<lparr>pc_msg = Some msg, pc_enqueuedAt = now\<rparr>
     \<and> (k \<noteq> 0 \<longrightarrow> sub_live w r) \<and> (sub_live w r \<and> \<not> queue_full w r \<and> r \<in> set subs \<longrightarrow> k \<noteq> 0)
     \<and> (sub_live w r \<and> s_maxQueueSize (sub_sequencer (w_subs w r)) = 0 \<longrightarrow> k = count_list subs r)"
proof (induction subs arbitrary: w)
  case (Cons x subs)
  let ?u = "dispatch_one pick now msg x w"
  note u = dispatch_one_effect [OF Cons.prems, of pick now msg x r]
  have keep: "sub_live ?u r = sub_live w r" "r \<noteq> x \<Longrightarrow> queue_full ?u r = queue_full w r"
    "s_maxQueueSize (sub_sequencer (w_subs ?u r)) = s_maxQueueSize (sub_sequencer (w_subs w r))"
    using u by (simp_all add: sub_live_def getState_def queue_full_def) (simp add: dispatch_one_def Let_def invoke_limit)
  have full: "queue_full w r \<Longrightarrow> s_maxQueueSize (sub_sequencer (w_subs w r)) \<noteq> 0" by (auto simp: queue_full_def full_def)
  have "delivery_ok ?u" using u by blast
  from Cons.IH [OF this, unfolded keep(1,3)] obtain k where
    k: "k \<le> count_list subs r" "queued (fold (dispatch_one pick now msg) subs ?u) r = queued ?u r @ replicate k \<lparr>pc_msg = Some msg, pc_enqueuedAt = now\<rparr>"
    "k \<noteq> 0 \<longrightarrow> sub_live w r" "sub_live w r \<and> \<not> queue_full ?u r \<and> r \<in> set subs \<longrightarrow> k \<noteq> 0"
    "sub_live w r \<and> s_maxQueueSize (sub_sequencer (w_subs w r)) = 0 \<longrightarrow> k = count_list subs r" by blast
  show ?case
  proof (cases "r = x \<and> sub_live w x \<and> \<not> queue_full w x")
    case True
    then show ?thesis using k u by (intro exI [of _ "Suc k"]) auto
  next
    case False
    have q: "queued ?u r = queued w r" using u unfolding if_not_P [OF False] append_Nil2 by blast
    have nx: "\<not> queue_full w r \<Longrightarrow> sub_live w r \<Longrightarrow> r \<noteq> x" using False by blast
    have "k \<le> count_list (x # subs) r" using k(1) by simp
    moreover have "sub_live w r \<and> \<not> queue_full w r \<and> r \<in> set (x # subs) \<longrightarrow> k \<noteq> 0" using k(4) keep(2) nx by (metis set_ConsD)
    moreover have "sub_live w r \<and> s_maxQueueSize (sub_sequencer (w_subs w r)) = 0 \<longrightarrow> k = count_list (x # subs) r"
      using k(5) nx full by (metis count_list.simps(2))
    ultimately show ?thesis using k(2,3) unfolding fold_simps(2) q by blast
  qed
qed simp

text \<open>The call's subscription is in the global map; the refresh starts the migration of its slot, which moves the subscription;
  then the call registers it.\<close>

lemma race_registers:
  "\<exists>s. in_step\<^sup>*\<^sup>* race_init s \<and> getMetadata (Some 1) (w_pool (sy_world (in_core s))) = Some 1
     \<and> m_state (w_metas (sy_world (in_core s)) 1) = connStateActive \<and> getSubscriptions ''c'' (w_metas (sy_world (in_core s)) 1) = [2, 2]
     \<and> sub_state (w_subs (sy_world (in_core s)) 2) = subStatePending \<and> s_maxQueueSize (sub_sequencer (w_subs (sy_world (in_core s)) 2)) = 0"
proof -
  let ?res = "\<lambda>_ :: pend_ref. newPendingConnectionResult" and ?mo = newTopologyMonitor
  from race_in_map [of ?res] obtain w1 where w1: "start_step\<^sup>*\<^sup>* ((?mo, race_world, ?res), race_call, Connecting Lookup) ((?mo, w1, ?res), race_call, InMap 2 1)"
    and f1: "w_subs w1 2 = newSubscription ''c'' subTypeSubscribe (Some 1) 7 (Hashslot 0 ''c'') 0" "w_metas w1 1 = newMetadata ''a:1''"
    "w_subscriptions w1 = [(''c'', [2])]" "w_topology w1 = newTopologyState" "w_config w1 = w_config race_world"
    "w_pool w1 = \<lparr>pl_nodePubSubs = [(''a:1'', [1])], pl_hashslotPubSubs = [(Hashslot 0 ''c'', [1])], pl_pubSubMetadata = [(1, 1)], pl_pendingConnections = []\<rparr>" by blast
  let ?s1 = "race_init\<lparr>in_starts := [(race_call, Connecting Lookup)]\<rparr>"
  have "in_step race_init ?s1"
    using call_begins [of race_call race_init 0]
    by (simp add: race_init_def race_call_def race_world_fields subscribe_guards_def subscribeCommandName_def cmdSubscribe_def)
  then have r1: "in_step\<^sup>*\<^sup>* race_init ?s1" ..
  let ?s2 = "set_shared (?mo, w1, ?res) (race_init\<lparr>in_starts := [(race_call, InMap 2 1)]\<rparr>)"
  have "in_step\<^sup>*\<^sup>* ?s1 ?s2" using in_lift_start [of ?s1 "(race_call, Connecting Lookup)" "(?mo, w1, ?res)" "(race_call, InMap 2 1)" "[]" "[]"] w1
    by (simp add: in_shared_def race_init_def)
  with r1 have r2: "in_step\<^sup>*\<^sup>* race_init ?s2" by (rule rtranclp_trans)
  have "cfg_autoResubscribe (w_config w1)" by (simp add: f1(5) race_world_fields)
  from race_refresh [OF f1(1,3,4) this] obtain mo w2 mig where
    w2: "do_refresh (refresh_answer (Inr race_slots)) (?mo, w1) = (mo, w2)" "mo_running mo = [(0, [2], mig)]" "mig_hashslot mig = Hashslot 0 ''c''"
    and f2: "w_metas w2 = w_metas w1" "w_config w2 = w_config w1"
      "w_pool w2 = (w_pool w1)\<lparr>pl_hashslotPubSubs := AList.delete (Hashslot 0 ''c'') (pl_hashslotPubSubs (w_pool w1))\<rparr>"
      "sub_channel (w_subs w2 2) = ''c''" "sub_pubsub (w_subs w2 2) = Some 1" "sub_subType (w_subs w2 2) = subTypeSubscribe"
      "s_maxQueueSize (sub_sequencer (w_subs w2 2)) = 0" "ts_getNodesForHashslot (Hashslot 0 ''c'') (w_topology w2) = Some [''a:1'']" by blast
  let ?s3 = "?s2\<lparr>in_core := (in_core ?s2)\<lparr>sy_mon := mo, sy_world := w2\<rparr>\<rparr>"
  have "core_step (in_core ?s2) ((in_core ?s2)\<lparr>sy_mon := mo, sy_world := w2\<rparr>)"
    by (rule refreshed) (use w2(1) in \<open>simp add: set_shared_def\<close>)
  from rtranclp.rtrancl_into_rtrancl [OF r2 in_core_step [OF this]] have r3: "in_step\<^sup>*\<^sup>* race_init ?s3" .
  let ?w3 = "w2\<lparr>w_pool := invalidateHashslot (Hashslot 0 ''c'') (w_pool w2)\<rparr>"
  let ?run = "\<lparr>rr_hashslot = Hashslot 0 ''c'', rr_groups = [((subTypeSubscribe, ''c''), [2])], rr_phase = NextGroup, rr_tasks = []\<rparr>"
  have g: "nested_groups (channelsByType [2] w2) = [((subTypeSubscribe, ''c''), [2])]"
    by (simp add: nested_groups_def channelsByType_def f2 append_at_def slice_at_def)
  let ?s4 = "?s3\<lparr>in_core := (in_core ?s3)\<lparr>sy_world := ?w3\<rparr>, in_begun := [0], in_resubs := [?run]\<rparr>"
  have "in_step ?s3 ?s4"
    using resub_begins [of 0 "[2]" mig ?s3 w2 ?run] w2(2,3) g by (simp add: set_shared_def race_init_def)
  with r3 have r4: "in_step\<^sup>*\<^sup>* race_init ?s4" by (rule rtranclp.rtrancl_into_rtrancl)
  have "w_pool ?w3 = \<lparr>pl_nodePubSubs = [(''a:1'', [1])], pl_hashslotPubSubs = [], pl_pubSubMetadata = [(1, 1)], pl_pendingConnections = []\<rparr>"
    by (simp add: f2 f1(6) invalidateHashslot_def)
  from race_moves [OF this _ _ _ _ _ _ refl, of mo ?res] obtain w4 run' where
    w4: "resub_step\<^sup>*\<^sup>* ((mo, ?w3, ?res), ?run) ((mo, w4, ?res), run')" "getSubscriptions ''c'' (w_metas w4 1) = [2]"
    "m_state (w_metas w4 1) = connStateActive" "getMetadata (Some 1) (w_pool w4) = Some 1" "sub_state (w_subs w4 2) = subStatePending"
    "s_maxQueueSize (sub_sequencer (w_subs w4 2)) = 0"
    using f1(2,5) f2 by (auto simp: race_world_fields)
  let ?s5 = "set_shared (mo, w4, ?res) (?s4\<lparr>in_resubs := [run']\<rparr>)"
  have "in_step\<^sup>*\<^sup>* ?s4 ?s5"
    using in_lift_resub [of ?s4 ?run "(mo, w4, ?res)" run' "[]" "[]"] w4(1) by (simp add: in_shared_def set_shared_def race_init_def)
  with r4 have r5: "in_step\<^sup>*\<^sup>* race_init ?s5" by (rule rtranclp_trans)
  obtain m first pending where a: "addSubscriptionAndCheckFirst 2 ''c'' (w_metas w4 1) = (m, first, pending)" by (metis prod_cases3)
  obtain w5 st where s: "start_section race_call (InMap 2 1) w4 = Some (w5, st)" "w_metas w5 = (w_metas w4)(1 := m)" "w_pool w5 = w_pool w4" "w_subs w5 = w_subs w4"
    by (cases first) (use a in \<open>auto simp: race_call_def Let_def upd_meta_def\<close>)
  let ?s6 = "set_shared (mo, w5, ?res) (?s5\<lparr>in_starts := [(race_call, st)]\<rparr>)"
  have "in_step ?s5 ?s6"
    using call_continues [of ?s5 "[]" "(race_call, InMap 2 1)" "[]" "(mo, w5, ?res)" "(race_call, st)"] start_section [OF s(1)]
    by (simp add: in_shared_def set_shared_def race_init_def)
  with r5 have r6: "in_step\<^sup>*\<^sup>* race_init ?s6" by (rule rtranclp.rtrancl_into_rtrancl)
  have m: "m = fst (addSubscriptionAndCheckFirst 2 ''c'' (w_metas w4 1))" using a by simp
  have "getSubscriptions ''c'' (w_metas w5 1) = [2, 2]" "m_state (w_metas w5 1) = connStateActive"
    using w4(2,3) by (simp_all add: s(2) m getSubscriptions_def addCheckFirst_subs)
  moreover have "sy_world (in_core ?s6) = w5" by (simp add: set_shared_def)
  ultimately show ?thesis using r6 w4(4-6) s(3,4) by (intro exI [of _ ?s6]) (simp del: One_nat_def)
qed

lemma race_connects:
  "\<exists>w1. getPubSubForHashslot (\<lambda>v. snd (do_refresh (refresh_answer (Inl err)) (mo, v))) (Inr race_slots) 0 (Hashslot 0 ''c'') race_world = (w1, Connected 1)
     \<and> w_next w1 = 2 \<and> w_metas w1 1 = newMetadata ''a:1'' \<and> getMetadata (Some 1) (w_pool w1) = Some 1"
  by (auto simp: refresh_fails getPubSubForHashslot_def getPubSub_cached_def createPubSubForHashslot_def race_world_fields newPubSubPool_def
      tm_getNodesForHashslot_def tm_getNodeForHashslot_def newTopologyState_def ts_getNodesForHashslot_def selectNodeForHashslot_def
      pool_getNodeForHashslot_def race_slots_def reuse_on_node_def createPubSubToNode_def record_metric_def register_on_node_def
      addHashslotPubSub_def getMetadata_def Let_def)

section \<open>Properties\<close>



text \<open>C2. What holds of the registrations however the critical sections interleave: each subscription registered on a
  connection or in the global map is allocated and filed under its own channel, and the global map has it once;
  the maps of the pool and the topology are well-formed; and a connection that a goroutine has created and
  not yet registered belongs to the node it was created for, is in no list of the pool and is held by no other
  goroutine, so no two goroutines register the same connection.\<close>

theorem interleaved_registrations:
  assumes "in_init s0" and "in_step\<^sup>*\<^sup>* s0 s" and "w = sy_world (in_core s)"
  shows "(\<forall>mr ch. \<forall>x \<in> set (getSubscriptions ch (w_metas w mr)). x < w_next w \<and> sub_channel (w_subs w x) = ch)
    \<and> (\<forall>ch. distinct (slice_at (w_subscriptions w) ch) \<and> (\<forall>x \<in> set (slice_at (w_subscriptions w) ch). x < w_next w \<and> sub_channel (w_subs w x) = ch))
    \<and> pool_ok (w_metas w) (w_pool w) \<and> topo_inv (w_topology w) \<and> distinct (map snd (in_owned s))
    \<and> (\<forall>(node, ps) \<in> set (in_owned s). m_nodeAddr (w_metas w ps) = node \<and> (\<forall>n. ps \<notin> set (conns (w_pool w) n)))"
proof -
  have inv: "in_inv s" by (rule interleaving.inv_reachable [OF assms(1,2)])
  then have f: "filed w" "map_fine (w_subscriptions w)" "pool_ok (w_metas w) (w_pool w)" "topo_inv (w_topology w)" and o: "owned_ok w (in_owned s)"
    using assms(3) by (simp_all add: in_inv_def system_fine_def world_fine_def conns_ok_def)
  have "\<forall>mr ch. \<forall>x \<in> set (getSubscriptions ch (w_metas w mr)). x < w_next w \<and> sub_channel (w_subs w x) = ch"
    using f(1) by (simp add: filed_def regs_def getSubscriptions_def)
  moreover have "\<forall>ch. distinct (slice_at (w_subscriptions w) ch) \<and> (\<forall>x \<in> set (slice_at (w_subscriptions w) ch). x < w_next w \<and> sub_channel (w_subs w x) = ch)"
    using f(1,2) by (simp add: filed_def map_fine_def)
  ultimately show ?thesis using f(3,4) o by (auto simp: owned_ok_def)
qed

theorem interleaved_registrations_witness:
  "\<exists>s. in_step\<^sup>*\<^sup>* race_init s \<and> getSubscriptions ''c'' (w_metas (sy_world (in_core s)) 1) = [2, 2]
     \<and> sub_channel (w_subs (sy_world (in_core s)) 2) = ''c'' \<and> pool_ok (w_metas (sy_world (in_core s))) (w_pool (sy_world (in_core s)))"
proof -
  obtain s where s: "in_step\<^sup>*\<^sup>* race_init s" "getSubscriptions ''c'' (w_metas (sy_world (in_core s)) 1) = [2, 2]" using race_registers by blast
  have "\<forall>x \<in> set (getSubscriptions ''c'' (w_metas (sy_world (in_core s)) 1)). sub_channel (w_subs (sy_world (in_core s)) x) = ''c''"
    "pool_ok (w_metas (sy_world (in_core s))) (w_pool (sy_world (in_core s)))"
    using interleaved_registrations [OF race_init s(1) refl] by blast+
  with s show ?thesis by auto
qed





text \<open>C7. A call that a migration interrupts is registered twice. Between \<open>addSubscriptionToMapLocked\<close> and
  \<open>addSubscriptionAndCheckFirst\<close> the subscription is in the global map and not yet on its connection. A refresh
  that learns the owner of the slot in between counts as a migration, finds the subscription in the map and
  moves it to the new owner's connection, which may be the one the call has; then the call registers it there
  once more, because \<open>addSubscriptionAndCheckFirst\<close> does not look for it. There is a run from a new SubMux to
  such a state, in which the connection queues every message of the channel twice for the subscription.\<close>

theorem interrupted_call_registered_twice:
  "\<exists>s0 s. in_init s0 \<and> in_step\<^sup>*\<^sup>* s0 s \<and> getMetadata (Some 1) (w_pool (sy_world (in_core s))) = Some 1
     \<and> meta_getState (w_metas (sy_world (in_core s)) 1) = connStateActive
     \<and> getSubscriptions ''c'' (w_metas (sy_world (in_core s)) 1) = [2, 2]
     \<and> (\<forall>rd pick now payload. \<exists>w' m. loop_iteration rd pick now 1 (MsgReady (RMessage [] ''c'' payload)) (sy_world (in_core s)) = Some (w', False)
          \<and> msg_Payload m = payload
          \<and> queued w' 2 = queued (sy_world (in_core s)) 2 @ [\<lparr>pc_msg = Some m, pc_enqueuedAt = now\<rparr>, \<lparr>pc_msg = Some m, pc_enqueuedAt = now\<rparr>])"
proof -
  from race_registers obtain s where r: "in_step\<^sup>*\<^sup>* race_init s" and f: "getMetadata (Some 1) (w_pool (sy_world (in_core s))) = Some 1"
    "m_state (w_metas (sy_world (in_core s)) 1) = connStateActive" "getSubscriptions ''c'' (w_metas (sy_world (in_core s)) 1) = [2, 2]"
    "sub_state (w_subs (sy_world (in_core s)) 2) = subStatePending" "s_maxQueueSize (sub_sequencer (w_subs (sy_world (in_core s)) 2)) = 0" by blast
  let ?w = "sy_world (in_core s)"
  have "delivery_ok ?w" using interleaving.inv_reachable [OF race_init r] by (simp add: in_inv_def system_fine_def world_fine_def)
  then have v: "delivery_ok (record_metric mt ?w)" "sub_live (record_metric mt ?w) 2" for mt by (simp_all add: f(4) sub_live_def getState_def)
  have t: "queued (fold (dispatch_one pick now msg) [2, 2] (record_metric mt ?w)) 2 = queued ?w 2 @ replicate 2 \<lparr>pc_msg = Some msg, pc_enqueuedAt = now\<rparr>" for mt pick now msg
    using dispatch_times [OF v(1), of "[2, 2]" 2 pick now msg mt] v(2) [of mt] f(5) by (auto simp: numeral_2_eq_2)
  have d: "queued (dispatchMessage pick now 1 ''c'' msg ?w) 2 = queued ?w 2 @ [\<lparr>pc_msg = Some msg, pc_enqueuedAt = now\<rparr>, \<lparr>pc_msg = Some msg, pc_enqueuedAt = now\<rparr>]" for pick now msg
    using t by (simp add: dispatchMessage_def f(3) numeral_2_eq_2 del: One_nat_def)
  have "\<exists>w' m. loop_iteration rd pick now 1 (MsgReady (RMessage [] ''c'' payload)) ?w = Some (w', False) \<and> msg_Payload m = payload
      \<and> queued w' 2 = queued ?w 2 @ [\<lparr>pc_msg = Some m, pc_enqueuedAt = now\<rparr>, \<lparr>pc_msg = Some m, pc_enqueuedAt = now\<rparr>]" for rd pick now payload
  proof -
    let ?m = "if sub_subType (w_subs ?w 2) = subTypeSSubscribe then redisMessage MessageTypeSMessage subTypeSSubscribe [] ''c'' payload now
      else redisMessage MessageTypeMessage subTypeSubscribe [] ''c'' payload now"
    have "loop_iteration rd pick now 1 (MsgReady (RMessage [] ''c'' payload)) ?w = Some (dispatchMessage pick now 1 ''c'' ?m ?w, False)"
      by (simp add: loop_iteration_def processResponse_def handleMessageFromPubSub_def handleSMessageFromPubSub_def f(3) del: One_nat_def)
    moreover have "msg_Payload ?m = payload" by (simp add: redisMessage_def)
    ultimately show ?thesis using d by blast
  qed
  then show ?thesis using race_init r f(1-3) unfolding meta_getState_def by blast
qed

end
