(* ===== verification/Port_Allocator.thy ===== *)
theory Port_Allocator
  imports Prelude Go_Types
begin

text \<open>
  \<open>integration/cluster_setup.go\<close>, the allocator of port pairs for test clusters: \<open>findAvailablePort\<close> and
  \<open>releasePort\<close>. A node uses a port and, for the cluster bus, the port 10000 above it. Whether the operating
  system lets a port be listened on is an argument. The interleavings of allocations and releases by
  parallel tests are a transition system.
\<close>

section \<open>The source's functions\<close>

definition minPort :: nat where "minPort = 10000"
definition maxPort :: nat where "maxPort = 55535"
definition portRange :: nat where "portRange = maxPort - minPort + 1"

text \<open>The map of allocated ports; the code only stores \<open>true\<close>. The loop from index \<open>i\<close> on.\<close>

function find_from :: "(nat \<Rightarrow> bool) \<Rightarrow> nat \<Rightarrow> nat set \<Rightarrow> nat \<Rightarrow> nat option" where
  "find_from listens startOffset allocatedPorts i =
     (if i \<ge> portRange then None
      else (let port = minPort + (startOffset + i) mod portRange; clusterBusPort = port + 10000
            in if port \<in> allocatedPorts \<or> clusterBusPort \<in> allocatedPorts then find_from listens startOffset allocatedPorts (i + 1)
               else if \<not> listens port then find_from listens startOffset allocatedPorts (i + 1)
               else if \<not> listens clusterBusPort then find_from listens startOffset allocatedPorts (i + 1)
               else Some port))"
  by pat_completeness auto
termination
  by (relation "measure (\<lambda>(_, _, _, i). portRange - i)") auto

declare find_from.simps [simp del]

text \<open>\<open>seed\<close> is the port that the system hands out for port 0, or the error.\<close>

definition findAvailablePort :: "goerror + nat \<Rightarrow> (nat \<Rightarrow> bool) \<Rightarrow> nat set \<Rightarrow> goerror + (nat set \<times> nat)" where
  "findAvailablePort seed listens allocatedPorts =
     (case seed of
        Inl err \<Rightarrow> Inl (Wrapf ''failed to get random seed port: '' err)
      | Inr p \<Rightarrow>
          (case find_from listens (p mod portRange) allocatedPorts 0 of
             None \<Rightarrow> Inl (Errorf (''failed to find available port pair in range '' @ showNat minPort @ ''-'' @ showNat maxPort))
           | Some port \<Rightarrow> Inr (insert (port + 10000) (insert port allocatedPorts), port)))"

definition releasePort :: "nat \<Rightarrow> nat set \<Rightarrow> nat set" where
  "releasePort port allocatedPorts = allocatedPorts - {port} - {port + 10000}"

section \<open>Parallel tests\<close>

text \<open>The allocator's map and the ports that tests hold.\<close>

record port_sys =
  pa_allocated :: "nat set"
  pa_held :: "nat list"

inductive port_step :: "port_sys \<Rightarrow> port_sys \<Rightarrow> bool" where
  find: "findAvailablePort seed listens (pa_allocated s) = Inr (a, port) \<Longrightarrow>
     port_step s \<lparr>pa_allocated = a, pa_held = port # pa_held s\<rparr>"
| release: "pa_held s = xs @ port # ys \<Longrightarrow>
     port_step s \<lparr>pa_allocated = releasePort port (pa_allocated s), pa_held = xs @ ys\<rparr>"

section \<open>Lemmas\<close>

text \<open>The two ports of a node, and the invariant: the map has exactly the ports of the holders, which are
  pairwise disjoint.\<close>

definition pair_of :: "nat \<Rightarrow> nat set" where
  "pair_of p = {p, p + 10000}"

definition disjoint_pairs :: "nat list \<Rightarrow> bool" where
  "disjoint_pairs ps \<longleftrightarrow> sorted_wrt (\<lambda>p q. pair_of p \<inter> pair_of q = {}) ps"

definition port_inv :: "port_sys \<Rightarrow> bool" where
  "port_inv s \<longleftrightarrow> pa_allocated s = (\<Union>p \<in> set (pa_held s). pair_of p) \<and> disjoint_pairs (pa_held s)
     \<and> (\<forall>p \<in> set (pa_held s). minPort \<le> p \<and> p \<le> maxPort)"

lemma find_from_sound:
  "find_from listens off a i = Some port \<Longrightarrow>
   pair_of port \<inter> a = {} \<and> listens port \<and> listens (port + 10000) \<and> minPort \<le> port \<and> port \<le> maxPort"
proof (induction listens off a i rule: find_from.induct)
  case (1 listens off a i)
  have r: "(off + i) mod portRange < portRange" by (simp add: portRange_def)
  then have b: "minPort + (off + i) mod portRange \<le> maxPort" by (simp add: portRange_def minPort_def maxPort_def)
  from 1 b show ?case
    by (subst (asm) (4) find_from.simps) (auto simp: Let_def pair_of_def split: if_splits)
qed

lemma findAvailablePort_sound:
  assumes "findAvailablePort seed listens a = Inr (a', port)"
  shows "pair_of port \<inter> a = {}" and "a' = a \<union> pair_of port" and "minPort \<le> port" and "port \<le> maxPort"
proof -
  obtain p where "find_from listens (p mod portRange) a 0 = Some port" "a' = insert (port + 10000) (insert port a)"
    using assms by (auto simp: findAvailablePort_def split: sum.splits option.splits)
  with find_from_sound [OF this(1)] show "pair_of port \<inter> a = {}" "a' = a \<union> pair_of port" "minPort \<le> port" "port \<le> maxPort"
    by (auto simp: pair_of_def)
qed

lemma releasePort_pair: "releasePort port a = a - pair_of port"
  by (auto simp: releasePort_def pair_of_def)

lemma find_from_complete:
  "find_from listens off a i = None \<Longrightarrow> i \<le> j \<Longrightarrow> j < portRange \<Longrightarrow>
   (let port = minPort + (off + j) mod portRange in pair_of port \<inter> a \<noteq> {} \<or> \<not> listens port \<or> \<not> listens (port + 10000))"
proof (induction listens off a i rule: find_from.induct)
  case (1 listens off a i)
  have lt: "\<not> i \<ge> portRange" using 1(5,6) by simp
  let ?p = "minPort + (off + i) mod portRange"
  have skip: "find_from listens off a (i + 1) = None" and bad: "pair_of ?p \<inter> a \<noteq> {} \<or> \<not> listens ?p \<or> \<not> listens (?p + 10000)"
    using 1(4) lt by (auto simp: find_from.simps [of listens off a i] Let_def pair_of_def split: if_splits)
  show ?case
  proof (cases "j = i")
    case True
    then show ?thesis using bad by (simp add: Let_def)
  next
    case False
    then have j: "i + 1 \<le> j" using 1(5) by simp
    from bad show ?thesis using 1(1-3) [OF lt refl refl] skip j 1(6) by (auto simp: pair_of_def)
  qed
qed

text \<open>Every port of the range is tried.\<close>

lemma offset_reaches: "minPort \<le> p \<Longrightarrow> p \<le> maxPort \<Longrightarrow> \<exists>j < portRange. minPort + (off + j) mod portRange = p"
proof -
  assume b: "minPort \<le> p" "p \<le> maxPort"
  let ?k = "p - minPort" and ?o = "off mod portRange"
  have k: "?k < portRange" using b by (simp add: portRange_def minPort_def maxPort_def)
  have o: "?o < portRange" by (simp add: portRange_def)
  let ?j = "(?k + (portRange - ?o)) mod portRange"
  have "(off + ?j) mod portRange = (?o + (?k + (portRange - ?o))) mod portRange"
    by (metis mod_add_eq mod_add_left_eq)
  also have "?o + (?k + (portRange - ?o)) = ?k + portRange" using o by simp
  also have "\<dots> mod portRange = ?k" using k by simp
  finally show ?thesis using b k by (intro exI [of _ ?j]) (simp add: portRange_def)
qed

lemma port_inv_step: "port_step s t \<Longrightarrow> port_inv s \<Longrightarrow> port_inv t"
proof (induction rule: port_step.induct)
  case (find seed listens s a port)
  note s = findAvailablePort_sound [OF find.hyps]
  have "\<forall>q \<in> set (pa_held s). pair_of port \<inter> pair_of q = {}" using s(1) find.prems by (auto simp: port_inv_def)
  with s find.prems show ?case by (auto simp: port_inv_def disjoint_pairs_def)
next
  case (release s xs port ys)
  have d: "disjoint_pairs (xs @ port # ys)" and al: "pa_allocated s = (\<Union>p \<in> set (xs @ port # ys). pair_of p)"
    using release by (auto simp: port_inv_def)
  have "\<forall>q \<in> set (xs @ ys). pair_of q \<inter> pair_of port = {}"
    using d by (auto simp: disjoint_pairs_def sorted_wrt_append)
  then have "releasePort port (pa_allocated s) = (\<Union>p \<in> set (xs @ ys). pair_of p)"
    unfolding al releasePort_pair by auto
  moreover have "disjoint_pairs (xs @ ys)" using d by (auto simp: disjoint_pairs_def sorted_wrt_append)
  ultimately show ?case using release by (auto simp: port_inv_def)
qed

interpretation ports: transition_system "\<lambda>s. s = \<lparr>pa_allocated = {}, pa_held = []\<rparr>" port_step port_inv
  by unfold_locales (simp add: port_inv_def disjoint_pairs_def, blast intro: port_inv_step)

section \<open>Properties\<close>

text \<open>C35. Test clusters never share a port: whatever allocations and releases parallel tests make, the port
  pairs they hold are pairwise disjoint, every bus port is a valid port number, and the allocator has
  exactly the held ports on record. An allocation fails only if no pair of the range is free and available,
  or if the system hands out no seed port.\<close>

theorem ports_never_shared:
  assumes "port_step\<^sup>*\<^sup>* \<lparr>pa_allocated = {}, pa_held = []\<rparr> s"
  shows "disjoint_pairs (pa_held s) \<and> (\<forall>p \<in> set (pa_held s). minPort \<le> p \<and> p + 10000 \<le> 65535)
    \<and> pa_allocated s = (\<Union>p \<in> set (pa_held s). pair_of p)
    \<and> (\<forall>err. findAvailablePort seed listens (pa_allocated s) = Inl err \<longrightarrow> (\<exists>e. seed = Inl e) \<or>
        (\<forall>p. minPort \<le> p \<longrightarrow> p \<le> maxPort \<longrightarrow> pair_of p \<inter> pa_allocated s \<noteq> {} \<or> \<not> listens p \<or> \<not> listens (p + 10000)))"
proof -
  have inv: "port_inv s" by (rule ports.inv_reachable [OF refl assms])
  have "pair_of p \<inter> pa_allocated s \<noteq> {} \<or> \<not> listens p \<or> \<not> listens (p + 10000)"
    if none: "findAvailablePort seed listens (pa_allocated s) = Inl err" and seed: "seed = Inr q" and p: "minPort \<le> p" "p \<le> maxPort" for q p err
  proof -
    have f: "find_from listens (q mod portRange) (pa_allocated s) 0 = None"
      using none seed by (auto simp: findAvailablePort_def split: option.splits)
    obtain j where j: "j < portRange" "minPort + (q mod portRange + j) mod portRange = p" using offset_reaches [OF p] by blast
    from find_from_complete [OF f _ j(1)] show ?thesis by (simp add: j(2) Let_def)
  qed
  then show ?thesis using inv by (cases seed) (auto simp: port_inv_def maxPort_def)
qed

theorem ports_never_shared_witness:
  "\<exists>s. port_step\<^sup>*\<^sup>* \<lparr>pa_allocated = {}, pa_held = []\<rparr> s \<and> pa_held s = [10002, 10001] \<and> disjoint_pairs (pa_held s)"
proof -
  let ?s0 = "\<lparr>pa_allocated = {}, pa_held = []\<rparr>"
  let ?s1 = "\<lparr>pa_allocated = {20001, 10001}, pa_held = [10001]\<rparr>"
  let ?s2 = "\<lparr>pa_allocated = {20002, 10002, 20001, 10001}, pa_held = [10002, 10001]\<rparr>"
  have "find_from (\<lambda>_. True) 1 {} 0 = Some 10001"
    by (subst find_from.simps) (simp add: portRange_def minPort_def maxPort_def Let_def)
  then have "findAvailablePort (Inr 1) (\<lambda>_. True) (pa_allocated ?s0) = Inr ({20001, 10001}, 10001)"
    by (simp add: findAvailablePort_def portRange_def minPort_def maxPort_def)
  then have s1: "port_step ?s0 ?s1" using port_step.find by fastforce
  have "find_from (\<lambda>_. True) 1 {20001, 10001} 1 = Some 10002"
    by (subst find_from.simps) (simp add: portRange_def minPort_def maxPort_def Let_def)
  then have "find_from (\<lambda>_. True) 1 {20001, 10001} 0 = Some 10002"
    by (subst find_from.simps) (simp add: portRange_def minPort_def maxPort_def Let_def)
  then have "findAvailablePort (Inr 1) (\<lambda>_. True) (pa_allocated ?s1) = Inr ({20002, 10002, 20001, 10001}, 10002)"
    by (simp add: findAvailablePort_def portRange_def minPort_def maxPort_def)
  then have "port_step ?s1 ?s2" using port_step.find by fastforce
  with s1 have r: "port_step\<^sup>*\<^sup>* ?s0 ?s2" by (meson converse_rtranclp_into_rtranclp r_into_rtranclp)
  from ports_never_shared [OF r] r show ?thesis by (intro exI [of _ ?s2]) simp
qed

end
