(* ===== verification/Pid_File.thy ===== *)
theory Pid_File
  imports Go_Strings
begin

text \<open>
  \<open>integration/cluster_setup.go\<close>, the file that tracks the processes of test clusters: \<open>recordPid\<close>,
  \<open>removePid\<close> and \<open>killOrphanedProcesses\<close>. The state is the content of the file at the (constant) path, \<open>None\<close>
  if there is no such file; each function runs under \<open>pidFileMu\<close>. What the file system answers and what
  the operating system reports of a process are arguments.
\<close>

section \<open>The source's functions\<close>

definition pidFileName :: string where
  "pidFileName = ''.redis-test-pids''"

text \<open>The global \<open>pidFilePath\<close>, empty at first, is set to the path once.\<close>

definition getPidFilePathLocked :: "string \<Rightarrow> string" where
  "getPidFilePathLocked pidFilePath = (if pidFilePath = [] then ''testdata/'' @ pidFileName else pidFilePath)"

text \<open>\<open>os.ReadFile\<close> of the file, \<open>None\<close> for an error, and what is there after \<open>os.WriteFile\<close> or, for \<open>None\<close>,
  after \<open>os.Remove\<close>; the code ignores the errors of these two.\<close>

record disk =
  dk_read :: "string option \<Rightarrow> string option"
  dk_write :: "string option \<Rightarrow> string option"

text \<open>\<open>openErr\<close> is the error of opening the file, \<open>short\<close> the error of a write with the bytes written
  before it.\<close>

definition recordPid :: "goerror option \<Rightarrow> (nat \<times> goerror) option \<Rightarrow> int \<Rightarrow> string option \<Rightarrow> string option \<times> goerror option" where
  "recordPid openErr short pid file =
     (case openErr of
        Some err \<Rightarrow> (file, Some err)
      | None \<Rightarrow>
          (let data = (case file of None \<Rightarrow> [] | Some data \<Rightarrow> data); line = showInt pid @ [newline]
           in case short of
                None \<Rightarrow> (Some (data @ line), None)
              | Some (n, err) \<Rightarrow> (Some (data @ take n line), Some err)))"

definition removePid :: "disk \<Rightarrow> int \<Rightarrow> string option \<Rightarrow> string option" where
  "removePid d pid file =
     (case dk_read d file of
        None \<Rightarrow> file
      | Some data \<Rightarrow>
          (let pidStr = showInt pid;
               newLines = filter (\<lambda>line. line \<noteq> [] \<and> line \<noteq> pidStr) (map strings_TrimSpace (splitBy (\<lambda>c. c = newline) data))
           in if newLines = [] then dk_write d None else dk_write d (Some (joinWith newline newLines @ [newline]))))"

text \<open>What the system tells of a process: \<open>os.FindProcess\<close> finds it, signal 0 can be sent, the content of
  \<open>/proc/<pid>/comm\<close> if it can be read, signal 0 can still be sent 50 ms after SIGTERM.\<close>

record probe =
  pr_found :: bool
  pr_alive :: bool
  pr_comm :: "string option"
  pr_survives :: bool

datatype os_signal = SIGTERM int | SIGKILL_group int | SIGKILL int | SIGSTOP int | SIGCONT int

text \<open>The signals that are sent to a process of the file.\<close>

definition check_orphan :: "probe \<Rightarrow> int \<Rightarrow> os_signal list" where
  "check_orphan pr pid =
     (if \<not> pr_found pr then []
      else if \<not> pr_alive pr then []
      else if (case pr_comm pr of None \<Rightarrow> False | Some commData \<Rightarrow> strings_TrimSpace commData \<noteq> ''redis-server'') then []
      else SIGTERM pid # (if pr_survives pr then [SIGKILL_group pid, SIGKILL pid] else []))"

text \<open>The loop over the lines collects the signals and \<open>killedPids\<close>.\<close>

definition orphan_line :: "(int \<Rightarrow> probe) \<Rightarrow> string \<Rightarrow> os_signal list \<times> int list \<Rightarrow> os_signal list \<times> int list" where
  "orphan_line probes text acc =
     (let line = strings_TrimSpace text in
      if line = [] then acc
      else (case strconv_Atoi line of
              None \<Rightarrow> acc
            | Some pid \<Rightarrow> (fst acc @ check_orphan (probes pid) pid, snd acc @ [pid])))"

definition killOrphanedProcesses :: "disk \<Rightarrow> (int \<Rightarrow> probe) \<Rightarrow> string option \<Rightarrow> os_signal list \<times> string option" where
  "killOrphanedProcesses d probes file =
     (case dk_read d file of
        None \<Rightarrow> ([], file)
      | Some data \<Rightarrow>
          (let (signals, killedPids) = fold (orphan_line probes) (scanner_lines data) ([], [])
           in (signals, fold (removePid d) killedPids file)))"

section \<open>Lemmas\<close>

lemma pid_path_constant: "path \<in> {[], ''testdata/.redis-test-pids''} \<Longrightarrow> getPidFilePathLocked path = ''testdata/.redis-test-pids''"
  by (auto simp: getPidFilePathLocked_def pidFileName_def)

definition reliable :: "disk \<Rightarrow> bool" where
  "reliable d \<longleftrightarrow> (\<forall>f. dk_read d f = f \<and> dk_write d f = f)"

lemma reliable_simps [simp]: "reliable d \<Longrightarrow> dk_read d f = f" "reliable d \<Longrightarrow> dk_write d f = f"
  by (simp_all add: reliable_def)

text \<open>The file that represents a list of processes: a line for each, no file for none.\<close>

definition pid_lines :: "int list \<Rightarrow> string" where
  "pid_lines ps = concat (map (\<lambda>p. showInt p @ [newline]) ps)"

definition pid_file :: "int list \<Rightarrow> string option" where
  "pid_file ps = (if ps = [] then None else Some (pid_lines ps))"

lemma split_pid_lines: "splitBy (\<lambda>c. c = newline) (pid_lines ps) = map showInt ps @ [[]]"
  by (induction ps)
    (simp_all add: pid_lines_def splitBy_append [of "\<lambda>c. c = newline"] no_space_no_newline showInt_no_space)

lemma trim_showInt [simp]: "strings_TrimSpace (showInt p) = showInt p"
  by (rule trim_no_space [OF showInt_no_space])

lemma trim_Nil [simp]: "strings_TrimSpace [] = []"
  by (simp add: strings_TrimSpace_def)

lemma join_pid_lines: "ps \<noteq> [] \<Longrightarrow> joinWith newline (map showInt ps) @ [newline] = pid_lines ps"
  by (induction ps rule: induct_list012) (simp_all add: pid_lines_def)

lemma record_pid_file: "recordPid None None p (pid_file ps) = (pid_file (ps @ [p]), None)"
  by (simp add: recordPid_def pid_file_def pid_lines_def)

lemma remove_pid_file:
  assumes "reliable d"
  shows "removePid d p (pid_file ps) = pid_file (filter (\<lambda>q. q \<noteq> p) ps)"
proof (cases "ps = []")
  case True
  then show ?thesis using assms by (simp add: removePid_def pid_file_def)
next
  case False
  have "filter (\<lambda>line. line \<noteq> [] \<and> line \<noteq> showInt p) (map strings_TrimSpace (splitBy (\<lambda>c. c = newline) (pid_lines ps)))
      = map showInt (filter (\<lambda>q. q \<noteq> p) ps)"
    by (auto simp: split_pid_lines filter_map o_def dest: showInt_inj intro!: arg_cong [where f = "map showInt"] filter_cong)
  then show ?thesis using assms False join_pid_lines [of "filter (\<lambda>q. q \<noteq> p) ps"]
    by (simp add: removePid_def pid_file_def Let_def)
qed

lemma remove_all_pids:
  "reliable d \<Longrightarrow> fold (removePid d) qs (pid_file ps) = pid_file (filter (\<lambda>p. p \<notin> set qs) ps)"
  by (induction qs arbitrary: ps) (simp_all add: remove_pid_file conj_commute)

lemma scan_pid_lines:
  assumes "\<forall>p \<in> set ps. - (2 ^ 63) \<le> p \<and> p < 2 ^ 63"
  shows "scanner_lines (pid_lines ps) = map showInt ps @ [[]]"
proof -
  have "length l < 65536" if "l \<in> set (map showInt ps @ [[]])" for l
    using that assms by (auto intro!: showInt_short)
  then show ?thesis unfolding scanner_lines_def split_pid_lines by (simp add: takeWhile_eq_all_conv)
qed

lemma orphan_lines:
  "\<forall>p \<in> set ps. - (2 ^ 63) \<le> p \<and> p < 2 ^ 63 \<Longrightarrow>
   fold (orphan_line probes) (map showInt ps) (sigs, killed) =
     (sigs @ concat (map (\<lambda>p. check_orphan (probes p) p) ps), killed @ ps)"
  by (induction ps arbitrary: sigs killed) (simp_all add: orphan_line_def Atoi_showInt Let_def)

lemma kill_orphans_of_file:
  assumes "reliable d" and "\<forall>p \<in> set ps. - (2 ^ 63) \<le> p \<and> p < 2 ^ 63"
  shows "killOrphanedProcesses d probes (pid_file ps) = (concat (map (\<lambda>p. check_orphan (probes p) p) ps), None)"
  using assms(1) scan_pid_lines [OF assms(2)] orphan_lines [OF assms(2), of probes "[]" "[]"] remove_all_pids [OF assms(1), of ps ps]
  by (cases "ps = []") (simp_all add: killOrphanedProcesses_def pid_file_def orphan_line_def)

text \<open>The operations of a run on the file, and on the list it represents.\<close>

datatype pid_op = Record int | Remove int

fun file_op :: "disk \<Rightarrow> pid_op \<Rightarrow> string option \<Rightarrow> string option" where
  "file_op d (Record p) file = fst (recordPid None None p file)"
| "file_op d (Remove p) file = removePid d p file"

fun list_op :: "pid_op \<Rightarrow> int list \<Rightarrow> int list" where
  "list_op (Record p) ps = ps @ [p]"
| "list_op (Remove p) ps = filter (\<lambda>q. q \<noteq> p) ps"

lemma file_ops: "reliable d \<Longrightarrow> fold (file_op d) ops (pid_file ps) = pid_file (fold list_op ops ps)"
proof (induction ops arbitrary: ps)
  case (Cons op ops)
  then show ?case by (cases op) (simp_all add: record_pid_file remove_pid_file)
qed simp

lemma fold_list_op_range: "set (fold list_op ops ps) \<subseteq> set ps \<union> {p. Record p \<in> set ops}"
proof (induction ops arbitrary: ps)
  case (Cons op ops)
  have "set (list_op op ps) \<subseteq> set ps \<union> {p. op = Record p}" by (cases op) auto
  with Cons.IH [of "list_op op ps"] show ?case by auto
qed simp

text \<open>Whatever the file holds, only a process that is recorded there and runs \<open>redis-server\<close>, as far as the
  system tells, gets a signal.\<close>

lemma orphan_signals_justified:
  assumes "x \<in> set (fst (fold (orphan_line probes) ls (sigs, killed)))"
  shows "x \<in> set sigs \<or> (\<exists>line \<in> set ls. \<exists>pid. strconv_Atoi (strings_TrimSpace line) = Some pid \<and> x \<in> set (check_orphan (probes pid) pid))"
  using assms
proof (induction ls arbitrary: sigs killed)
  case (Cons l ls)
  obtain s2 k2 where a: "orphan_line probes l (sigs, killed) = (s2, k2)" by (metis prod.collapse)
  have "x \<in> set s2 \<Longrightarrow> x \<in> set sigs \<or> (\<exists>pid. strconv_Atoi (strings_TrimSpace l) = Some pid \<and> x \<in> set (check_orphan (probes pid) pid))"
    using a by (auto simp: orphan_line_def Let_def split: if_splits option.splits)
  with Cons.IH [of s2 k2] Cons.prems a show ?case by auto
qed simp

section \<open>Properties\<close>

text \<open>A run that is interrupted leaves nothing behind for long: whatever processes it recorded and removed, the
  next run sends SIGTERM to exactly those that were recorded and not removed and are still running as
  \<open>redis-server\<close> (as far as the system tells), SIGKILL to those of them that survive it, and no signal to any
  other process; after that the file is gone.\<close>

theorem orphans_of_interrupted_run_killed:
  assumes "reliable d" and "\<forall>p. Record p \<in> set ops \<longrightarrow> - (2 ^ 63) \<le> p \<and> p < 2 ^ 63"
    and "file = fold (file_op d) ops None"
    and "killOrphanedProcesses d probes file = (signals, file')"
  shows "file' = None \<and>
    (SIGTERM p \<in> set signals \<longleftrightarrow> p \<in> set (fold list_op ops []) \<and> pr_found (probes p) \<and> pr_alive (probes p)
       \<and> (\<forall>comm. pr_comm (probes p) = Some comm \<longrightarrow> strings_TrimSpace comm = ''redis-server'')) \<and>
    (SIGKILL p \<in> set signals \<longleftrightarrow> SIGTERM p \<in> set signals \<and> pr_survives (probes p))"
proof -
  define ps where "ps = fold list_op ops []"
  have range: "\<forall>p \<in> set ps. - (2 ^ 63) \<le> p \<and> p < 2 ^ 63"
    using fold_list_op_range [of ops "[]"] assms(2) by (auto simp: ps_def)
  have "file = pid_file ps" using file_ops [OF assms(1), of ops "[]"] by (simp add: assms(3) ps_def pid_file_def)
  note k = kill_orphans_of_file [OF assms(1) range, of probes, folded this]
  from k assms(4) have "signals = concat (map (\<lambda>p. check_orphan (probes p) p) ps)" "file' = None" by simp_all
  then show ?thesis by (auto simp: check_orphan_def ps_def split: option.splits)
qed

theorem orphans_of_interrupted_run_killed_witness:
  "let d = \<lparr>dk_read = id, dk_write = id\<rparr>; run = [Record 17, Record 4, Remove 17];
       probes = (\<lambda>_. \<lparr>pr_found = True, pr_alive = True, pr_comm = Some (''redis-server'' @ [newline]), pr_survives = False\<rparr>);
       (signals, file') = killOrphanedProcesses d probes (fold (file_op d) run None)
   in file' = None \<and> SIGTERM 4 \<in> set signals \<and> SIGTERM 17 \<notin> set signals \<and> SIGKILL 4 \<notin> set signals"
proof -
  let ?d = "\<lparr>dk_read = id, dk_write = id\<rparr>" and ?run = "[Record 17, Record 4, Remove 17]"
  let ?probes = "\<lambda>_. \<lparr>pr_found = True, pr_alive = True, pr_comm = Some (''redis-server'' @ [newline]), pr_survives = False\<rparr>"
  obtain signals file' where k: "killOrphanedProcesses ?d ?probes (fold (file_op ?d) ?run None) = (signals, file')"
    by (metis prod.collapse)
  have "strings_TrimSpace (''redis-server'' @ [newline]) = ''redis-server''"
    by (simp add: strings_TrimSpace_def newline_def isSpace_def)
  with orphans_of_interrupted_run_killed [OF _ _ refl k, of 4] orphans_of_interrupted_run_killed [OF _ _ refl k, of 17] k
  show ?thesis by (simp add: reliable_def)
qed

end
