(* ===== verification/Test_Cluster.thy ===== *)
theory Test_Cluster
  imports Port_Allocator Pid_File
begin

text \<open>
  \<open>integration/cluster_setup.go\<close>, the clusters that the integration tests start: \<open>StartCluster\<close> with its waits,
  \<open>StopCluster\<close>, the signals to single nodes, and the registry of clusters with the clean-up of a run. The
  state is what the package and the operating system keep: the registry, the allocator's ports, the PID file,
  the file system and the processes that run. The answers of the system, of \<open>redis-cli\<close> and of the servers are
  arguments; a wait takes the list of what it observes and has the result \<open>None\<close> while it goes on.
\<close>

section \<open>The source's types\<close>

definition syncBuffer_Write :: "string \<Rightarrow> string \<Rightarrow> string" where
  "syncBuffer_Write p sb = sb @ p"

record TestNode =
  tn_ID :: string
  tn_Port :: nat
  tn_Address :: string

text \<open>A process is an \<open>exec.Cmd\<close>, by the number of its process (\<open>None\<close> for a nil pointer or one that was not
  started); its output is what the buffer of that process holds.\<close>

record TestCluster =
  tc_name :: string
  tc_nodes :: "TestNode list"
  tc_processes :: "int option list"
  tc_processOutputs :: "string list"
  tc_dataDirs :: "string list"
  tc_testDataDir :: string
  tc_numShards :: int
  tc_replicasPerShard :: int
  tc_clusterClient :: "nat option"
  tc_clusterInitOut :: string

datatype fs_entry = Directory | File string

record testworld =
  tw_activeClusters :: "nat list"
  tw_clusters :: "nat \<Rightarrow> TestCluster"
  tw_next :: nat
  tw_signalHandlerOnce :: bool
  tw_cleanupOnce :: bool
  tw_pids :: "string option"
  tw_allocatedPorts :: "nat set"
  tw_fs :: "string \<Rightarrow> fs_entry option"
  tw_running :: "int set"
  tw_signals :: "os_signal list"
  tw_closedClients :: "nat list"

definition upd_cluster :: "nat \<Rightarrow> (TestCluster \<Rightarrow> TestCluster) \<Rightarrow> testworld \<Rightarrow> testworld" where
  "upd_cluster c f w = w\<lparr>tw_clusters := (tw_clusters w)(c := f (tw_clusters w c))\<rparr>"

text \<open>\<open>os.RemoveAll\<close>, if it succeeds: the path and everything below it.\<close>

definition fs_under :: "string \<Rightarrow> string \<Rightarrow> bool" where
  "fs_under dir p \<longleftrightarrow> p = dir \<or> prefix (dir @ ''/'') p"

definition os_RemoveAll :: "(string \<Rightarrow> bool) \<Rightarrow> string \<Rightarrow> testworld \<Rightarrow> testworld" where
  "os_RemoveAll succeeds dir w = (if succeeds dir then w\<lparr>tw_fs := (\<lambda>p. if fs_under dir p then None else tw_fs w p)\<rparr> else w)"

section \<open>Stopping\<close>

text \<open>How a process ends after SIGTERM: \<open>cmd.Wait\<close> returns within 2 s, or within 1 s after SIGKILL, or not.\<close>

datatype exit_answer = Exits | ExitsWhenKilled | Survives

record stop_env =
  st_closeErr :: "goerror option"
  st_term :: "int \<Rightarrow> goerror option"
  st_exit :: "int \<Rightarrow> exit_answer"
  st_disk :: disk
  st_removes :: "string \<Rightarrow> bool"

definition drop_pid :: "stop_env \<Rightarrow> int \<Rightarrow> testworld \<Rightarrow> testworld" where
  "drop_pid st pid w = w\<lparr>tw_pids := removePid (st_disk st) pid (tw_pids w)\<rparr>"

text \<open>The wait for the end of a process to which SIGTERM was sent.\<close>

definition await_exit :: "stop_env \<Rightarrow> int \<Rightarrow> testworld \<Rightarrow> testworld" where
  "await_exit st pid w =
     (case st_exit st pid of
        Exits \<Rightarrow> drop_pid st pid (w\<lparr>tw_running := tw_running w - {pid}\<rparr>)
      | ExitsWhenKilled \<Rightarrow> drop_pid st pid
          (w\<lparr>tw_signals := tw_signals w @ [SIGKILL_group pid, SIGKILL pid], tw_running := tw_running w - {pid}\<rparr>)
      | Survives \<Rightarrow> drop_pid st pid (w\<lparr>tw_signals := tw_signals w @ [SIGKILL_group pid, SIGKILL pid]\<rparr>))"

definition stop_process :: "stop_env \<Rightarrow> int \<Rightarrow> testworld \<Rightarrow> testworld" where
  "stop_process st pid w =
     (let w1 = w\<lparr>tw_signals := tw_signals w @ [SIGTERM pid]\<rparr>
      in case st_term st pid of
           Some _ \<Rightarrow> drop_pid st pid w1
         | None \<Rightarrow> await_exit st pid w1)"

definition close_cluster_client :: "stop_env \<Rightarrow> nat \<Rightarrow> testworld \<Rightarrow> testworld \<times> goerror option" where
  "close_cluster_client st c w =
     (case tc_clusterClient (tw_clusters w c) of
        None \<Rightarrow> (w, None)
      | Some cl \<Rightarrow> (upd_cluster c (\<lambda>tc. tc\<lparr>tc_clusterClient := None\<rparr>) (w\<lparr>tw_closedClients := tw_closedClients w @ [cl]\<rparr>), st_closeErr st))"

definition stop_processes :: "stop_env \<Rightarrow> int option list \<Rightarrow> testworld \<Rightarrow> testworld" where
  "stop_processes st cmds w = fold (\<lambda>cmd w. case cmd of None \<Rightarrow> w | Some pid \<Rightarrow> stop_process st pid w) cmds w"

definition release_ports :: "TestNode list \<Rightarrow> testworld \<Rightarrow> testworld" where
  "release_ports nodes w = w\<lparr>tw_allocatedPorts := fold (\<lambda>node. releasePort (tn_Port node)) nodes (tw_allocatedPorts w)\<rparr>"

definition remove_dirs :: "stop_env \<Rightarrow> TestCluster \<Rightarrow> testworld \<Rightarrow> testworld" where
  "remove_dirs st tc w =
     (let w1 = fold (os_RemoveAll (st_removes st)) (tc_dataDirs tc) w
      in if tc_testDataDir tc \<noteq> [] then os_RemoveAll (st_removes st) (tc_testDataDir tc) w1 else w1)"

definition unregisterCluster :: "nat \<Rightarrow> testworld \<Rightarrow> testworld" where
  "unregisterCluster c w = w\<lparr>tw_activeClusters := filter (\<lambda>d. d \<noteq> c) (tw_activeClusters w)\<rparr>"

definition StopCluster :: "stop_env \<Rightarrow> nat \<Rightarrow> testworld \<Rightarrow> testworld \<times> goerror option" where
  "StopCluster st c w =
     (let (w1, firstErr) = close_cluster_client st c w;
          w2 = stop_processes st (tc_processes (tw_clusters w1 c)) w1;
          w3 = release_ports (tc_nodes (tw_clusters w2 c)) w2;
          w4 = upd_cluster c (\<lambda>tc. tc\<lparr>tc_processes := []\<rparr>) w3;
          w5 = remove_dirs st (tw_clusters w4 c) w4
      in (unregisterCluster c w5, firstErr))"

section \<open>The registry and the clean-up of a run\<close>

definition kill_orphans :: "disk \<Rightarrow> (int \<Rightarrow> probe) \<Rightarrow> testworld \<Rightarrow> testworld" where
  "kill_orphans d probes w =
     (let (signals, file) = killOrphanedProcesses d probes (tw_pids w)
      in w\<lparr>tw_pids := file, tw_signals := tw_signals w @ signals, tw_running := tw_running w - {p. SIGTERM p \<in> set signals}\<rparr>)"

text \<open>\<open>signalHandlerOnce.Do\<close>; the goroutine that waits for a signal runs \<open>doCleanup\<close> when it gets one.\<close>

definition initSignalHandler :: "disk \<Rightarrow> (int \<Rightarrow> probe) \<Rightarrow> testworld \<Rightarrow> testworld" where
  "initSignalHandler d probes w =
     (if tw_signalHandlerOnce w then w else (kill_orphans d probes w)\<lparr>tw_signalHandlerOnce := True\<rparr>)"

definition registerCluster :: "disk \<Rightarrow> (int \<Rightarrow> probe) \<Rightarrow> nat \<Rightarrow> testworld \<Rightarrow> testworld" where
  "registerCluster d probes c w =
     initSignalHandler d probes (w\<lparr>tw_activeClusters := List.insert c (tw_activeClusters w)\<rparr>)"

text \<open>The errors of \<open>StopCluster\<close> are only printed.\<close>

definition cleanupAllClusters :: "stop_env \<Rightarrow> testworld \<Rightarrow> testworld" where
  "cleanupAllClusters st w = fold (\<lambda>c w. fst (StopCluster st c w)) (tw_activeClusters w) w"

definition doCleanup :: "stop_env \<Rightarrow> testworld \<Rightarrow> testworld" where
  "doCleanup st w = (if tw_cleanupOnce w then w else (cleanupAllClusters st w)\<lparr>tw_cleanupOnce := True\<rparr>)"

section \<open>Starting\<close>

text \<open>The answers for one node: the seed port and which ports can be listened on, the errors of creating its
  directory and of writing its configuration, the process or the error of \<open>cmd.Start\<close>, its output so far, and
  what recording the process meets.\<close>

record node_env =
  ne_seed :: "goerror + nat"
  ne_listens :: "nat \<Rightarrow> bool"
  ne_mkdirErr :: "goerror option"
  ne_writeErr :: "goerror option"
  ne_start :: "goerror + int"
  ne_output :: string
  ne_openErr :: "goerror option"
  ne_short :: "(nat \<times> goerror) option"

definition nl :: string where "nl = [newline]"

definition redis_conf :: "nat \<Rightarrow> string \<Rightarrow> string" where
  "redis_conf port dataDir =
     ''port '' @ showNat port @ nl @ ''cluster-enabled yes'' @ nl @ ''cluster-config-file nodes.conf'' @ nl @
     ''cluster-node-timeout 1000'' @ nl @ ''cluster-replica-validity-factor 0'' @ nl @ ''appendonly yes'' @ nl @
     ''dir '' @ dataDir @ nl"

definition node_at :: "nat \<Rightarrow> nat \<Rightarrow> TestNode" where
  "node_at i port = \<lparr>tn_ID = ''node-'' @ showNat i, tn_Port = port, tn_Address = ''127.0.0.1:'' @ showNat port\<rparr>"

definition data_dir :: "TestCluster \<Rightarrow> nat \<Rightarrow> string" where
  "data_dir tc i = tc_testDataDir tc @ ''/node-'' @ showNat i"

text \<open>The body of the loop over the nodes in three parts: the port, directory and configuration; the start of
  the process; its recording. An error of the recording is only printed.\<close>

definition node_prepare :: "node_env \<Rightarrow> nat \<Rightarrow> nat \<Rightarrow> testworld \<Rightarrow> testworld \<times> goerror option" where
  "node_prepare ne i c w =
     (case findAvailablePort (ne_seed ne) (ne_listens ne) (tw_allocatedPorts w) of
        Inl err \<Rightarrow> (w, Some (Wrapf (''failed to find available port for node '' @ showNat i @ '': '') err))
      | Inr (ports, port) \<Rightarrow>
          (let w1 = upd_cluster c (\<lambda>tc. tc\<lparr>tc_nodes := tc_nodes tc @ [node_at i port]\<rparr>) (w\<lparr>tw_allocatedPorts := ports\<rparr>);
               dataDir = data_dir (tw_clusters w1 c) i
           in case ne_mkdirErr ne of
                Some err \<Rightarrow> (w1, Some (Wrapf ''failed to create node data directory: '' err))
              | None \<Rightarrow>
                  (let w2 = upd_cluster c (\<lambda>tc. tc\<lparr>tc_dataDirs := tc_dataDirs tc @ [dataDir]\<rparr>)
                         (w1\<lparr>tw_fs := (tw_fs w1)(dataDir \<mapsto> Directory)\<rparr>)
                   in case ne_writeErr ne of
                        Some err \<Rightarrow> (w2, Some (Wrapf ''failed to write redis config: '' err))
                      | None \<Rightarrow> (w2\<lparr>tw_fs := (tw_fs w2)(dataDir @ ''/redis.conf'' \<mapsto> File (redis_conf port dataDir))\<rparr>, None))))"

definition node_launch :: "node_env \<Rightarrow> nat \<Rightarrow> testworld \<Rightarrow> testworld \<times> (goerror + int)" where
  "node_launch ne c w =
     (case ne_start ne of
        Inl err \<Rightarrow> (w, Inl (Wrapf (''failed to start redis-server on port '' @ showNat (tn_Port (last (tc_nodes (tw_clusters w c)))) @ '': '') err))
      | Inr pid \<Rightarrow> (w\<lparr>tw_running := insert pid (tw_running w)\<rparr>, Inr pid))"

definition node_track :: "node_env \<Rightarrow> int \<Rightarrow> nat \<Rightarrow> testworld \<Rightarrow> testworld" where
  "node_track ne pid c w =
     upd_cluster c (\<lambda>tc. tc\<lparr>tc_processes := tc_processes tc @ [Some pid],
         tc_processOutputs := tc_processOutputs tc @ [syncBuffer_Write (ne_output ne) []]\<rparr>)
       (w\<lparr>tw_pids := fst (recordPid (ne_openErr ne) (ne_short ne) pid (tw_pids w))\<rparr>)"

definition start_node :: "node_env \<Rightarrow> nat \<Rightarrow> nat \<Rightarrow> testworld \<Rightarrow> testworld \<times> goerror option" where
  "start_node ne i c w =
     (case node_prepare ne i c w of
        (w1, Some err) \<Rightarrow> (w1, Some err)
      | (w1, None) \<Rightarrow>
          (case node_launch ne c w1 of
             (w2, Inl err) \<Rightarrow> (w2, Some err)
           | (w2, Inr pid) \<Rightarrow> (node_track ne pid c w2, None)))"

fun start_nodes :: "(nat \<Rightarrow> node_env) \<Rightarrow> nat list \<Rightarrow> nat \<Rightarrow> testworld \<Rightarrow> testworld \<times> goerror option" where
  "start_nodes nes [] c w = (w, None)"
| "start_nodes nes (i # is) c w =
     (case start_node (nes i) i c w of
        (w1, Some err) \<Rightarrow> (w1, Some err)
      | (w1, None) \<Rightarrow> start_nodes nes is c w1)"

subsection \<open>The waits\<close>

text \<open>The goroutine of \<open>waitForNodesReady\<close> for a node, over the answers to its pings and, after a failed one,
  whether the context has ended: what it sends on the channel.\<close>

fun node_ready :: "string \<Rightarrow> (bool \<times> goerror option) list \<Rightarrow> goerror option option" where
  "node_ready nodeAddr [] = None"
| "node_ready nodeAddr ((True, _) # es) = Some None"
| "node_ready nodeAddr ((False, Some err) # es) = Some (Some (Wrapf (''node '' @ nodeAddr @ '' not ready: '') err))"
| "node_ready nodeAddr ((False, None) # es) = node_ready nodeAddr es"

text \<open>The receiver takes as many results as there are nodes, in the order of their arrival.\<close>

fun collect_ready :: "nat \<Rightarrow> goerror option list \<Rightarrow> goerror option option" where
  "collect_ready 0 rs = Some None"
| "collect_ready (Suc n) [] = None"
| "collect_ready (Suc n) (None # rs) = collect_ready n rs"
| "collect_ready (Suc n) (Some err # rs) = Some (Some err)"

definition waitForNodesReady :: "TestNode list \<Rightarrow> (nat \<Rightarrow> (bool \<times> goerror option) list) \<Rightarrow> nat list \<Rightarrow> goerror option option" where
  "waitForNodesReady nodes polls order =
     collect_ready (length nodes) (List.map_filter (\<lambda>i. node_ready (tn_Address (nodes ! i)) (polls i)) order)"

text \<open>A round of \<open>initializeCluster\<close>: which nodes answer a ping, the answer of the first node to CLUSTER INFO, and
  whether the context has ended.\<close>

record init_round =
  ir_pings :: "nat \<Rightarrow> bool"
  ir_info :: "goerror + string"
  ir_ctxErr :: "goerror option"

fun init_rounds :: "nat \<Rightarrow> init_round list \<Rightarrow> goerror option option" where
  "init_rounds n [] = None"
| "init_rounds n (r # rs) =
     (if list_all (ir_pings r) [0..<n] \<and> (case ir_info r of Inl _ \<Rightarrow> False | Inr info \<Rightarrow> info \<noteq> []) then Some None
      else (case ir_ctxErr r of
              Some err \<Rightarrow> Some (Some (Wrapf ''cluster not ready within timeout: '' err))
            | None \<Rightarrow> init_rounds n rs))"

definition cli_args :: "TestCluster \<Rightarrow> string list" where
  "cli_args tc = [''--cluster'', ''create''] @ map tn_Address (tc_nodes tc)
     @ [''--cluster-replicas'', showInt (tc_replicasPerShard tc), ''--cluster-yes'']"

text \<open>\<open>cli\<close>: the path of \<open>redis-cli\<close>, its output and its error.\<close>

definition initializeCluster :: "string \<times> string \<times> goerror option \<Rightarrow> init_round list \<Rightarrow> nat \<Rightarrow> testworld \<Rightarrow> testworld \<times> goerror option option" where
  "initializeCluster cli rounds c w =
     (let (path, output, err) = cli; tc = tw_clusters w c;
          w1 = upd_cluster c (\<lambda>tc. tc\<lparr>tc_clusterInitOut := output\<rparr>) w
      in case err of
           Some e \<Rightarrow> (w1, Some (Some (Wrapf ''failed to initialize cluster: ''
              (WrapfThen e (''.'' @ nl @ ''Command: '' @ joinWith (CHR '' '') (path # cli_args tc))))))
         | None \<Rightarrow> (w1, init_rounds (length (tc_nodes tc)) rounds))"

subsection \<open>StartCluster\<close>

record start_env =
  se_now :: int
  se_baseErr :: "goerror option"
  se_tempDir :: "goerror + string"
  se_nodes :: "nat \<Rightarrow> node_env"
  se_polls :: "nat \<Rightarrow> (bool \<times> goerror option) list"
  se_order :: "nat list"
  se_cli :: "string \<times> string \<times> goerror option"
  se_rounds :: "init_round list"
  se_client :: nat
  se_pingErr :: "goerror option"
  se_stop :: stop_env
  se_probes :: "int \<Rightarrow> probe"

definition newTestCluster :: "string \<Rightarrow> string \<Rightarrow> int \<Rightarrow> int \<Rightarrow> TestCluster" where
  "newTestCluster clusterName testDataDir numShards replicasPerShard =
     \<lparr>tc_name = clusterName, tc_nodes = [], tc_processes = [], tc_processOutputs = [], tc_dataDirs = [],
      tc_testDataDir = testDataDir, tc_numShards = numShards, tc_replicasPerShard = replicasPerShard,
      tc_clusterClient = None, tc_clusterInitOut = []\<rparr>"

text \<open>The part of \<open>StartCluster\<close> from the loop on, whose errors make it call \<open>StopCluster\<close>.\<close>

definition bring_up :: "start_env \<Rightarrow> nat \<Rightarrow> nat \<Rightarrow> testworld \<Rightarrow> testworld \<times> goerror option option" where
  "bring_up se numNodes c w =
     (case start_nodes (se_nodes se) [0..<numNodes] c w of
        (w1, Some err) \<Rightarrow> (w1, Some (Some err))
      | (w1, None) \<Rightarrow>
          (case waitForNodesReady (tc_nodes (tw_clusters w1 c)) (se_polls se) (se_order se) of
             None \<Rightarrow> (w1, None)
           | Some (Some err) \<Rightarrow> (w1, Some (Some (Wrapf ''nodes not ready: '' err)))
           | Some None \<Rightarrow>
               (case initializeCluster (se_cli se) (se_rounds se) c w1 of
                  (w2, None) \<Rightarrow> (w2, None)
                | (w2, Some (Some err)) \<Rightarrow> (w2, Some (Some (Wrapf ''failed to initialize cluster: '' err)))
                | (w2, Some None) \<Rightarrow>
                    (case se_pingErr se of
                       Some err \<Rightarrow> (w2, Some (Some (Wrapf ''cluster client ping failed: '' err)))
                     | None \<Rightarrow> (upd_cluster c (\<lambda>tc. tc\<lparr>tc_clusterClient := Some (se_client se)\<rparr>) w2, Some None)))))"

definition StartCluster :: "start_env \<Rightarrow> int \<Rightarrow> int \<Rightarrow> string \<Rightarrow> testworld \<Rightarrow> (testworld \<times> (goerror + nat)) option" where
  "StartCluster se numShards replicasPerShard name w =
     (if numShards < 3 then Some (w, Inl (Errorf (''cluster requires at least 3 shards, got '' @ showInt numShards)))
      else if replicasPerShard < 0 then Some (w, Inl (Errorf (''replicasPerShard cannot be negative, got '' @ showInt replicasPerShard)))
      else (let numNodes = numShards * (1 + replicasPerShard);
                clusterName = (if name = [] then ''cluster-'' @ showInt (se_now se) else name)
        in case se_baseErr se of
             Some err \<Rightarrow> Some (w, Inl (Wrapf ''failed to create base test data directory: '' err))
           | None \<Rightarrow>
               (let w0 = w\<lparr>tw_fs := (tw_fs w)(''testdata'' \<mapsto> Directory)\<rparr>
                in case se_tempDir se of
                     Inl err \<Rightarrow> Some (w0, Inl (Wrapf ''failed to create test data directory: '' err))
                   | Inr testDataDir \<Rightarrow>
                       (let c = tw_next w0;
                            w1 = w0\<lparr>tw_next := Suc c, tw_fs := (tw_fs w0)(testDataDir \<mapsto> Directory),
                                    tw_clusters := (tw_clusters w0)(c := newTestCluster clusterName testDataDir numShards replicasPerShard)\<rparr>
                        in case bring_up se (nat numNodes) c w1 of
                             (w2, None) \<Rightarrow> None
                           | (w2, Some (Some err)) \<Rightarrow> Some (fst (StopCluster (se_stop se) c w2), Inl err)
                           | (w2, Some None) \<Rightarrow> Some (registerCluster (st_disk (se_stop se)) (se_probes se) c w2, Inr c)))))"

section \<open>Single nodes\<close>

text \<open>The search of \<open>StopNode\<close>, \<open>PauseNode\<close> and \<open>ResumeNode\<close>: the process of the first node that has the address
  and a process.\<close>

fun find_process :: "string \<Rightarrow> TestNode list \<Rightarrow> int option list \<Rightarrow> int option" where
  "find_process nodeAddr [] cmds = None"
| "find_process nodeAddr (node # nodes) cmds =
     (if tn_Address node = nodeAddr \<and> (case cmds of Some _ # _ \<Rightarrow> True | _ \<Rightarrow> False) then hd cmds
      else find_process nodeAddr nodes (tl cmds))"

definition node_process :: "string \<Rightarrow> TestCluster \<Rightarrow> goerror + int" where
  "node_process nodeAddr tc =
     (case find_process nodeAddr (tc_nodes tc) (tc_processes tc) of
        None \<Rightarrow> Inl (Errorf (''node '' @ nodeAddr @ '' not found''))
      | Some pid \<Rightarrow> Inr pid)"

definition StopNode :: "stop_env \<Rightarrow> string \<Rightarrow> nat \<Rightarrow> testworld \<Rightarrow> testworld \<times> goerror option" where
  "StopNode st nodeAddr c w =
     (case node_process nodeAddr (tw_clusters w c) of
        Inl err \<Rightarrow> (w, Some err)
      | Inr pid \<Rightarrow> (await_exit st pid (w\<lparr>tw_signals := tw_signals w @ [SIGTERM pid]\<rparr>), None))"

definition PauseNode :: "goerror option \<Rightarrow> string \<Rightarrow> nat \<Rightarrow> testworld \<Rightarrow> testworld \<times> goerror option" where
  "PauseNode sigErr nodeAddr c w =
     (case node_process nodeAddr (tw_clusters w c) of
        Inl err \<Rightarrow> (w, Some err)
      | Inr pid \<Rightarrow> (w\<lparr>tw_signals := tw_signals w @ [SIGSTOP pid]\<rparr>, sigErr))"

definition ResumeNode :: "goerror option \<Rightarrow> string \<Rightarrow> nat \<Rightarrow> testworld \<Rightarrow> testworld \<times> goerror option" where
  "ResumeNode sigErr nodeAddr c w =
     (case node_process nodeAddr (tw_clusters w c) of
        Inl err \<Rightarrow> (w, Some err)
      | Inr pid \<Rightarrow> (w\<lparr>tw_signals := tw_signals w @ [SIGCONT pid]\<rparr>, sigErr))"

section \<open>Helpers of tests\<close>

text \<open>The text that \<open>DumpProcessOutput\<close> writes.\<close>

definition dump_process :: "TestNode list \<Rightarrow> nat \<times> string \<Rightarrow> string" where
  "dump_process nodes = (\<lambda>(i, buf). if buf = [] then []
     else nl @ ''--- redis-server node '' @ showNat i @ '' ('' @ (if i < length nodes then tn_Address (nodes ! i) else ''unknown'')
       @ '') ---'' @ nl @ buf @ nl)"

definition DumpProcessOutput :: "TestCluster \<Rightarrow> string" where
  "DumpProcessOutput tc =
     nl @ ''=== Redis Cluster Output Dump: '' @ tc_name tc @ '' ==='' @ nl @
     (if tc_clusterInitOut tc \<noteq> [] then nl @ ''--- redis-cli --cluster create output ---'' @ nl @ tc_clusterInitOut tc @ nl else []) @
     concat (map (dump_process (tc_nodes tc)) (zip [0..<length (tc_processOutputs tc)] (tc_processOutputs tc))) @
     ''=== End Redis Cluster Output Dump ==='' @ nl @ nl"

definition setup_shape :: "int \<Rightarrow> int \<Rightarrow> int \<times> int" where
  "setup_shape numShards replicasPerShard =
     (let n = (if numShards = 0 then 3 else numShards)
      in (n, if replicasPerShard = 0 \<and> n = 3 then 2 else replicasPerShard))"

text \<open>\<open>None\<close> is a start that goes on; \<open>Inl\<close> is the message of \<open>t.Fatalf\<close>, with its error.\<close>

definition setupTestCluster ::
  "goerror option \<Rightarrow> goerror option \<Rightarrow> start_env \<Rightarrow> string \<Rightarrow> int \<Rightarrow> int \<Rightarrow> testworld \<Rightarrow> (testworld \<times> (goerror + nat)) option" where
  "setupTestCluster serverErr cliErr se testName numShards replicasPerShard w =
     (case serverErr of
        Some err \<Rightarrow> Some (w, Inl (Wrapf ''redis-server not found in PATH: '' err))
      | None \<Rightarrow> (case cliErr of
          Some err \<Rightarrow> Some (w, Inl (Wrapf ''redis-cli not found in PATH: '' err))
        | None \<Rightarrow>
            (let (n, r) = setup_shape numShards replicasPerShard;
                 clusterName = ''test-'' @ testName @ ''-'' @ showInt (se_now se)
             in case StartCluster se n r clusterName w of
                  None \<Rightarrow> None
                | Some (w', Inl err) \<Rightarrow> Some (w', Inl (Wrapf ''Failed to start test cluster: '' err))
                | Some (w', Inr c) \<Rightarrow> Some (w', Inr c))))"

section \<open>Lemmas\<close>

named_theorems cluster_simps

lemma upd_cluster_simps [simp]:
  "tw_clusters (upd_cluster c f w) = (tw_clusters w)(c := f (tw_clusters w c))"
  "tw_activeClusters (upd_cluster c f w) = tw_activeClusters w" "tw_next (upd_cluster c f w) = tw_next w"
  "tw_signalHandlerOnce (upd_cluster c f w) = tw_signalHandlerOnce w" "tw_cleanupOnce (upd_cluster c f w) = tw_cleanupOnce w"
  "tw_pids (upd_cluster c f w) = tw_pids w" "tw_allocatedPorts (upd_cluster c f w) = tw_allocatedPorts w"
  "tw_fs (upd_cluster c f w) = tw_fs w" "tw_running (upd_cluster c f w) = tw_running w"
  "tw_signals (upd_cluster c f w) = tw_signals w" "tw_closedClients (upd_cluster c f w) = tw_closedClients w"
  by (simp_all add: upd_cluster_def)

lemma under_refl [simp]: "fs_under dir dir"
  by (simp add: fs_under_def)

lemma under_append [simp]: "fs_under dir (dir @ CHR ''/'' # x)"
  by (simp add: fs_under_def prefix_def)

lemma under_trans: "fs_under a b \<Longrightarrow> fs_under b c \<Longrightarrow> fs_under a c"
  by (auto simp: fs_under_def prefix_def)

subsection \<open>Stopping\<close>

text \<open>The system does what is asked of it: files are written and removed, processes end when they are told to.\<close>

definition orderly :: "stop_env \<Rightarrow> bool" where
  "orderly st \<longleftrightarrow> reliable (st_disk st) \<and> (\<forall>dir. st_removes st dir) \<and> (\<forall>pid. st_term st pid = None \<and> st_exit st pid \<noteq> Survives)"

definition same_but_processes :: "testworld \<Rightarrow> testworld \<Rightarrow> bool" where
  "same_but_processes w w' \<longleftrightarrow> tw_activeClusters w' = tw_activeClusters w \<and> tw_clusters w' = tw_clusters w \<and> tw_next w' = tw_next w
     \<and> tw_signalHandlerOnce w' = tw_signalHandlerOnce w \<and> tw_cleanupOnce w' = tw_cleanupOnce w
     \<and> tw_allocatedPorts w' = tw_allocatedPorts w \<and> tw_fs w' = tw_fs w \<and> tw_closedClients w' = tw_closedClients w"

lemma stop_process_frame: "same_but_processes w (stop_process st pid w)"
  by (simp add: same_but_processes_def stop_process_def await_exit_def drop_pid_def Let_def split: option.split exit_answer.split)

lemma stop_process_pids: "tw_pids (stop_process st pid w) = removePid (st_disk st) pid (tw_pids w)"
  by (simp add: stop_process_def await_exit_def drop_pid_def Let_def split: option.split exit_answer.split)

lemma stop_process_running:
  "tw_running (stop_process st pid w) =
     (if st_term st pid = None \<and> st_exit st pid \<noteq> Survives then tw_running w - {pid} else tw_running w)"
  by (simp add: stop_process_def await_exit_def drop_pid_def Let_def split: option.split exit_answer.split)

lemma stop_processes_Nil [simp]: "stop_processes st [] w = w"
  by (simp add: stop_processes_def)

lemma stop_processes_Cons [simp]:
  "stop_processes st (Some pid # cmds) w = stop_processes st cmds (stop_process st pid w)"
  "stop_processes st (None # cmds) w = stop_processes st cmds w"
  by (simp_all add: stop_processes_def)

lemma stop_processes_effect:
  "same_but_processes w (stop_processes st (map Some pids) w)
   \<and> tw_pids (stop_processes st (map Some pids) w) = fold (removePid (st_disk st)) pids (tw_pids w)
   \<and> (orderly st \<longrightarrow> tw_running (stop_processes st (map Some pids) w) = tw_running w - set pids)"
proof (induction pids arbitrary: w)
  case Nil
  then show ?case by (simp add: same_but_processes_def)
next
  case (Cons pid pids)
  show ?case using Cons.IH [of "stop_process st pid w"] stop_process_frame [of w st pid]
    by (auto simp: stop_process_pids stop_process_running same_but_processes_def orderly_def)
qed

lemma release_all: "fold (\<lambda>node. releasePort (tn_Port node)) nodes ports = ports - (\<Union>n \<in> set nodes. pair_of (tn_Port n))"
  by (induction nodes arbitrary: ports) (auto simp: releasePort_pair)

lemma removeAll_eq: "os_RemoveAll ok dir w = w\<lparr>tw_fs := (\<lambda>p. if ok dir \<and> fs_under dir p then None else tw_fs w p)\<rparr>"
  by (simp add: os_RemoveAll_def)

lemma removeAll_dirs:
  "fold (os_RemoveAll ok) dirs w = w\<lparr>tw_fs := (\<lambda>p. if \<exists>dir \<in> set dirs. ok dir \<and> fs_under dir p then None else tw_fs w p)\<rparr>"
  by (induction dirs arbitrary: w) (auto simp: removeAll_eq fun_eq_iff intro!: arg_cong [where f = "\<lambda>f. tw_fs_update (\<lambda>_. f) w" for w] cong: if_cong)

lemma remove_dirs_frame [simp]:
  "tw_activeClusters (remove_dirs st tc w) = tw_activeClusters w" "tw_clusters (remove_dirs st tc w) = tw_clusters w"
  "tw_next (remove_dirs st tc w) = tw_next w" "tw_signalHandlerOnce (remove_dirs st tc w) = tw_signalHandlerOnce w"
  "tw_pids (remove_dirs st tc w) = tw_pids w" "tw_allocatedPorts (remove_dirs st tc w) = tw_allocatedPorts w"
  "tw_running (remove_dirs st tc w) = tw_running w" "tw_closedClients (remove_dirs st tc w) = tw_closedClients w"
  by (simp_all add: remove_dirs_def removeAll_dirs removeAll_eq Let_def)

text \<open>If all directories are below the test data directory, what is left is what is not below it.\<close>

lemma remove_dirs_effect:
  assumes "\<And>dir. st_removes st dir" and "\<forall>dir \<in> set (tc_dataDirs tc). fs_under (tc_testDataDir tc) dir" and "tc_testDataDir tc \<noteq> []"
  shows "remove_dirs st tc w = w\<lparr>tw_fs := (\<lambda>p. if fs_under (tc_testDataDir tc) p then None else tw_fs w p)\<rparr>"
proof -
  have "\<not> (\<exists>dir \<in> set (tc_dataDirs tc). fs_under dir p)" if "\<not> fs_under (tc_testDataDir tc) p" for p
    using assms(2) that under_trans by blast
  then show ?thesis using assms(1,3)
    by (auto simp: remove_dirs_def removeAll_dirs removeAll_eq fun_eq_iff intro!: arg_cong [where f = "\<lambda>f. tw_fs_update (\<lambda>_. f) w"] cong: if_cong)
qed

lemma no_client: "tc_clusterClient tc = None \<Longrightarrow> tc\<lparr>tc_clusterClient := None\<rparr> = tc"
  by (cases tc) simp

lemma StopCluster_effect:
  assumes "StopCluster st c w = (w', err)" and "tc_processes (tw_clusters w c) = map Some pids"
  shows "tw_allocatedPorts w' = tw_allocatedPorts w - (\<Union>n \<in> set (tc_nodes (tw_clusters w c)). pair_of (tn_Port n))"
    and "tw_pids w' = fold (removePid (st_disk st)) pids (tw_pids w)"
    and "orderly st \<Longrightarrow> tw_running w' = tw_running w - set pids"
    and "tw_activeClusters w' = filter (\<lambda>d. d \<noteq> c) (tw_activeClusters w)"
    and "tw_clusters w' = (tw_clusters w)(c := (tw_clusters w c)\<lparr>tc_clusterClient := None, tc_processes := []\<rparr>)"
    and "tw_next w' = tw_next w" and "tw_signalHandlerOnce w' = tw_signalHandlerOnce w"
    and "tw_closedClients w' = tw_closedClients w @ (case tc_clusterClient (tw_clusters w c) of None \<Rightarrow> [] | Some cl \<Rightarrow> [cl])"
    and "orderly st \<Longrightarrow> \<forall>dir \<in> set (tc_dataDirs (tw_clusters w c)). fs_under (tc_testDataDir (tw_clusters w c)) dir \<Longrightarrow>
      tc_testDataDir (tw_clusters w c) \<noteq> [] \<Longrightarrow>
      tw_fs w' = (\<lambda>p. if fs_under (tc_testDataDir (tw_clusters w c)) p then None else tw_fs w p)"
proof -
  obtain w1 e where w1: "close_cluster_client st c w = (w1, e)" by (metis prod.collapse)
  have c1: "w1 = w\<lparr>tw_clusters := (tw_clusters w)(c := (tw_clusters w c)\<lparr>tc_clusterClient := None\<rparr>),
      tw_closedClients := tw_closedClients w @ (case tc_clusterClient (tw_clusters w c) of None \<Rightarrow> [] | Some cl \<Rightarrow> [cl])\<rparr>"
    using w1 by (auto simp: close_cluster_client_def upd_cluster_def no_client split: option.splits)
  have pr: "tc_processes (tw_clusters w1 c) = map Some pids" by (simp add: c1 assms(2))
  define w2 where "w2 = stop_processes st (map Some pids) w1"
  note eff = stop_processes_effect [of w1 st pids, folded w2_def, unfolded same_but_processes_def]
  have ports: "tc_nodes (tw_clusters w2 c) = tc_nodes (tw_clusters w c)" using eff by (simp add: c1)
  define w4 where "w4 = upd_cluster c (\<lambda>tc. tc\<lparr>tc_processes := []\<rparr>) (release_ports (tc_nodes (tw_clusters w c)) w2)"
  have w': "w' = unregisterCluster c (remove_dirs st (tw_clusters w4 c) w4)"
    using assms(1) pr by (simp add: StopCluster_def w1 w4_def Let_def ports flip: w2_def)
  have u: "tw_allocatedPorts w' = tw_allocatedPorts w4" "tw_pids w' = tw_pids w4" "tw_running w' = tw_running w4"
    "tw_activeClusters w' = filter (\<lambda>d. d \<noteq> c) (tw_activeClusters w4)" "tw_clusters w' = tw_clusters w4" "tw_next w' = tw_next w4"
    "tw_signalHandlerOnce w' = tw_signalHandlerOnce w4" "tw_closedClients w' = tw_closedClients w4" "tw_fs w' = tw_fs (remove_dirs st (tw_clusters w4 c) w4)"
    by (simp_all add: w' unregisterCluster_def)
  show "tw_allocatedPorts w' = tw_allocatedPorts w - (\<Union>n \<in> set (tc_nodes (tw_clusters w c)). pair_of (tn_Port n))"
    "tw_pids w' = fold (removePid (st_disk st)) pids (tw_pids w)" "orderly st \<Longrightarrow> tw_running w' = tw_running w - set pids"
    "tw_activeClusters w' = filter (\<lambda>d. d \<noteq> c) (tw_activeClusters w)" "tw_next w' = tw_next w" "tw_signalHandlerOnce w' = tw_signalHandlerOnce w"
    "tw_closedClients w' = tw_closedClients w @ (case tc_clusterClient (tw_clusters w c) of None \<Rightarrow> [] | Some cl \<Rightarrow> [cl])"
    "tw_clusters w' = (tw_clusters w)(c := (tw_clusters w c)\<lparr>tc_clusterClient := None, tc_processes := []\<rparr>)"
    using eff by (auto simp: u w4_def release_ports_def release_all c1)
  assume o: "orderly st" and d: "\<forall>dir \<in> set (tc_dataDirs (tw_clusters w c)). fs_under (tc_testDataDir (tw_clusters w c)) dir"
    and t: "tc_testDataDir (tw_clusters w c) \<noteq> []"
  have tc: "tw_clusters w4 c = (tw_clusters w c)\<lparr>tc_clusterClient := None, tc_processes := []\<rparr>"
    using eff by (simp add: w4_def release_ports_def c1)
  have fs: "tw_fs w4 = tw_fs w" using eff by (simp add: w4_def release_ports_def c1)
  have "remove_dirs st (tw_clusters w4 c) w4 =
      w4\<lparr>tw_fs := (\<lambda>p. if fs_under (tc_testDataDir (tw_clusters w4 c)) p then None else tw_fs w4 p)\<rparr>"
    using o d t by (intro remove_dirs_effect) (simp_all add: orderly_def tc)
  then show "tw_fs w' = (\<lambda>p. if fs_under (tc_testDataDir (tw_clusters w c)) p then None else tw_fs w p)"
    by (simp add: u tc fs cong: if_cong)
qed

subsection \<open>Starting\<close>

text \<open>What holds while \<open>StartCluster\<close>, begun in \<open>w0\<close> with the processes \<open>ps\<close> on file, brings up cluster \<open>c\<close>: the ports,
  processes (\<open>pids\<close>, of which \<open>qs\<close> are recorded) and directories that are there in addition are those of \<open>c\<close>.\<close>

definition own_ports :: "nat set \<Rightarrow> TestNode list \<Rightarrow> bool" where
  "own_ports before nodes \<longleftrightarrow> disjoint_pairs (map tn_Port nodes)
     \<and> (\<forall>n \<in> set nodes. pair_of (tn_Port n) \<inter> before = {} \<and> minPort \<le> tn_Port n \<and> tn_Port n \<le> maxPort
         \<and> tn_Address n = ''127.0.0.1:'' @ showNat (tn_Port n))"

definition starting :: "testworld \<Rightarrow> int list \<Rightarrow> nat \<Rightarrow> int list \<Rightarrow> int list \<Rightarrow> testworld \<Rightarrow> bool" where
  "starting w0 ps c pids qs w \<longleftrightarrow>
     tw_activeClusters w = tw_activeClusters w0 \<and> tw_next w = tw_next w0 \<and> tw_signalHandlerOnce w = tw_signalHandlerOnce w0
     \<and> (\<forall>d. d \<noteq> c \<longrightarrow> tw_clusters w d = tw_clusters w0 d) \<and> tw_closedClients w = tw_closedClients w0
     \<and> tc_testDataDir (tw_clusters w c) = tc_testDataDir (tw_clusters w0 c)
     \<and> (\<forall>dir \<in> set (tc_dataDirs (tw_clusters w c)). fs_under (tc_testDataDir (tw_clusters w0 c)) dir)
     \<and> (\<forall>p. \<not> fs_under (tc_testDataDir (tw_clusters w0 c)) p \<longrightarrow> tw_fs w p = tw_fs w0 p)
     \<and> own_ports (tw_allocatedPorts w0) (tc_nodes (tw_clusters w c))
     \<and> tw_allocatedPorts w = tw_allocatedPorts w0 \<union> (\<Union>n \<in> set (tc_nodes (tw_clusters w c)). pair_of (tn_Port n))
     \<and> tc_processes (tw_clusters w c) = map Some pids \<and> tw_running w = tw_running w0 \<union> set pids
     \<and> tw_pids w = pid_file (ps @ qs) \<and> set qs \<subseteq> set pids"

lemma own_ports_snoc:
  assumes "own_ports before nodes" and "pair_of port \<inter> (before \<union> (\<Union>n \<in> set nodes. pair_of (tn_Port n))) = {}"
    and "minPort \<le> port" and "port \<le> maxPort"
  shows "own_ports before (nodes @ [node_at i port])"
proof -
  have "pair_of (tn_Port n) \<inter> pair_of port = {}" if "n \<in> set nodes" for n using assms(2) that by blast
  then have "disjoint_pairs (map tn_Port nodes @ [port])"
    using assms(1) by (auto simp: own_ports_def disjoint_pairs_def sorted_wrt_append)
  then show ?thesis using assms by (auto simp: own_ports_def node_at_def Int_Un_distrib)
qed

lemma node_prepare_port:
  assumes "node_prepare ne i c w = (w', err)" and "findAvailablePort (ne_seed ne) (ne_listens ne) (tw_allocatedPorts w) = Inr (ports, port)"
  shows "\<exists>dirs fs. w' = w\<lparr>tw_allocatedPorts := ports, tw_fs := fs, tw_clusters := (tw_clusters w)(c := (tw_clusters w c)
        \<lparr>tc_nodes := tc_nodes (tw_clusters w c) @ [node_at i port], tc_dataDirs := tc_dataDirs (tw_clusters w c) @ dirs\<rparr>)\<rparr>
      \<and> set dirs \<subseteq> {data_dir (tw_clusters w c) i}
      \<and> (\<forall>p. p \<noteq> data_dir (tw_clusters w c) i \<longrightarrow> p \<noteq> data_dir (tw_clusters w c) i @ ''/redis.conf'' \<longrightarrow> fs p = tw_fs w p)"
proof -
  have d: "data_dir ((tw_clusters w c)\<lparr>tc_nodes := ns\<rparr>) i = data_dir (tw_clusters w c) i" for ns by (simp add: data_dir_def)
  let ?dir = "data_dir (tw_clusters w c) i"
  consider (mkdir) e where "ne_mkdirErr ne = Some e" | (conf) e where "ne_mkdirErr ne = None" "ne_writeErr ne = Some e"
    | (ok) "ne_mkdirErr ne = None" "ne_writeErr ne = None" by (cases "ne_mkdirErr ne"; cases "ne_writeErr ne") auto
  then show ?thesis
  proof cases
    case mkdir
    then show ?thesis using assms by (intro exI [of _ "[]"] exI [of _ "tw_fs w"]) (auto simp: node_prepare_def Let_def upd_cluster_def)
  next
    case conf
    then show ?thesis using assms
      by (intro exI [of _ "[?dir]"] exI [of _ "(tw_fs w)(?dir \<mapsto> Directory)"]) (auto simp: node_prepare_def Let_def upd_cluster_def d)
  next
    case ok
    then show ?thesis using assms
      by (intro exI [of _ "[?dir]"] exI [of _ "(tw_fs w)(?dir \<mapsto> Directory, ?dir @ ''/redis.conf'' \<mapsto> File (redis_conf port ?dir))"])
        (auto simp: node_prepare_def Let_def upd_cluster_def d)
  qed
qed

lemma data_dir_under: "fs_under (tc_testDataDir tc) (data_dir tc i)" "fs_under (tc_testDataDir tc) (data_dir tc i @ ''/redis.conf'')"
  by (simp_all add: data_dir_def fs_under_def prefix_def)

lemma starting_prepare:
  assumes "starting w0 ps c pids qs w" and "node_prepare ne i c w = (w', err)"
  shows "starting w0 ps c pids qs w'
    \<and> (err = None \<longrightarrow> (\<exists>port. tc_nodes (tw_clusters w' c) = tc_nodes (tw_clusters w c) @ [node_at i port]))"
proof (cases "findAvailablePort (ne_seed ne) (ne_listens ne) (tw_allocatedPorts w)")
  case (Inl e)
  then show ?thesis using assms by (auto simp: node_prepare_def)
next
  case (Inr x)
  obtain ports port where x: "x = (ports, port)" by (cases x)
  note p = findAvailablePort_sound [OF Inr [unfolded x]]
  have own: "own_ports (tw_allocatedPorts w0) (tc_nodes (tw_clusters w c) @ [node_at i port])"
    using assms(1) p by (intro own_ports_snoc) (simp_all add: starting_def)
  have al: "ports = tw_allocatedPorts w0 \<union> (\<Union>n \<in> set (tc_nodes (tw_clusters w c) @ [node_at i port]). pair_of (tn_Port n))"
    using assms(1) p(2) by (auto simp: starting_def node_at_def)
  from node_prepare_port [OF assms(2) Inr [unfolded x]] obtain dirs fs where
    w': "w' = w\<lparr>tw_allocatedPorts := ports, tw_fs := fs, tw_clusters := (tw_clusters w)(c := (tw_clusters w c)
        \<lparr>tc_nodes := tc_nodes (tw_clusters w c) @ [node_at i port], tc_dataDirs := tc_dataDirs (tw_clusters w c) @ dirs\<rparr>)\<rparr>"
    and dirs: "set dirs \<subseteq> {data_dir (tw_clusters w c) i}"
    and fs: "\<forall>p. p \<noteq> data_dir (tw_clusters w c) i \<longrightarrow> p \<noteq> data_dir (tw_clusters w c) i @ ''/redis.conf'' \<longrightarrow> fs p = tw_fs w p" by blast
  have t: "tc_testDataDir (tw_clusters w c) = tc_testDataDir (tw_clusters w0 c)" using assms(1) by (simp add: starting_def)
  note under = data_dir_under [of "tw_clusters w c" i, unfolded t]
  have "fs p = tw_fs w p" if "\<not> fs_under (tc_testDataDir (tw_clusters w0 c)) p" for p
    using fs under that by metis
  then show ?thesis using assms(1) own al dirs under(1) by (auto simp: starting_def w')
qed

lemma starting_node:
  assumes "starting w0 ps c pids qs w" and "start_node ne i c w = (w', err)" and "ne_short ne = None"
  shows "\<exists>pids' qs'. starting w0 ps c (pids @ pids') (qs @ qs') w' \<and> set pids' \<subseteq> {pid. ne_start ne = Inr pid}
    \<and> (err = None \<longrightarrow> length (tc_nodes (tw_clusters w' c)) = Suc (length (tc_nodes (tw_clusters w c)))
        \<and> length pids' = 1 \<and> (ne_openErr ne = None \<longrightarrow> qs' = pids'))"
proof -
  obtain w1 e1 where w1: "node_prepare ne i c w = (w1, e1)" by (metis prod.collapse)
  note s1 = starting_prepare [OF assms(1) w1]
  show ?thesis
  proof (cases "\<exists>pid. e1 = None \<and> ne_start ne = Inr pid")
    case True
    then obtain pid where pid: "e1 = None" "ne_start ne = Inr pid" by blast
    let ?v = "w1\<lparr>tw_running := insert pid (tw_running w1)\<rparr>"
    have w': "w' = node_track ne pid c ?v" "err = None" using assms(2) w1 pid by (auto simp: start_node_def node_launch_def)
    have "starting w0 ps c (pids @ [pid]) (qs @ (if ne_openErr ne = None then [pid] else [])) w'"
      using s1 record_pid_file [of pid "ps @ qs"] assms(3)
      by (auto simp: w'(1) node_track_def starting_def recordPid_def split: option.split)
    moreover have "tc_nodes (tw_clusters w' c) = tc_nodes (tw_clusters w1 c)" by (simp add: w'(1) node_track_def)
    ultimately show ?thesis using s1 pid by (intro exI [of _ "[pid]"] exI [of _ "if ne_openErr ne = None then [pid] else []"]) auto
  next
    case False
    then have "w' = w1" "err \<noteq> None" using assms(2) w1 by (auto simp: start_node_def node_launch_def split: option.splits sum.splits)
    with s1 show ?thesis by (intro exI [of _ "[]"]) simp
  qed
qed

lemma starting_nodes:
  assumes "starting w0 ps c pids qs w" and "start_nodes nes is c w = (w', err)" and "\<And>i. ne_short (nes i) = None"
  shows "\<exists>pids' qs'. starting w0 ps c (pids @ pids') (qs @ qs') w' \<and> set pids' \<subseteq> {pid. \<exists>i. ne_start (nes i) = Inr pid}
    \<and> (err = None \<longrightarrow> length (tc_nodes (tw_clusters w' c)) = length (tc_nodes (tw_clusters w c)) + length is
        \<and> length pids' = length is \<and> ((\<forall>i. ne_openErr (nes i) = None) \<longrightarrow> qs' = pids'))"
  using assms(1,2)
proof (induction "is" arbitrary: pids qs w)
  case Nil
  then show ?case by (intro exI [of _ "[]"]) simp
next
  case (Cons i "is")
  obtain w1 e1 where w1: "start_node (nes i) i c w = (w1, e1)" by (metis prod.collapse)
  from starting_node [OF Cons.prems(1) w1 assms(3)] obtain p1 q1 where
    s1: "starting w0 ps c (pids @ p1) (qs @ q1) w1" "set p1 \<subseteq> {pid. ne_start (nes i) = Inr pid}"
    and l1: "e1 = None \<longrightarrow> length (tc_nodes (tw_clusters w1 c)) = Suc (length (tc_nodes (tw_clusters w c)))
      \<and> length p1 = 1 \<and> (ne_openErr (nes i) = None \<longrightarrow> q1 = p1)" by (elim exE conjE) assumption
  show ?case
  proof (cases e1)
    case (Some e)
    then show ?thesis using Cons.prems(2) w1 s1 by (intro exI [of _ p1] exI [of _ q1]) auto
  next
    case None
    then have "start_nodes nes is c w1 = (w', err)" using Cons.prems(2) w1 by simp
    from Cons.IH [OF s1(1) this] obtain p2 q2 where
      "starting w0 ps c ((pids @ p1) @ p2) ((qs @ q1) @ q2) w'" "set p2 \<subseteq> {pid. \<exists>i. ne_start (nes i) = Inr pid}"
      "err = None \<longrightarrow> length (tc_nodes (tw_clusters w' c)) = length (tc_nodes (tw_clusters w1 c)) + length is
        \<and> length p2 = length is \<and> ((\<forall>i. ne_openErr (nes i) = None) \<longrightarrow> q2 = p2)" by blast
    with s1(2) l1 None show ?thesis by (intro exI [of _ "p1 @ p2"] exI [of _ "q1 @ q2"]) auto
  qed
qed

lemma starting_own_fields:
  assumes "starting w0 ps c pids qs w"
  shows "starting w0 ps c pids qs (upd_cluster c (\<lambda>tc. tc\<lparr>tc_clusterInitOut := out\<rparr>) w)"
    and "starting w0 ps c pids qs (upd_cluster c (\<lambda>tc. tc\<lparr>tc_clusterClient := cl\<rparr>) w)"
  using assms by (simp_all add: starting_def)

lemma initializeCluster_world:
  "initializeCluster cli rounds c w = (w', res) \<Longrightarrow> w' = upd_cluster c (\<lambda>tc. tc\<lparr>tc_clusterInitOut := fst (snd cli)\<rparr>) w"
  by (auto simp: initializeCluster_def Let_def split: option.splits prod.splits)

text \<open>The state of \<open>bring_up\<close> at its end, and that a success means all its parts have succeeded.\<close>

lemma starting_bring_up:
  assumes "starting w0 ps c [] [] w" and "bring_up se n c w = (w', res)" and "\<And>i. ne_short (se_nodes se i) = None"
    and "tc_nodes (tw_clusters w c) = []"
  shows "\<exists>pids qs. starting w0 ps c pids qs w' \<and> set pids \<subseteq> {pid. \<exists>i. ne_start (se_nodes se i) = Inr pid}
    \<and> (res = Some None \<longrightarrow> length (tc_nodes (tw_clusters w' c)) = n \<and> length pids = n \<and> tc_clusterClient (tw_clusters w' c) = Some (se_client se)
        \<and> waitForNodesReady (tc_nodes (tw_clusters w' c)) (se_polls se) (se_order se) = Some None
        \<and> ((\<forall>i. ne_openErr (se_nodes se i) = None) \<longrightarrow> qs = pids))"
proof -
  obtain w1 e1 where w1: "start_nodes (se_nodes se) [0..<n] c w = (w1, e1)" by (metis prod.collapse)
  from starting_nodes [OF assms(1) w1 assms(3)] obtain pids qs where
    s1: "starting w0 ps c pids qs w1" "set pids \<subseteq> {pid. \<exists>i. ne_start (se_nodes se i) = Inr pid}"
    and l1: "e1 = None \<longrightarrow> length (tc_nodes (tw_clusters w1 c)) = n \<and> length pids = n
      \<and> ((\<forall>i. ne_openErr (se_nodes se i) = None) \<longrightarrow> qs = pids)" by (simp add: assms(4)) blast
  obtain w2 r2 where w2: "initializeCluster (se_cli se) (se_rounds se) c w1 = (w2, r2)" by (metis prod.collapse)
  note w2' = initializeCluster_world [OF w2]
  have cases: "w' = w1 \<and> res \<noteq> Some None \<or> w' = w2 \<and> res \<noteq> Some None
      \<or> w' = upd_cluster c (\<lambda>tc. tc\<lparr>tc_clusterClient := Some (se_client se)\<rparr>) w2 \<and> e1 = None
        \<and> waitForNodesReady (tc_nodes (tw_clusters w1 c)) (se_polls se) (se_order se) = Some None"
    using assms(2) w1 w2 by (auto simp: bring_up_def split: option.splits)
  have "starting w0 ps c pids qs w2" using starting_own_fields(1) [OF s1(1)] w2' by simp
  with starting_own_fields(2) s1 l1 w2' cases show ?thesis by (intro exI [of _ pids] exI [of _ qs]) auto
qed

text \<open>The system hands out what is not in use: process numbers that are neither running nor on file, and a
  new directory below \<open>testdata\<close>. It never cuts off a line of the PID file.\<close>

definition fresh_answers :: "start_env \<Rightarrow> int list \<Rightarrow> testworld \<Rightarrow> bool" where
  "fresh_answers se ps w \<longleftrightarrow> tw_pids w = pid_file ps \<and> (\<forall>i. ne_short (se_nodes se i) = None)
     \<and> (\<forall>i pid. ne_start (se_nodes se i) = Inr pid \<longrightarrow> pid \<notin> tw_running w \<and> pid \<notin> set ps)
     \<and> (\<forall>dir. se_tempDir se = Inr dir \<longrightarrow> prefix ''testdata/'' dir \<and> (\<forall>p. fs_under dir p \<longrightarrow> tw_fs w p = None))"

lemma not_under_parent: "prefix ''testdata/'' dir \<Longrightarrow> \<not> fs_under dir ''testdata''"
  by (auto simp: fs_under_def prefix_def)

lemma StopCluster_undoes:
  assumes "starting w0 ps c pids qs w" and "orderly st" and "StopCluster st c w = (w', err)"
    and "set pids \<inter> (tw_running w0 \<union> set ps) = {}" and "tc_testDataDir (tw_clusters w0 c) \<noteq> []"
  shows "tw_allocatedPorts w' = tw_allocatedPorts w0" and "tw_running w' = tw_running w0" and "tw_pids w' = pid_file ps"
    and "tw_activeClusters w' = filter (\<lambda>d. d \<noteq> c) (tw_activeClusters w0)" and "d \<noteq> c \<Longrightarrow> tw_clusters w' d = tw_clusters w0 d"
    and "tw_fs w' = (\<lambda>p. if fs_under (tc_testDataDir (tw_clusters w0 c)) p then None else tw_fs w0 p)"
proof -
  have p: "tc_processes (tw_clusters w c) = map Some pids" using assms(1) by (simp add: starting_def)
  note e = StopCluster_effect [OF assms(3) p]
  have "filter (\<lambda>p. p \<notin> set pids) ps = ps" using assms(4) by (intro filter_True) blast
  moreover have "filter (\<lambda>p. p \<notin> set pids) qs = []" using assms(1) by (auto simp: starting_def filter_empty_conv)
  ultimately have pids: "filter (\<lambda>p. p \<notin> set pids) (ps @ qs) = ps" by simp
  show "tw_allocatedPorts w' = tw_allocatedPorts w0"
    using e(1) assms(1) by (auto simp: starting_def own_ports_def)
  show "tw_running w' = tw_running w0" using e(3) assms(1,2,4) by (auto simp: starting_def)
  show "tw_pids w' = pid_file ps"
    using e(2) assms(1,2) remove_all_pids [of "st_disk st" pids "ps @ qs"] pids by (simp add: starting_def orderly_def)
  show "tw_activeClusters w' = filter (\<lambda>d. d \<noteq> c) (tw_activeClusters w0)" "d \<noteq> c \<Longrightarrow> tw_clusters w' d = tw_clusters w0 d"
    using e(4,5) assms(1) by (simp_all add: starting_def)
  have "tw_fs w' = (\<lambda>p. if fs_under (tc_testDataDir (tw_clusters w c)) p then None else tw_fs w p)"
    using assms(1,5) by (intro e(9) [OF assms(2)]) (simp_all add: starting_def)
  then show "tw_fs w' = (\<lambda>p. if fs_under (tc_testDataDir (tw_clusters w0 c)) p then None else tw_fs w0 p)"
    using assms(1) by (auto simp: starting_def fun_eq_iff)
qed

text \<open>The wait for the nodes: a success takes a result of every goroutine, and each has had an answer.\<close>

lemma collect_ready_all: "collect_ready n rs = Some None \<Longrightarrow> n \<le> length rs \<and> (\<forall>r \<in> set (take n rs). r = None)"
  by (induction n rs rule: collect_ready.induct) auto

lemma node_ready_answered: "node_ready addr es = Some None \<Longrightarrow> \<exists>e. (True, e) \<in> set es"
  by (induction addr es rule: node_ready.induct) auto

lemma all_nodes_answered:
  assumes "waitForNodesReady nodes polls order = Some None" and "distinct order" and "set order \<subseteq> {0..<length nodes}"
    and "i < length nodes"
  shows "\<exists>e. (True, e) \<in> set (polls i)"
proof -
  let ?f = "\<lambda>i. node_ready (tn_Address (nodes ! i)) (polls i)" and ?rs = "List.map_filter (\<lambda>i. node_ready (tn_Address (nodes ! i)) (polls i)) order"
  have lo: "length order \<le> length nodes" using assms(2,3) by (metis card_atLeastLessThan card_mono diff_zero distinct_card finite_atLeastLessThan)
  have lr: "length ?rs \<le> length order" by (simp add: List.map_filter_def)
  note c = collect_ready_all [OF assms(1) [unfolded waitForNodesReady_def]]
  have len: "length order = length nodes" "length ?rs = length order" using c lo lr by auto
  have "set order = {0..<length nodes}" using assms(2,3) len(1) by (metis card_atLeastLessThan card_subset_eq diff_zero distinct_card finite_atLeastLessThan)
  then have i: "i \<in> set order" using assms(4) by simp
  have "length (filter (\<lambda>x. ?f x \<noteq> None) order) = length order"
    using len(2) by (simp add: List.map_filter_def)
  then have "?f i \<noteq> None" using i length_filter_less [of i order "\<lambda>x. ?f x \<noteq> None"] by auto
  then obtain r where r: "?f i = Some r" by blast
  then have "r \<in> set ?rs" using i by (force simp: List.map_filter_def)
  with c len have "r = None" by simp
  with r node_ready_answered show ?thesis by blast
qed

text \<open>The state in which the loop over the nodes begins.\<close>

lemma starting_begins:
  assumes "fresh_answers se ps w" and "se_tempDir se = Inr dir"
    and "w1 = w\<lparr>tw_next := Suc c, tw_fs := (tw_fs w)(''testdata'' \<mapsto> Directory, dir \<mapsto> Directory), tw_clusters := (tw_clusters w)(c := newTestCluster nm dir n r)\<rparr>"
  shows "starting w1 ps c [] [] w1"
  using assms by (simp add: starting_def fresh_answers_def newTestCluster_def own_ports_def disjoint_pairs_def)

lemma registered_once: "tw_signalHandlerOnce w \<Longrightarrow> registerCluster d probes c w = w\<lparr>tw_activeClusters := List.insert c (tw_activeClusters w)\<rparr>"
  by (simp add: registerCluster_def initSignalHandler_def)

text \<open>\<open>StartCluster\<close> either fails before it has changed anything but \<open>testdata\<close>, or runs \<open>bring_up\<close>.\<close>

lemma StartCluster_cases:
  assumes "StartCluster se n r name w = Some (w', res)"
  obtains (early) err where "res = Inl err" "w' = w \<or> w' = w\<lparr>tw_fs := (tw_fs w)(''testdata'' \<mapsto> Directory)\<rparr>"
  | (brought_up) dir nm w1 w2 out where "se_tempDir se = Inr dir" "3 \<le> n" "0 \<le> r"
    "w1 = w\<lparr>tw_next := Suc (tw_next w), tw_fs := (tw_fs w)(''testdata'' \<mapsto> Directory, dir \<mapsto> Directory),
       tw_clusters := (tw_clusters w)(tw_next w := newTestCluster nm dir n r)\<rparr>"
    "bring_up se (nat (n * (1 + r))) (tw_next w) w1 = (w2, Some out)"
    "case out of Some err \<Rightarrow> res = Inl err \<and> w' = fst (StopCluster (se_stop se) (tw_next w) w2)
       | None \<Rightarrow> res = Inr (tw_next w) \<and> w' = registerCluster (st_disk (se_stop se)) (se_probes se) (tw_next w) w2"
proof (cases "n < 3 \<or> r < 0 \<or> se_baseErr se \<noteq> None \<or> (\<exists>err. se_tempDir se = Inl err)")
  case True
  then show ?thesis using assms by (intro early [of "projl res"]) (auto simp: StartCluster_def Let_def split: if_splits option.splits sum.splits)
next
  case False
  then obtain dir where dir: "se_tempDir se = Inr dir" "3 \<le> n" "0 \<le> r" "se_baseErr se = None" by (cases "se_tempDir se") auto
  let ?nm = "if name = [] then ''cluster-'' @ showInt (se_now se) else name"
  let ?w1 = "w\<lparr>tw_next := Suc (tw_next w), tw_fs := (tw_fs w)(''testdata'' \<mapsto> Directory, dir \<mapsto> Directory),
     tw_clusters := (tw_clusters w)(tw_next w := newTestCluster ?nm dir n r)\<rparr>"
  obtain w2 ro where b: "bring_up se (nat (n * (1 + r))) (tw_next w) ?w1 = (w2, ro)" by (metis prod.collapse)
  with assms dir obtain out where "ro = Some out"
    "case out of Some err \<Rightarrow> res = Inl err \<and> w' = fst (StopCluster (se_stop se) (tw_next w) w2)
       | None \<Rightarrow> res = Inr (tw_next w) \<and> w' = registerCluster (st_disk (se_stop se)) (se_probes se) (tw_next w) w2"
    by (auto simp: StartCluster_def Let_def split: option.splits)
  with b dir show ?thesis by (intro brought_up [of dir ?w1 ?nm w2 out]) auto
qed

subsection \<open>An example\<close>

text \<open>A run with nothing in use, and answers with which all goes well.\<close>

definition empty_run :: testworld where
  "empty_run = \<lparr>tw_activeClusters = [], tw_clusters = (\<lambda>_. newTestCluster [] [] 0 0), tw_next = 0, tw_signalHandlerOnce = True,
     tw_cleanupOnce = False, tw_pids = None, tw_allocatedPorts = {}, tw_fs = (\<lambda>_. None), tw_running = {}, tw_signals = [], tw_closedClients = []\<rparr>"

definition good_stop :: stop_env where
  "good_stop = \<lparr>st_closeErr = None, st_term = (\<lambda>_. None), st_exit = (\<lambda>_. Exits), st_disk = \<lparr>dk_read = id, dk_write = id\<rparr>, st_removes = (\<lambda>_. True)\<rparr>"

definition good_node :: "nat \<Rightarrow> node_env" where
  "good_node i = \<lparr>ne_seed = Inr i, ne_listens = (\<lambda>_. True), ne_mkdirErr = None, ne_writeErr = None, ne_start = Inr (int i + 100),
     ne_output = [], ne_openErr = None, ne_short = None\<rparr>"

definition good_env :: start_env where
  "good_env = \<lparr>se_now = 0, se_baseErr = None, se_tempDir = Inr ''testdata/x-1'', se_nodes = good_node, se_polls = (\<lambda>_. [(True, None)]),
     se_order = [2, 0, 1], se_cli = (''redis-cli'', [], None), se_rounds = [\<lparr>ir_pings = (\<lambda>_. True), ir_info = Inr ''cluster_state:ok'', ir_ctxErr = None\<rparr>],
     se_client = 1, se_pingErr = None, se_stop = good_stop, se_probes = (\<lambda>_. \<lparr>pr_found = False, pr_alive = False, pr_comm = None, pr_survives = False\<rparr>)\<rparr>"

definition bad_env :: start_env where
  "bad_env = good_env\<lparr>se_nodes := (\<lambda>i. if i = 1 then (good_node 1)\<lparr>ne_start := Inl (Errorf ''no such file'')\<rparr> else good_node i)\<rparr>"

lemma good_stop_orderly: "orderly good_stop"
  by (simp add: orderly_def good_stop_def reliable_def)

lemma find_from_here:
  "off < portRange \<Longrightarrow> minPort + off \<notin> a \<Longrightarrow> minPort + off + 10000 \<notin> a \<Longrightarrow> find_from (\<lambda>_. True) off a 0 = Some (minPort + off)"
  by (subst find_from.simps) (simp add: portRange_def)

lemma find_good_port:
  "i < 3 \<Longrightarrow> 10000 + i \<notin> a \<Longrightarrow> 20000 + i \<notin> a \<Longrightarrow>
   findAvailablePort (Inr i) (\<lambda>_. True) a = Inr (insert (20000 + i) (insert (10000 + i) a), 10000 + i)"
  using find_from_here [of i a] by (simp add: findAvailablePort_def portRange_def minPort_def maxPort_def)

lemma good_answers: "fresh_answers good_env [] empty_run" "fresh_answers bad_env [] empty_run"
  by (auto simp: fresh_answers_def good_env_def bad_env_def good_node_def empty_run_def pid_file_def)

lemma good_start_node:
  assumes "i < 3" and "10000 + i \<notin> tw_allocatedPorts w" and "20000 + i \<notin> tw_allocatedPorts w"
  shows "\<exists>w'. start_node (good_node i) i c w = (w', None)
    \<and> tw_allocatedPorts w' = insert (20000 + i) (insert (10000 + i) (tw_allocatedPorts w))
    \<and> length (tc_nodes (tw_clusters w' c)) = Suc (length (tc_nodes (tw_clusters w c)))"
  using find_good_port [OF assms]
  by (simp add: start_node_def node_prepare_def node_launch_def node_track_def good_node_def Let_def)

lemma good_start_nodes:
  assumes "tw_allocatedPorts w = {}"
  shows "\<exists>w'. start_nodes good_node [0..<3] c w = (w', None) \<and> length (tc_nodes (tw_clusters w' c)) = 3 + length (tc_nodes (tw_clusters w c))"
proof -
  obtain w1 where w1: "start_node (good_node 0) 0 c w = (w1, None)" "tw_allocatedPorts w1 = {20000, 10000}"
    "length (tc_nodes (tw_clusters w1 c)) = Suc (length (tc_nodes (tw_clusters w c)))" using good_start_node [of 0 w c] assms by auto
  obtain w2 where w2: "start_node (good_node 1) 1 c w1 = (w2, None)" "tw_allocatedPorts w2 = {20001, 10001, 20000, 10000}"
    "length (tc_nodes (tw_clusters w2 c)) = Suc (length (tc_nodes (tw_clusters w1 c)))" using good_start_node [of 1 w1 c] w1 by auto
  obtain w3 where w3: "start_node (good_node 2) 2 c w2 = (w3, None)"
    "length (tc_nodes (tw_clusters w3 c)) = Suc (length (tc_nodes (tw_clusters w2 c)))" using good_start_node [of 2 w2 c] w2 by auto
  have "[0..<3] = [0, 1, 2 :: nat]" by (simp add: upt_rec)
  with w1 w2 w3 show ?thesis by simp
qed

lemma good_start: "\<exists>w'. StartCluster good_env 3 0 ''x'' empty_run = Some (w', Inr 0)"
proof -
  let ?w1 = "empty_run\<lparr>tw_next := Suc 0, tw_fs := (tw_fs empty_run)(''testdata'' \<mapsto> Directory, ''testdata/x-1'' \<mapsto> Directory),
     tw_clusters := (tw_clusters empty_run)(0 := newTestCluster ''x'' ''testdata/x-1'' 3 0)\<rparr>"
  obtain w2 where w2: "start_nodes good_node [0..<3] 0 ?w1 = (w2, None)" "length (tc_nodes (tw_clusters w2 0)) = 3"
    using good_start_nodes [of ?w1 0] by (auto simp: empty_run_def newTestCluster_def)
  have r: "waitForNodesReady (tc_nodes (tw_clusters w2 0)) (\<lambda>_. [(True, None)]) [2, 0, 1] = Some None"
    by (simp add: waitForNodesReady_def w2(2) List.map_filter_def numeral_3_eq_3)
  have "bring_up good_env 3 0 ?w1 = (upd_cluster 0 (\<lambda>tc. tc\<lparr>tc_clusterClient := Some 1\<rparr>) (upd_cluster 0 (\<lambda>tc. tc\<lparr>tc_clusterInitOut := []\<rparr>) w2), Some None)"
    using w2 r by (simp add: bring_up_def good_env_def initializeCluster_def Let_def list_all_iff)
  then show ?thesis by (simp add: StartCluster_def good_env_def empty_run_def Let_def)
qed

lemma bad_start: "\<exists>w' err. StartCluster bad_env 3 0 ''x'' empty_run = Some (w', Inl err)"
proof -
  have p: "start_node ((good_node 1)\<lparr>ne_start := Inl e\<rparr>) 1 c w = (w', err) \<Longrightarrow> \<exists>x. err = Some x" for c w w' e err
    by (auto simp: start_node_def node_launch_def split: prod.splits option.splits)
  have up: "[0..<3] = [0, 1, 2 :: nat]" by (simp add: upt_rec)
  have n: "se_nodes bad_env 0 = good_node 0" "se_nodes bad_env (Suc 0) = (good_node 1)\<lparr>ne_start := Inl (Errorf ''no such file'')\<rparr>"
    by (simp_all add: bad_env_def good_env_def)
  have fails: "\<exists>w' e. start_nodes (se_nodes bad_env) [0..<3] c w = (w', Some e)" for c w
  proof -
    obtain w1 e1 where w1: "start_node (good_node 0) 0 c w = (w1, e1)" by (metis prod.collapse)
    obtain w2 e2 where w2: "start_node ((good_node 1)\<lparr>ne_start := Inl (Errorf ''no such file'')\<rparr>) 1 c w1 = (w2, e2)" by (metis prod.collapse)
    from p [OF w2] w1 w2 show ?thesis by (cases e1) (auto simp: up n)
  qed
  have up: "\<exists>w' e. bring_up bad_env 3 c w = (w', Some (Some e))" for c w using fails [of c w] by (auto simp: bring_up_def)
  have "se_baseErr bad_env = None" "se_tempDir bad_env = Inr ''testdata/x-1''" by (simp_all add: bad_env_def good_env_def)
  then show ?thesis using up by (simp add: StartCluster_def Let_def split: prod.split option.split) (metis option.inject option.simps(3) prod.inject)
qed

section \<open>Where the helpers fall short\<close>

text \<open>A second \<open>StopCluster\<close> releases the ports of the nodes again, whoever holds them by then: the list of nodes
  is kept.\<close>

lemma second_stop_releases:
  assumes "StopCluster st c w = (w1, e1)" and "tc_processes (tw_clusters w c) = map Some pids"
    and "tw_clusters w2 c = tw_clusters w1 c" and "StopCluster st c w2 = (w3, e3)" and "n \<in> set (tc_nodes (tw_clusters w c))"
  shows "tn_Port n \<notin> tw_allocatedPorts w3"
proof -
  have "tc_nodes (tw_clusters w2 c) = tc_nodes (tw_clusters w c)" "tc_processes (tw_clusters w2 c) = map Some []"
    using StopCluster_effect(5) [OF assms(1,2)] assms(3) by simp_all
  with StopCluster_effect(1) [OF assms(4) this(2)] assms(5) show ?thesis by (auto simp: pair_of_def)
qed

text \<open>If the first cluster is registered before the signal handler is installed, the installation takes the
  cluster's own processes for orphans and ends them.\<close>

lemma first_registration_kills:
  assumes "\<not> tw_signalHandlerOnce w" and "reliable d" and "tw_pids w = pid_file ps" and "\<forall>p \<in> set ps. - (2 ^ 63) \<le> p \<and> p < 2 ^ 63"
    and "p \<in> set ps" and "probes p = \<lparr>pr_found = True, pr_alive = True, pr_comm = Some ''redis-server'', pr_survives = False\<rparr>"
  shows "p \<notin> tw_running (registerCluster d probes c w)"
proof -
  have "strings_TrimSpace ''redis-server'' = ''redis-server''" by (simp add: strings_TrimSpace_def isSpace_def)
  then have "SIGTERM p \<in> set (concat (map (\<lambda>p. check_orphan (probes p) p) ps))" using assms(5,6) by (force simp: check_orphan_def)
  then show ?thesis using assms(1,3) kill_orphans_of_file [OF assms(2,4), of probes]
    by (simp add: registerCluster_def initSignalHandler_def kill_orphans_def)
qed

text \<open>Three shards without replicas cannot be asked for, and any answer to CLUSTER INFO passes for a cluster
  that is ready.\<close>

lemma setup_adds_replicas: "setup_shape 3 0 = (3, 2)"
  by (simp add: setup_shape_def)

lemma failed_cluster_accepted:
  "init_rounds n [\<lparr>ir_pings = (\<lambda>_. True), ir_info = Inr ''cluster_state:fail'', ir_ctxErr = None\<rparr>] = Some None"
  by (simp add: list_all_iff)

section \<open>Properties\<close>

text \<open>C37. A start that fails undoes what it did, at whatever node and step it fails: the ports it took are free again,
  the processes it started have ended and are off the PID file, its directories are gone, and the registry
  and all other clusters are as before. (Hypotheses: the system hands out unused numbers and directories,
  and processes end when they are told to.)\<close>

theorem failed_start_undone:
  assumes "StartCluster se numShards replicasPerShard name w = Some (w', Inl err)" and "fresh_answers se ps w"
    and "orderly (se_stop se)" and "\<forall>d \<in> set (tw_activeClusters w). d < tw_next w"
  shows "tw_allocatedPorts w' = tw_allocatedPorts w \<and> tw_running w' = tw_running w \<and> tw_pids w' = tw_pids w
    \<and> tw_activeClusters w' = tw_activeClusters w \<and> (\<forall>d < tw_next w. tw_clusters w' d = tw_clusters w d)
    \<and> (\<forall>p. p \<noteq> ''testdata'' \<longrightarrow> tw_fs w' p = tw_fs w p)"
  using assms(1)
proof (cases rule: StartCluster_cases)
  case early
  then show ?thesis by auto
next
  case (brought_up dir nm w1 w2 out)
  let ?c = "tw_next w"
  have s: "starting w1 ps ?c [] [] w1" by (rule starting_begins [OF assms(2) brought_up(1,4)])
  have short: "\<And>i. ne_short (se_nodes se i) = None" using assms(2) by (simp add: fresh_answers_def)
  from starting_bring_up [OF s brought_up(5) short] obtain pids qs where
    s2: "starting w1 ps ?c pids qs w2" "set pids \<subseteq> {pid. \<exists>i. ne_start (se_nodes se i) = Inr pid}"
    by (auto simp: brought_up(4) newTestCluster_def)
  have "w' = fst (StopCluster (se_stop se) ?c w2)" using brought_up(6) by (cases out) auto
  then obtain e where stop: "StopCluster (se_stop se) ?c w2 = (w', e)" by (metis prod.collapse)
  have d: "tc_testDataDir (tw_clusters w1 ?c) = dir" by (simp add: brought_up(4) newTestCluster_def)
  have fresh: "set pids \<inter> (tw_running w1 \<union> set ps) = {}" "prefix ''testdata/'' dir" "\<And>p. fs_under dir p \<Longrightarrow> tw_fs w p = None"
    using s2(2) assms(2) brought_up(1) by (auto simp: fresh_answers_def brought_up(4))
  have ne: "tc_testDataDir (tw_clusters w1 ?c) \<noteq> []" using fresh(2) d by auto
  note u = StopCluster_undoes [OF s2(1) assms(3) stop fresh(1) ne, unfolded d]
  have "tw_activeClusters w' = tw_activeClusters w"
    using u(4) assms(4) by (auto simp: brought_up(4) intro!: filter_True)
  then show ?thesis using u(1-3,5,6) fresh(3) assms(2) by (auto simp: brought_up(4) fresh_answers_def)
qed

theorem failed_start_undone_witness:
  "\<exists>w' err. StartCluster bad_env 3 0 ''x'' empty_run = Some (w', Inl err)
    \<and> tw_allocatedPorts w' = {} \<and> tw_running w' = {} \<and> tw_pids w' = None \<and> tw_fs w' ''testdata/x-1/node-0'' = None"
proof -
  obtain w' err where s: "StartCluster bad_env 3 0 ''x'' empty_run = Some (w', Inl err)" using bad_start by blast
  have o: "orderly (se_stop bad_env)" using good_stop_orderly by (simp add: bad_env_def good_env_def)
  from failed_start_undone [OF s good_answers(2) o] s show ?thesis by (auto simp: empty_run_def)
qed

text \<open>C38. A start that succeeds has brought up a cluster of the size asked for: a process and a port pair of its own
  for every node, disjoint from each other and from all ports in use before, every process on the PID file,
  an answer from every node, and the cluster registered for the clean-up. Stopping it brings back the state
  from before the start. (The signal handler is installed, as \<open>TestMain\<close> does first.)\<close>

theorem started_cluster_sound:
  assumes "StartCluster se numShards replicasPerShard name w = Some (w', Inr c)" and "fresh_answers se ps w"
    and "tw_signalHandlerOnce w" and "\<forall>i. ne_openErr (se_nodes se i) = None"
    and "distinct (se_order se)" and "set (se_order se) \<subseteq> {0..<nat (numShards * (1 + replicasPerShard))}"
    and "orderly (se_stop se)" and "\<forall>d \<in> set (tw_activeClusters w). d < tw_next w"
    and "StopCluster (se_stop se) c w' = (w'', stopErr)"
  shows "3 \<le> numShards \<and> 0 \<le> replicasPerShard \<and> int (length (tc_nodes (tw_clusters w' c))) = numShards * (1 + replicasPerShard)
    \<and> own_ports (tw_allocatedPorts w) (tc_nodes (tw_clusters w' c))
    \<and> (\<exists>pids. tc_processes (tw_clusters w' c) = map Some pids \<and> length pids = length (tc_nodes (tw_clusters w' c))
        \<and> set pids \<subseteq> tw_running w' \<and> tw_pids w' = pid_file (ps @ pids))
    \<and> (\<forall>i < length (tc_nodes (tw_clusters w' c)). \<exists>e. (True, e) \<in> set (se_polls se i))
    \<and> c \<in> set (tw_activeClusters w') \<and> tc_clusterClient (tw_clusters w' c) = Some (se_client se)
    \<and> tw_allocatedPorts w'' = tw_allocatedPorts w \<and> tw_running w'' = tw_running w \<and> tw_pids w'' = tw_pids w
    \<and> tw_activeClusters w'' = tw_activeClusters w \<and> (\<forall>p. p \<noteq> ''testdata'' \<longrightarrow> tw_fs w'' p = tw_fs w p)"
  using assms(1)
proof (cases rule: StartCluster_cases)
  case (brought_up dir nm w1 w2 out)
  let ?n = "nat (numShards * (1 + replicasPerShard))"
  have c: "c = tw_next w" and out: "out = None" and w': "w' = registerCluster (st_disk (se_stop se)) (se_probes se) c w2"
    using brought_up(6) by (auto split: option.splits)
  have s: "starting w1 ps c [] [] w1" unfolding c by (rule starting_begins [OF assms(2) brought_up(1,4)])
  have short: "\<And>i. ne_short (se_nodes se i) = None" using assms(2) by (simp add: fresh_answers_def)
  have none: "tc_nodes (tw_clusters w1 c) = []" by (simp add: brought_up(4) newTestCluster_def c)
  from starting_bring_up [OF s brought_up(5) [folded c] short none] out assms(4) obtain pids where
    s2: "starting w1 ps c pids pids w2" "set pids \<subseteq> {pid. \<exists>i. ne_start (se_nodes se i) = Inr pid}"
    and l: "length (tc_nodes (tw_clusters w2 c)) = ?n" "length pids = ?n" "tc_clusterClient (tw_clusters w2 c) = Some (se_client se)"
      "waitForNodesReady (tc_nodes (tw_clusters w2 c)) (se_polls se) (se_order se) = Some None" by auto
  have "tw_signalHandlerOnce w2" using s2(1) assms(3) by (simp add: starting_def brought_up(4))
  then have r: "w' = w2\<lparr>tw_activeClusters := List.insert c (tw_activeClusters w2)\<rparr>" unfolding w' by (rule registered_once)
  have s3: "starting (w1\<lparr>tw_activeClusters := tw_activeClusters w'\<rparr>) ps c pids pids w'" using s2(1) by (simp add: starting_def r)
  have fresh: "set pids \<inter> (tw_running w \<union> set ps) = {}" "prefix ''testdata/'' dir" "\<And>p. fs_under dir p \<Longrightarrow> tw_fs w p = None"
    using s2(2) assms(2) brought_up(1) by (auto simp: fresh_answers_def)
  have d: "tc_testDataDir (tw_clusters w1 c) = dir" "dir \<noteq> []" using fresh(2) by (auto simp: brought_up(4) newTestCluster_def c)
  have u: "tw_allocatedPorts w'' = tw_allocatedPorts w" "tw_running w'' = tw_running w" "tw_pids w'' = pid_file ps"
    "tw_activeClusters w'' = filter (\<lambda>d. d \<noteq> c) (tw_activeClusters w')"
    "tw_fs w'' = (\<lambda>p. if fs_under dir p then None else tw_fs w1 p)"
    using StopCluster_undoes [OF s3 assms(7,9)] fresh(1) d by (simp_all add: brought_up(4) cong: if_cong)
  have active: "filter (\<lambda>d. d \<noteq> c) (tw_activeClusters w') = tw_activeClusters w"
    using assms(8) s2(1) by (auto simp: r starting_def brought_up(4) c List.insert_def intro!: filter_True)
  have fs: "\<forall>p. p \<noteq> ''testdata'' \<longrightarrow> tw_fs w'' p = tw_fs w p" using u(5) fresh(3) by (auto simp: brought_up(4))
  have polls: "\<forall>i < ?n. \<exists>e. (True, e) \<in> set (se_polls se i)" using all_nodes_answered [OF l(4) assms(5)] assms(6) l(1) by simp
  have own: "own_ports (tw_allocatedPorts w) (tc_nodes (tw_clusters w' c))" and cl: "tw_clusters w' = tw_clusters w2"
    using s2(1) by (simp_all add: starting_def r brought_up(4))
  have procs: "tc_processes (tw_clusters w' c) = map Some pids" "set pids \<subseteq> tw_running w'" "tw_pids w' = pid_file (ps @ pids)"
    using s3 by (auto simp: starting_def)
  have "tw_pids w = pid_file ps" "c \<in> set (tw_activeClusters w')" using assms(2) by (auto simp: fresh_answers_def r)
  then show ?thesis using brought_up(2,3) l(1-3) own procs polls u active fs by (intro conjI) (auto simp: cl)
qed auto

theorem started_cluster_sound_witness:
  "\<exists>w' w'' e. StartCluster good_env 3 0 ''x'' empty_run = Some (w', Inr 0) \<and> StopCluster good_stop 0 w' = (w'', e)
    \<and> length (tc_nodes (tw_clusters w' 0)) = 3 \<and> 0 \<in> set (tw_activeClusters w') \<and> tw_pids w'' = None \<and> tw_allocatedPorts w'' = {}"
proof -
  obtain w' where s: "StartCluster good_env 3 0 ''x'' empty_run = Some (w', Inr 0)" using good_start by blast
  obtain w'' e where t: "StopCluster good_stop 0 w' = (w'', e)" by (metis prod.collapse)
  have st: "se_stop good_env = good_stop" by (simp add: good_env_def)
  have o: "\<forall>i. ne_openErr (se_nodes good_env i) = None" "distinct (se_order good_env)" "set (se_order good_env) \<subseteq> {0..<nat (3 * (1 + 0))}"
    "tw_signalHandlerOnce empty_run" "\<forall>d \<in> set (tw_activeClusters empty_run). d < tw_next empty_run"
    by (simp_all add: good_env_def good_node_def empty_run_def)
  from started_cluster_sound [OF s good_answers(1) o(4,1-3) good_stop_orderly [folded st] o(5) t [folded st]] s t
  show ?thesis by (auto simp: empty_run_def)
qed

text \<open>A process that survives SIGTERM and SIGKILL is left running by \<open>StopCluster\<close> and is taken off the PID file, so
  that no later run can find it; the comment in the code says that the next run will try to clean it up.\<close>

theorem surviving_process_untracked:
  assumes "StopCluster st c w = (w', err)" and "tc_processes (tw_clusters w c) = map Some pids" and "pid \<in> set pids"
    and "reliable (st_disk st)" and "tw_pids w = pid_file ps"
    and "\<forall>p. st_term st p = None \<and> st_exit st p = Survives" and "pid \<in> tw_running w"
  shows "pid \<in> tw_running w' \<and> (\<exists>qs. tw_pids w' = pid_file qs \<and> pid \<notin> set qs)"
proof -
  have run: "tw_running (stop_processes st (map Some ps) v) = tw_running v" for ps v
    using assms(6) by (induction ps arbitrary: v) (simp_all add: stop_process_running)
  have v: "tw_running w' = tw_running w"
  proof -
    obtain w1 e where w1: "close_cluster_client st c w = (w1, e)" by (metis prod.collapse)
    then have "tw_running w1 = tw_running w" "tc_processes (tw_clusters w1 c) = map Some pids"
      using assms(2) by (auto simp: close_cluster_client_def split: option.splits)
    then show ?thesis using assms(1) run [of pids w1]
      by (auto simp: StopCluster_def w1 Let_def unregisterCluster_def release_ports_def)
  qed
  have "tw_pids w' = pid_file (filter (\<lambda>p. p \<notin> set pids) ps)"
    using StopCluster_effect(2) [OF assms(1,2)] remove_all_pids [OF assms(4)] assms(5) by simp
  with v assms(3,7) show ?thesis by auto
qed

theorem surviving_process_untracked_witness:
  "let st = good_stop\<lparr>st_exit := (\<lambda>_. Survives)\<rparr>;
       w = empty_run\<lparr>tw_pids := pid_file [7], tw_running := {7}, tw_clusters := (\<lambda>_. (newTestCluster [] ''d'' 3 0)\<lparr>tc_processes := [Some 7]\<rparr>)\<rparr>
   in 7 \<in> tw_running (fst (StopCluster st 0 w)) \<and> (\<exists>qs. tw_pids (fst (StopCluster st 0 w)) = pid_file qs \<and> 7 \<notin> set qs)"
proof -
  let ?st = "good_stop\<lparr>st_exit := (\<lambda>_. Survives)\<rparr>"
  let ?w = "empty_run\<lparr>tw_pids := pid_file [7], tw_running := {7}, tw_clusters := (\<lambda>_. (newTestCluster [] ''d'' 3 0)\<lparr>tc_processes := [Some 7]\<rparr>)\<rparr>"
  obtain w' e where s: "StopCluster ?st 0 ?w = (w', e)" by (metis prod.collapse)
  have "reliable (st_disk ?st)" by (simp add: good_stop_def reliable_def)
  with surviving_process_untracked [OF s, of "[7]" 7 "[7]"] s show ?thesis by (simp add: good_stop_def)
qed

end
