(* ===== verification/Cluster_Runs.thy ===== *)
theory Cluster_Runs
  imports Test_Cluster
begin

text \<open>
  Tests that run in parallel and start and stop clusters (\<open>integration/cluster_setup.go\<close>) as one transition system.
  The steps are the sections of \<open>StartCluster\<close> and \<open>StopCluster\<close> between which other tests can act: the
  allocation of a port, the start of a process, its recording, the stop of a process, the release of a port;
  a run may be interrupted after any of them.
\<close>

section \<open>The system\<close>

text \<open>Where the call on a cluster is; a call that stops a cluster has processes and nodes left to deal with.\<close>

datatype run_phase = Absent | Starting | Up | Stopping "int option list" "TestNode list" | Stopped

record runs =
  rn_world :: testworld
  rn_phase :: "nat \<Rightarrow> run_phase"
  rn_launched :: "nat \<Rightarrow> int option"

abbreviation cluster_of :: "runs \<Rightarrow> nat \<Rightarrow> TestCluster" where
  "cluster_of s c \<equiv> tw_clusters (rn_world s) c"

definition stopping_from :: "testworld \<Rightarrow> nat \<Rightarrow> run_phase" where
  "stopping_from w c = Stopping (tc_processes (tw_clusters w c)) (tc_nodes (tw_clusters w c))"

text \<open>What the system does with a process that is told to end: it ends, or the signal cannot be sent because it is
  not running any more.\<close>

definition obeys :: "stop_env \<Rightarrow> int \<Rightarrow> testworld \<Rightarrow> bool" where
  "obeys st pid w \<longleftrightarrow> reliable (st_disk st) \<and> st_exit st pid \<noteq> Survives \<and> (st_term st pid \<noteq> None \<longrightarrow> pid \<notin> tw_running w)"

inductive run_step :: "runs \<Rightarrow> runs \<Rightarrow> bool" where
  begin_start: "c = tw_next (rn_world s) \<Longrightarrow>
     w' = (rn_world s)\<lparr>tw_next := Suc c, tw_fs := (tw_fs (rn_world s))(''testdata'' \<mapsto> Directory, dir \<mapsto> Directory),
        tw_clusters := (tw_clusters (rn_world s))(c := newTestCluster nm dir n r)\<rparr> \<Longrightarrow>
     run_step s (s\<lparr>rn_world := w', rn_phase := (rn_phase s)(c := Starting)\<rparr>)"
| prepare: "rn_phase s c = Starting \<Longrightarrow> rn_launched s c = None \<Longrightarrow>
     length (tc_nodes (cluster_of s c)) = length (tc_processes (cluster_of s c)) \<Longrightarrow>
     node_prepare ne (length (tc_nodes (cluster_of s c))) c (rn_world s) = (w', err) \<Longrightarrow>
     run_step s (s\<lparr>rn_world := w', rn_phase := (rn_phase s)(c := (if err = None then Starting else stopping_from w' c))\<rparr>)"
| launch: "rn_phase s c = Starting \<Longrightarrow> rn_launched s c = None \<Longrightarrow>
     length (tc_nodes (cluster_of s c)) = Suc (length (tc_processes (cluster_of s c))) \<Longrightarrow>
     node_launch ne c (rn_world s) = (w', Inr pid) \<Longrightarrow> pid \<notin> tw_running (rn_world s) \<Longrightarrow> 0 < pid \<Longrightarrow> pid < 2 ^ 63 \<Longrightarrow>
     run_step s (s\<lparr>rn_world := w', rn_launched := (rn_launched s)(c := Some pid)\<rparr>)"
| launch_fails: "rn_phase s c = Starting \<Longrightarrow> rn_launched s c = None \<Longrightarrow>
     length (tc_nodes (cluster_of s c)) = Suc (length (tc_processes (cluster_of s c))) \<Longrightarrow>
     node_launch ne c (rn_world s) = (w', Inl err) \<Longrightarrow>
     run_step s (s\<lparr>rn_world := w', rn_phase := (rn_phase s)(c := stopping_from w' c)\<rparr>)"
| track: "rn_phase s c = Starting \<Longrightarrow> rn_launched s c = Some pid \<Longrightarrow> ne_openErr ne = None \<Longrightarrow> ne_short ne = None \<Longrightarrow>
     run_step s (s\<lparr>rn_world := node_track ne pid c (rn_world s), rn_launched := (rn_launched s)(c := None)\<rparr>)"
| abort: "rn_phase s c = Starting \<Longrightarrow> rn_launched s c = None \<Longrightarrow>
     run_step s (s\<lparr>rn_phase := (rn_phase s)(c := stopping_from (rn_world s) c)\<rparr>)"
| come_up: "rn_phase s c = Starting \<Longrightarrow> rn_launched s c = None \<Longrightarrow> tw_signalHandlerOnce (rn_world s) \<Longrightarrow>
     w' = registerCluster d probes c (upd_cluster c (\<lambda>tc. tc\<lparr>tc_clusterInitOut := out, tc_clusterClient := Some cl\<rparr>) (rn_world s)) \<Longrightarrow>
     run_step s (s\<lparr>rn_world := w', rn_phase := (rn_phase s)(c := Up)\<rparr>)"
| begin_stop: "rn_phase s c = Up \<Longrightarrow> close_cluster_client st c (rn_world s) = (w', err) \<Longrightarrow>
     run_step s (s\<lparr>rn_world := w', rn_phase := (rn_phase s)(c := stopping_from w' c)\<rparr>)"
| stop_no_process: "rn_phase s c = Stopping (None # cmds) nodes \<Longrightarrow>
     run_step s (s\<lparr>rn_phase := (rn_phase s)(c := Stopping cmds nodes)\<rparr>)"
| stop_one: "rn_phase s c = Stopping (Some pid # cmds) nodes \<Longrightarrow> obeys st pid (rn_world s) \<Longrightarrow>
     run_step s (s\<lparr>rn_world := stop_process st pid (rn_world s), rn_phase := (rn_phase s)(c := Stopping cmds nodes)\<rparr>)"
| release: "rn_phase s c = Stopping [] (node # nodes) \<Longrightarrow>
     run_step s (s\<lparr>rn_world := release_ports [node] (rn_world s), rn_phase := (rn_phase s)(c := Stopping [] nodes)\<rparr>)"
| end_stop: "rn_phase s c = Stopping [] [] \<Longrightarrow>
     w' = upd_cluster c (\<lambda>tc. tc\<lparr>tc_processes := []\<rparr>) (rn_world s) \<Longrightarrow>
     run_step s (s\<lparr>rn_world := unregisterCluster c (remove_dirs st (tw_clusters w' c) w'), rn_phase := (rn_phase s)(c := Stopped)\<rparr>)"
| stop_node: "rn_phase s c = Up \<Longrightarrow> (\<And>pid. obeys st pid (rn_world s)) \<Longrightarrow> StopNode st addr c (rn_world s) = (w', err) \<Longrightarrow>
     run_step s (s\<lparr>rn_world := w'\<rparr>)"
| pause_node: "rn_phase s c = Up \<Longrightarrow> PauseNode sigErr addr c (rn_world s) = (w', err) \<Longrightarrow> run_step s (s\<lparr>rn_world := w'\<rparr>)"
| resume_node: "rn_phase s c = Up \<Longrightarrow> ResumeNode sigErr addr c (rn_world s) = (w', err) \<Longrightarrow> run_step s (s\<lparr>rn_world := w'\<rparr>)"
| dies: "run_step s (s\<lparr>rn_world := (rn_world s)\<lparr>tw_running := tw_running (rn_world s) - {pid}\<rparr>\<rparr>)"

definition run_init :: "runs \<Rightarrow> bool" where
  "run_init s \<longleftrightarrow> tw_allocatedPorts (rn_world s) = {} \<and> tw_pids (rn_world s) = None \<and> tw_running (rn_world s) = {}
     \<and> (\<forall>c. rn_phase s c = Absent \<and> rn_launched s c = None)"

section \<open>The invariant\<close>

text \<open>The nodes whose ports a cluster holds.\<close>

definition held :: "runs \<Rightarrow> nat \<Rightarrow> TestNode list" where
  "held s c = (case rn_phase s c of Starting \<Rightarrow> tc_nodes (cluster_of s c) | Up \<Rightarrow> tc_nodes (cluster_of s c)
     | Stopping _ nodes \<Rightarrow> nodes | _ \<Rightarrow> [])"

definition ports_isolated :: "nat set \<Rightarrow> (nat \<Rightarrow> TestNode list) \<Rightarrow> bool" where
  "ports_isolated ports h \<longleftrightarrow> (\<forall>x. x \<in> ports \<longleftrightarrow> (\<exists>c. \<exists>n \<in> set (h c). x \<in> pair_of (tn_Port n)))
     \<and> (\<forall>c. disjoint_pairs (map tn_Port (h c)))
     \<and> (\<forall>c d. c \<noteq> d \<longrightarrow> (\<forall>m \<in> set (h c). \<forall>n \<in> set (h d). pair_of (tn_Port m) \<inter> pair_of (tn_Port n) = {}))"

definition all_tracked :: "string option \<Rightarrow> int set \<Rightarrow> (nat \<Rightarrow> int option) \<Rightarrow> bool" where
  "all_tracked file running launched \<longleftrightarrow> (\<exists>ps. file = pid_file ps \<and> (\<forall>p \<in> set ps. 0 < p \<and> p < 2 ^ 63)
     \<and> running \<subseteq> set ps \<union> {p. \<exists>c. launched c = Some p} \<and> (\<forall>c p. launched c = Some p \<longrightarrow> 0 < p \<and> p < 2 ^ 63))"

definition runs_inv :: "runs \<Rightarrow> bool" where
  "runs_inv s \<longleftrightarrow> ports_isolated (tw_allocatedPorts (rn_world s)) (held s)
     \<and> all_tracked (tw_pids (rn_world s)) (tw_running (rn_world s)) (rn_launched s)
     \<and> (\<forall>c. tw_next (rn_world s) \<le> c \<longrightarrow> rn_phase s c = Absent) \<and> (\<forall>c. rn_launched s c \<noteq> None \<longrightarrow> rn_phase s c = Starting)"

lemma ports_isolated_add:
  assumes "ports_isolated ports h" and "pair_of (tn_Port node) \<inter> ports = {}"
  shows "ports_isolated (ports \<union> pair_of (tn_Port node)) (h(c := h c @ [node]))"
proof -
  have new: "pair_of (tn_Port m) \<inter> pair_of (tn_Port node) = {}" if "m \<in> set (h d)" for m d
    using assms that unfolding ports_isolated_def by blast
  then have "disjoint_pairs (map tn_Port (h c @ [node]))"
    using assms(1) by (auto simp: ports_isolated_def disjoint_pairs_def sorted_wrt_append)
  moreover have "x \<in> ports \<union> pair_of (tn_Port node) \<longleftrightarrow> (\<exists>d. \<exists>n \<in> set ((h(c := h c @ [node])) d). x \<in> pair_of (tn_Port n))" for x
  proof -
    have "x \<in> ports \<longleftrightarrow> (\<exists>d. \<exists>n \<in> set (h d). x \<in> pair_of (tn_Port n))" using assms(1) by (simp add: ports_isolated_def)
    moreover have "n \<in> set (h d) \<Longrightarrow> n \<in> set ((h(c := h c @ [node])) d)" for n d by auto
    moreover have "node \<in> set ((h(c := h c @ [node])) c)" by simp
    moreover have "n \<in> set ((h(c := h c @ [node])) d) \<Longrightarrow> n = node \<or> n \<in> set (h d)" for n d by (auto split: if_splits)
    ultimately show ?thesis by blast
  qed
  ultimately show ?thesis using assms(1) new by (auto simp: ports_isolated_def Int_commute)
qed

lemma ports_isolated_release:
  assumes "ports_isolated ports h" and "h c = node # nodes"
  shows "ports_isolated (ports - pair_of (tn_Port node)) (h(c := nodes))"
proof -
  have d: "disjoint_pairs (map tn_Port (node # nodes))" using assms unfolding ports_isolated_def by metis
  then have own: "pair_of (tn_Port node) \<inter> pair_of (tn_Port n) = {}" if "n \<in> set nodes" for n
    using that by (simp add: disjoint_pairs_def)
  have other: "pair_of (tn_Port node) \<inter> pair_of (tn_Port n) = {}" if "n \<in> set (h d)" "d \<noteq> c" for n d
    using assms that unfolding ports_isolated_def by (metis list.set_intros(1))
  have sets: "set ((h(c := nodes)) d) = (if d = c then set nodes else set (h d))" for d by simp
  have "x \<in> ports - pair_of (tn_Port node) \<longleftrightarrow> (\<exists>d. \<exists>n \<in> set ((h(c := nodes)) d). x \<in> pair_of (tn_Port n))" for x
  proof -
    have p: "x \<in> ports \<longleftrightarrow> (\<exists>d. \<exists>n \<in> set (h d). x \<in> pair_of (tn_Port n))" using assms(1) by (simp add: ports_isolated_def)
    show ?thesis
    proof
      assume l: "x \<in> ports - pair_of (tn_Port node)"
      with p obtain d n where n: "n \<in> set (h d)" "x \<in> pair_of (tn_Port n)" by blast
      with l assms(2) have "n \<in> set ((h(c := nodes)) d)" by (cases "d = c") auto
      with n(2) show "\<exists>d. \<exists>n \<in> set ((h(c := nodes)) d). x \<in> pair_of (tn_Port n)" by blast
    next
      assume "\<exists>d. \<exists>n \<in> set ((h(c := nodes)) d). x \<in> pair_of (tn_Port n)"
      then obtain d n where n: "n \<in> set ((h(c := nodes)) d)" "x \<in> pair_of (tn_Port n)" by blast
      then have "n \<in> set (h d)" "x \<notin> pair_of (tn_Port node)" using assms(2) own other [of n d] by (auto split: if_splits)
      with p n(2) show "x \<in> ports - pair_of (tn_Port node)" by blast
    qed
  qed
  moreover have "disjoint_pairs (map tn_Port nodes)" using d by (simp add: disjoint_pairs_def)
  ultimately show ?thesis using assms by (auto simp: ports_isolated_def)
qed

lemma tracked_mono: "all_tracked file running launched \<Longrightarrow> running' \<subseteq> running \<Longrightarrow> all_tracked file running' launched"
  unfolding all_tracked_def by blast

lemma tracked_launch:
  assumes "all_tracked file running launched" and "launched c = None" and "0 < pid" and "pid < 2 ^ 63"
  shows "all_tracked file (insert pid running) (launched(c := Some pid))"
proof -
  have "launched d = Some p \<Longrightarrow> (launched(c := Some pid)) d = Some p" for d p using assms(2) by auto
  then have "{p. \<exists>d. launched d = Some p} \<subseteq> {p. \<exists>d. (launched(c := Some pid)) d = Some p}" by blast
  moreover have "pid \<in> {p. \<exists>d. (launched(c := Some pid)) d = Some p}" by (auto intro: exI [of _ c])
  moreover have "(launched(c := Some pid)) d = Some p \<Longrightarrow> p = pid \<or> launched d = Some p" for d p by (simp split: if_splits)
  moreover obtain ps where "file = pid_file ps" "\<forall>p \<in> set ps. 0 < p \<and> p < 2 ^ 63" "running \<subseteq> set ps \<union> {p. \<exists>c. launched c = Some p}"
    "\<forall>c p. launched c = Some p \<longrightarrow> 0 < p \<and> p < 2 ^ 63" using assms(1) unfolding all_tracked_def by blast
  ultimately show ?thesis unfolding all_tracked_def using assms(3,4) by (intro exI [of _ ps] conjI) blast+
qed

lemma tracked_record:
  assumes "all_tracked file running launched" and "launched c = Some pid"
  shows "all_tracked (fst (recordPid None None pid file)) running (launched(c := None))"
proof -
  obtain ps where ps: "file = pid_file ps" "\<forall>p \<in> set ps. 0 < p \<and> p < 2 ^ 63" "running \<subseteq> set ps \<union> {p. \<exists>c. launched c = Some p}"
    "\<forall>c p. launched c = Some p \<longrightarrow> 0 < p \<and> p < 2 ^ 63" using assms(1) by (auto simp: all_tracked_def)
  have "running \<subseteq> set (ps @ [pid]) \<union> {p. \<exists>d. (launched(c := None)) d = Some p}"
  proof
    fix p assume "p \<in> running"
    with ps(3) consider "p \<in> set ps" | d where "launched d = Some p" by blast
    then show "p \<in> set (ps @ [pid]) \<union> {p. \<exists>d. (launched(c := None)) d = Some p}"
    proof cases
      case (2 d)
      then show ?thesis using assms(2) by (cases "d = c") auto
    qed simp
  qed
  moreover have "\<forall>p \<in> set (ps @ [pid]). 0 < p \<and> p < 2 ^ 63" using ps(2,4) assms(2) by auto
  ultimately show ?thesis unfolding all_tracked_def record_pid_file ps(1) using ps(4)
    by (intro exI [of _ "ps @ [pid]"]) auto
qed

lemma tracked_remove:
  "all_tracked file running launched \<Longrightarrow> reliable d \<Longrightarrow> pid \<notin> running' \<Longrightarrow> running' \<subseteq> running \<Longrightarrow>
   all_tracked (removePid d pid file) running' launched"
  unfolding all_tracked_def by (clarsimp simp: remove_pid_file) (rule exI, rule conjI, rule refl, auto)

lemma stop_process_tracked:
  assumes "obeys st pid w" and "all_tracked (tw_pids w) (tw_running w) launched"
  shows "all_tracked (tw_pids (stop_process st pid w)) (tw_running (stop_process st pid w)) launched"
    and "all_tracked (tw_pids (await_exit st pid w)) (tw_running (await_exit st pid w)) launched"
proof -
  show "all_tracked (tw_pids (stop_process st pid w)) (tw_running (stop_process st pid w)) launched"
    unfolding stop_process_pids using assms by (intro tracked_remove) (auto simp: stop_process_running obeys_def)
  have "tw_pids (await_exit st pid w) = removePid (st_disk st) pid (tw_pids w)" "tw_running (await_exit st pid w) = tw_running w - {pid}"
    using assms(1) by (auto simp: await_exit_def drop_pid_def obeys_def split: exit_answer.split)
  with assms show "all_tracked (tw_pids (await_exit st pid w)) (tw_running (await_exit st pid w)) launched"
    by (auto simp: obeys_def intro!: tracked_remove)
qed

text \<open>A step that leaves the ports and the nodes that are held alone.\<close>

lemma runs_inv_keeps:
  assumes "runs_inv s" and "tw_allocatedPorts (rn_world t) = tw_allocatedPorts (rn_world s)" and "held t = held s"
    and "all_tracked (tw_pids (rn_world t)) (tw_running (rn_world t)) (rn_launched t)"
    and "\<forall>c. tw_next (rn_world t) \<le> c \<longrightarrow> rn_phase t c = Absent" and "\<forall>c. rn_launched t c \<noteq> None \<longrightarrow> rn_phase t c = Starting"
  shows "runs_inv t"
  using assms by (simp add: runs_inv_def)

lemma started_cluster_below: "runs_inv s \<Longrightarrow> rn_phase s c \<noteq> Absent \<Longrightarrow> c < tw_next (rn_world s)"
  by (meson leI runs_inv_def)

lemma held_same:
  assumes "\<And>d. tc_nodes (cluster_of t d) = tc_nodes (cluster_of s d)" and "rn_phase t = (rn_phase s)(c := p)"
    and "(case p of Starting \<Rightarrow> tc_nodes (cluster_of s c) | Up \<Rightarrow> tc_nodes (cluster_of s c) | Stopping _ nodes \<Rightarrow> nodes | _ \<Rightarrow> []) = held s c"
  shows "held t = held s"
  using assms by (auto simp: held_def fun_eq_iff split: run_phase.splits)

lemma StopNode_tracked:
  assumes "StopNode st addr c w = (w', err)" and "\<And>pid. obeys st pid w" and "all_tracked (tw_pids w) (tw_running w) launched"
  shows "all_tracked (tw_pids w') (tw_running w') launched \<and> same_but_processes w w'"
proof (cases "node_process addr (tw_clusters w c)")
  case (Inr pid)
  let ?v = "w\<lparr>tw_signals := tw_signals w @ [SIGTERM pid]\<rparr>"
  have w': "w' = await_exit st pid ?v" using assms(1) Inr by (simp add: StopNode_def)
  have "obeys st pid ?v" using assms(2) [of pid] by (simp add: obeys_def)
  from stop_process_tracked(2) [OF this] assms(3) have "all_tracked (tw_pids w') (tw_running w') launched" by (simp add: w')
  moreover have "same_but_processes w w'" by (simp add: w' await_exit_def drop_pid_def same_but_processes_def split: exit_answer.split)
  ultimately show ?thesis by blast
qed (use assms in \<open>simp add: StopNode_def same_but_processes_def\<close>)

lemma prepare_effect:
  assumes "node_prepare ne i c w = (w', err)"
  shows "tw_pids w' = tw_pids w \<and> tw_running w' = tw_running w \<and> tw_next w' = tw_next w
    \<and> (\<forall>d. d \<noteq> c \<longrightarrow> tw_clusters w' d = tw_clusters w d)
    \<and> (w' = w \<or> (\<exists>port. pair_of port \<inter> tw_allocatedPorts w = {} \<and> tw_allocatedPorts w' = tw_allocatedPorts w \<union> pair_of port
         \<and> tc_nodes (tw_clusters w' c) = tc_nodes (tw_clusters w c) @ [node_at i port]))"
proof (cases "findAvailablePort (ne_seed ne) (ne_listens ne) (tw_allocatedPorts w)")
  case (Inl e)
  then show ?thesis using assms by (simp add: node_prepare_def)
next
  case (Inr x)
  obtain ports port where x: "x = (ports, port)" by (cases x)
  note p = findAvailablePort_sound [OF Inr [unfolded x]]
  from node_prepare_port [OF assms Inr [unfolded x]] p show ?thesis by auto
qed

lemma runs_inv_prepare:
  assumes "runs_inv s" and "rn_phase s c = Starting" and "rn_launched s c = None" and "node_prepare ne i c (rn_world s) = (w', err)"
  shows "runs_inv (s\<lparr>rn_world := w', rn_phase := (rn_phase s)(c := (if err = None then Starting else stopping_from w' c))\<rparr>)"
    (is "runs_inv ?t")
proof -
  note e = prepare_effect [OF assms(4)]
  have rest: "all_tracked (tw_pids w') (tw_running w') (rn_launched s)" "\<forall>d. tw_next w' \<le> d \<longrightarrow> rn_phase ?t d = Absent"
    "\<forall>d. rn_launched s d \<noteq> None \<longrightarrow> rn_phase ?t d = Starting"
    using assms(1-3) e by (auto simp: runs_inv_def)
  have h: "held ?t = (held s)(c := tc_nodes (tw_clusters w' c))"
    using e by (auto simp: held_def stopping_from_def fun_eq_iff split: run_phase.split)
  have hc: "held s c = tc_nodes (cluster_of s c)" using assms(2) by (simp add: held_def)
  show ?thesis
  proof (cases "w' = rn_world s")
    case True
    then show ?thesis using assms(1) rest h hc by (simp add: runs_inv_def) (metis fun_upd_triv)
  next
    case False
    with e obtain port where p: "pair_of port \<inter> tw_allocatedPorts (rn_world s) = {}"
      "tw_allocatedPorts w' = tw_allocatedPorts (rn_world s) \<union> pair_of port"
      "tc_nodes (tw_clusters w' c) = tc_nodes (cluster_of s c) @ [node_at i port]" by blast
    have "ports_isolated (tw_allocatedPorts (rn_world s) \<union> pair_of (tn_Port (node_at i port))) ((held s)(c := held s c @ [node_at i port]))"
      using assms(1) p(1) by (intro ports_isolated_add) (simp_all add: runs_inv_def node_at_def)
    then show ?thesis using rest h hc p by (simp add: runs_inv_def node_at_def)
  qed
qed

lemma runs_inv_step: "run_step s t \<Longrightarrow> runs_inv s \<Longrightarrow> runs_inv t"
proof (induction rule: run_step.induct)
  case (begin_start c s w' dir nm n r)
  then have "rn_phase s c = Absent" by (simp add: runs_inv_def)
  with begin_start show ?case
    by (intro runs_inv_keeps [OF begin_start.prems]) (auto simp: runs_inv_def held_def newTestCluster_def fun_eq_iff split: run_phase.split)
next
  case (prepare s c ne w' err)
  then show ?case using runs_inv_prepare by blast
next
  case (launch s c ne w' pid)
  then have w': "w' = (rn_world s)\<lparr>tw_running := insert pid (tw_running (rn_world s))\<rparr>" by (auto simp: node_launch_def split: sum.splits)
  have "all_tracked (tw_pids w') (tw_running w') ((rn_launched s)(c := Some pid))"
    using launch by (auto simp: w' runs_inv_def intro!: tracked_launch)
  with launch show ?case by (intro runs_inv_keeps [OF launch.prems]) (auto simp: w' runs_inv_def held_def fun_eq_iff split: run_phase.split)
next
  case (launch_fails s c ne w' err)
  then have w': "w' = rn_world s" by (auto simp: node_launch_def split: sum.splits)
  from launch_fails show ?case
    by (intro runs_inv_keeps [OF launch_fails.prems]) (auto simp: w' runs_inv_def held_def stopping_from_def fun_eq_iff split: run_phase.split)
next
  case (track s c pid ne)
  have "all_tracked (fst (recordPid None None pid (tw_pids (rn_world s)))) (tw_running (rn_world s)) ((rn_launched s)(c := None))"
    using track by (intro tracked_record) (simp_all add: runs_inv_def)
  with track show ?case by (intro runs_inv_keeps [OF track.prems]) (auto simp: node_track_def runs_inv_def held_def fun_eq_iff split: run_phase.split)
next
  case (abort s c)
  then show ?case by (intro runs_inv_keeps [OF abort.prems]) (auto simp: runs_inv_def held_def stopping_from_def fun_eq_iff split: run_phase.split)
next
  case (come_up s c w' d probes out cl)
  have c: "c < tw_next (rn_world s)" using started_cluster_below [OF come_up.prems] come_up.hyps(1) by simp
  with come_up show ?case
    by (intro runs_inv_keeps [OF come_up.prems]) (auto simp: registered_once runs_inv_def held_def fun_eq_iff split: run_phase.split)
next
  case (begin_stop s c st w' err)
  then have "tw_allocatedPorts w' = tw_allocatedPorts (rn_world s)" "tw_pids w' = tw_pids (rn_world s)" "tw_running w' = tw_running (rn_world s)"
    "tw_next w' = tw_next (rn_world s)" "\<And>d. tc_nodes (tw_clusters w' d) = tc_nodes (cluster_of s d)"
    by (auto simp: close_cluster_client_def split: option.splits)
  with begin_stop show ?case
    by (intro runs_inv_keeps [OF begin_stop.prems]) (auto simp: runs_inv_def held_def stopping_from_def fun_eq_iff split: run_phase.split)
next
  case (stop_no_process s c cmds nodes)
  then show ?case by (intro runs_inv_keeps [OF stop_no_process.prems]) (auto simp: runs_inv_def held_def fun_eq_iff split: run_phase.split)
next
  case (stop_one s c pid cmds nodes st)
  have "all_tracked (tw_pids (stop_process st pid (rn_world s))) (tw_running (stop_process st pid (rn_world s))) (rn_launched s)"
    using stop_one by (intro stop_process_tracked(1)) (simp_all add: runs_inv_def)
  with stop_one stop_process_frame [of "rn_world s" st pid] show ?case
    by (intro runs_inv_keeps [OF stop_one.prems]) (auto simp: same_but_processes_def runs_inv_def held_def fun_eq_iff split: run_phase.split)
next
  case (release s c node nodes)
  have hc: "held s c = node # nodes" using release.hyps by (simp add: held_def)
  have h: "held (s\<lparr>rn_world := w, rn_phase := (rn_phase s)(c := Stopping [] nodes)\<rparr>) = (held s)(c := nodes)" if "tw_clusters w = tw_clusters (rn_world s)" for w
    using that by (auto simp: held_def fun_eq_iff split: run_phase.split)
  have "ports_isolated (tw_allocatedPorts (rn_world s) - pair_of (tn_Port node)) ((held s)(c := nodes))"
    using ports_isolated_release [of _ "held s" c, OF _ hc] release.prems by (simp add: runs_inv_def)
  then show ?case using release h [of "release_ports [node] (rn_world s)"]
    by (auto simp: runs_inv_def release_ports_def releasePort_pair)
next
  case (end_stop s c w' st)
  from end_stop show ?case
    by (intro runs_inv_keeps [OF end_stop.prems]) (auto simp: unregisterCluster_def runs_inv_def held_def fun_eq_iff split: run_phase.split)
next
  case (stop_node s c st addr w' err)
  have "all_tracked (tw_pids w') (tw_running w') (rn_launched s) \<and> same_but_processes (rn_world s) w'"
    using stop_node by (intro StopNode_tracked) (simp_all add: runs_inv_def)
  with stop_node.prems show ?case by (intro runs_inv_keeps [OF stop_node.prems]) (auto simp: same_but_processes_def runs_inv_def held_def fun_eq_iff split: run_phase.split)
next
  case (pause_node s c sigErr addr w' err)
  then show ?case by (intro runs_inv_keeps [OF pause_node.prems]) (auto simp: PauseNode_def runs_inv_def held_def fun_eq_iff split: sum.splits run_phase.split)
next
  case (resume_node s c sigErr addr w' err)
  then show ?case by (intro runs_inv_keeps [OF resume_node.prems]) (auto simp: ResumeNode_def runs_inv_def held_def fun_eq_iff split: sum.splits run_phase.split)
next
  case (dies s pid)
  then show ?case by (intro runs_inv_keeps [OF dies.prems]) (auto simp: runs_inv_def held_def fun_eq_iff split: run_phase.split intro: tracked_mono)
qed

interpretation cruns: transition_system run_init run_step runs_inv
proof
  show "run_init s \<Longrightarrow> runs_inv s" for s
    by (auto simp: run_init_def runs_inv_def ports_isolated_def held_def disjoint_pairs_def all_tracked_def pid_file_def)
qed (blast intro: runs_inv_step)

section \<open>Properties\<close>



end
