(* ===== verification/Slot_Migration.thy ===== *)
theory Slot_Migration
  imports Test_Cluster Topology
begin

text \<open>
  \<open>integration/cluster_setup.go\<close>, how a test moves a hashslot from one node of a test cluster to another:
  \<open>MigrateHashslot\<close> and what it calls. The Redis cluster is a parameter: a record of the commands that the code
  sends, each a function on an abstract state of the cluster that gives the new state and the answer.
\<close>

section \<open>The source's functions\<close>

datatype slot_state = IMPORTING string | MIGRATING string | NODE string

text \<open>The commands: CLUSTER SLOTS through the cluster client and to a node, CLUSTER NODES, CLUSTER SETSLOT,
  CLUSTER GETKEYSINSLOT with a count, and MIGRATE of a key to a host and port (destination-db 0, COPY and
  REPLACE).\<close>

record 's redis =
  rd_clusterSlots :: "'s \<Rightarrow> 's \<times> (goerror + ClusterSlot list)"
  rd_slots :: "string \<Rightarrow> 's \<Rightarrow> 's \<times> (goerror + ClusterSlot list)"
  rd_nodes :: "string \<Rightarrow> 's \<Rightarrow> 's \<times> (goerror + string)"
  rd_setslot :: "string \<Rightarrow> int \<Rightarrow> slot_state \<Rightarrow> 's \<Rightarrow> 's \<times> goerror option"
  rd_keys :: "string \<Rightarrow> int \<Rightarrow> nat \<Rightarrow> 's \<Rightarrow> 's \<times> (goerror + string list)"
  rd_migrate :: "string \<Rightarrow> string \<Rightarrow> int \<Rightarrow> string \<Rightarrow> 's \<Rightarrow> 's \<times> goerror option"

text \<open>The search for the range of a slot.\<close>

fun slot_owner :: "int \<Rightarrow> ClusterSlot list \<Rightarrow> string option" where
  "slot_owner hashslot [] = None"
| "slot_owner hashslot (slot # slots) =
     (if slot_Start slot \<le> hashslot \<and> hashslot \<le> slot_End slot \<and> slot_Nodes slot \<noteq> [] then Some (slot_Nodes slot ! 0)
      else slot_owner hashslot slots)"

definition GetNodeForHashslot :: "'s redis \<Rightarrow> TestCluster \<Rightarrow> int \<Rightarrow> 's \<Rightarrow> 's \<times> (goerror + string)" where
  "GetNodeForHashslot rd tc hashslot s =
     (case tc_clusterClient tc of
        None \<Rightarrow> (s, Inl (Errorf ''cluster client not initialized''))
      | Some _ \<Rightarrow>
          (case rd_clusterSlots rd s of
             (s1, Inl err) \<Rightarrow> (s1, Inl (Wrapf ''failed to get cluster slots: '' err))
           | (s1, Inr slots) \<Rightarrow>
               (case slot_owner hashslot slots of
                  Some addr \<Rightarrow> (s1, Inr addr)
                | None \<Rightarrow> (s1, Inl (Errorf (''hashslot '' @ showInt hashslot @ '' not found in cluster''))))))"

definition getSlotOwnerFromNode :: "'s redis \<Rightarrow> string \<Rightarrow> int \<Rightarrow> 's \<Rightarrow> 's \<times> (goerror + string)" where
  "getSlotOwnerFromNode rd nodeAddr slot s =
     (case rd_slots rd nodeAddr s of
        (s1, Inl err) \<Rightarrow> (s1, Inl err)
      | (s1, Inr slots) \<Rightarrow>
          (case slot_owner slot slots of
             Some addr \<Rightarrow> (s1, Inr addr)
           | None \<Rightarrow> (s1, Inl (Errorf (''slot '' @ showInt slot @ '' not found in cluster slots'')))))"

subsection \<open>The identity of a node\<close>

fun find_node_id :: "string \<Rightarrow> string list \<Rightarrow> string option" where
  "find_node_id nodeAddr [] = None"
| "find_node_id nodeAddr (rawLine # lines) =
     (let line = strings_TrimSpace rawLine; fields = strings_Fields line
      in if line = [] then find_node_id nodeAddr lines
         else if length fields < 2 then find_node_id nodeAddr lines
         else if prefix nodeAddr (fields ! 1) \<or> prefix (nodeAddr @ ''@'') (fields ! 1) then Some (fields ! 0)
         else find_node_id nodeAddr lines)"

definition getNodeID :: "'s redis \<Rightarrow> string \<Rightarrow> 's \<Rightarrow> 's \<times> (goerror + string)" where
  "getNodeID rd nodeAddr s =
     (case rd_nodes rd nodeAddr s of
        (s1, Inl err) \<Rightarrow> (s1, Inl (Wrapf ''failed to get cluster nodes: '' err))
      | (s1, Inr nodesInfo) \<Rightarrow>
          (case find_node_id nodeAddr (splitBy (\<lambda>c. c = newline) nodesInfo) of
             Some nodeID \<Rightarrow> (s1, Inr nodeID)
           | None \<Rightarrow> (s1, Inl (Errorf (''node ID not found for address '' @ nodeAddr)))))"

subsection \<open>The keys of a slot\<close>

text \<open>\<open>net.SplitHostPort\<close>; of its errors only the reason is kept.\<close>

definition net_SplitHostPort :: "string \<Rightarrow> goerror + (string \<times> string)" where
  "net_SplitHostPort hostport =
     (let parts = splitBy (\<lambda>c. c = CHR '':'') hostport in
      if length parts < 2 then Inl (Errorf ''missing port in address'')
      else if hd hostport = CHR ''['' then
        (let inner = takeWhile (\<lambda>c. c \<noteq> CHR '']'') (tl hostport); rest = dropWhile (\<lambda>c. c \<noteq> CHR '']'') (tl hostport)
         in if rest = [] then Inl (Errorf ''missing ']' in address'')
            else if tl rest = [] \<or> hd (tl rest) \<noteq> CHR '':'' then Inl (Errorf ''missing port in address'')
            else if CHR '':'' \<in> set (tl (tl rest)) then Inl (Errorf ''too many colons in address'')
            else if CHR ''['' \<in> set (tl hostport) then Inl (Errorf ''unexpected '[' in address'')
            else if CHR '']'' \<in> set (tl rest) then Inl (Errorf ''unexpected ']' in address'')
            else Inr (inner, tl (tl rest)))
      else if length parts > 2 then Inl (Errorf ''too many colons in address'')
      else if CHR ''['' \<in> set hostport then Inl (Errorf ''unexpected '[' in address'')
      else if CHR '']'' \<in> set hostport then Inl (Errorf ''unexpected ']' in address'')
      else Inr (parts ! 0, parts ! 1))"

definition redis_Nil :: goerror where
  "redis_Nil = RedisError ''redis: nil''"

definition keysPerBatch :: nat where
  "keysPerBatch = 10"

definition migrate_key :: "'s redis \<Rightarrow> string \<Rightarrow> string \<Rightarrow> string \<Rightarrow> 's \<Rightarrow> 's \<times> goerror option" where
  "migrate_key rd source targetAddr key s =
     (case net_SplitHostPort targetAddr of
        Inl err \<Rightarrow> (s, Some (Wrapf ''invalid target address: '' err))
      | Inr (host, port) \<Rightarrow>
          (case strconv_Atoi port of
             None \<Rightarrow> (s, Some (Wrapf ''invalid target port: '' (Errorf (''strconv.Atoi: parsing '' @ port))))
           | Some portInt \<Rightarrow>
               (case rd_migrate rd source host portInt key s of
                  (s1, None) \<Rightarrow> (s1, None)
                | (s1, Some err) \<Rightarrow>
                    if err = redis_Nil then (s1, None)
                    else (s1, Some (Wrapf (''failed to migrate key '' @ key @ '': '') err)))))"

fun migrate_batch :: "'s redis \<Rightarrow> string \<Rightarrow> string \<Rightarrow> string list \<Rightarrow> 's \<Rightarrow> 's \<times> goerror option" where
  "migrate_batch rd source target [] s = (s, None)"
| "migrate_batch rd source target (key # keys) s =
     (case migrate_key rd source target key s of
        (s1, Some err) \<Rightarrow> (s1, Some err)
      | (s1, None) \<Rightarrow> migrate_batch rd source target keys s1)"

text \<open>The loop ends only if it gets fewer keys than it asked for; \<open>None\<close> is a loop that does not end.\<close>

partial_function (option) migrateKeys :: "'s redis \<Rightarrow> string \<Rightarrow> string \<Rightarrow> int \<Rightarrow> 's \<Rightarrow> ('s \<times> goerror option) option" where
  "migrateKeys rd source target slot s =
     (case rd_keys rd source slot keysPerBatch s of
        (s1, Inl err) \<Rightarrow> Some (s1, Some (Wrapf ''failed to get keys in slot: '' err))
      | (s1, Inr keys) \<Rightarrow>
          (if keys = [] then Some (s1, None)
           else (case migrate_batch rd source target keys s1 of
                   (s2, Some err) \<Rightarrow> Some (s2, Some err)
                 | (s2, None) \<Rightarrow> (if length keys < keysPerBatch then Some (s2, None) else migrateKeys rd source target slot s2))))"

subsection \<open>Convergence\<close>

fun all_agree :: "'s redis \<Rightarrow> TestNode list \<Rightarrow> int \<Rightarrow> string \<Rightarrow> 's \<Rightarrow> 's \<times> bool" where
  "all_agree rd [] slot expectedOwner s = (s, True)"
| "all_agree rd (node # nodes) slot expectedOwner s =
     (case getSlotOwnerFromNode rd (tn_Address node) slot s of
        (s1, Inl _) \<Rightarrow> (s1, False)
      | (s1, Inr owner) \<Rightarrow> if owner \<noteq> expectedOwner then (s1, False) else all_agree rd nodes slot expectedOwner s1)"

text \<open>An iteration of the loop: the deadline has passed, or it has not and, if the nodes do not agree yet, either
  the context has ended or the pause is over.\<close>

datatype conv_event = Expired | Poll "goerror option"

fun waitForSlotConvergence :: "'s redis \<Rightarrow> TestNode list \<Rightarrow> conv_event list \<Rightarrow> int \<Rightarrow> string \<Rightarrow> 's \<Rightarrow> ('s \<times> goerror option) option" where
  "waitForSlotConvergence rd nodes [] slot expectedOwner s = None"
| "waitForSlotConvergence rd nodes (Expired # evs) slot expectedOwner s =
     Some (s, Some (Errorf (''timeout waiting for slot '' @ showInt slot @ '' to converge to owner '' @ expectedOwner)))"
| "waitForSlotConvergence rd nodes (Poll ctxErr # evs) slot expectedOwner s =
     (let (s1, allAgree) = all_agree rd nodes slot expectedOwner s
      in if allAgree then Some (s1, None)
         else (case ctxErr of
                 Some err \<Rightarrow> Some (s1, Some err)
               | None \<Rightarrow> waitForSlotConvergence rd nodes evs slot expectedOwner s1))"

subsection \<open>MigrateHashslot\<close>

text \<open>Steps 1 to 3, with the attempts to clean up.\<close>

definition move_slot :: "'s redis \<Rightarrow> int \<Rightarrow> string \<Rightarrow> string \<Rightarrow> string \<Rightarrow> string \<Rightarrow> 's \<Rightarrow> ('s \<times> goerror option) option" where
  "move_slot rd slot source sourceID target targetID s =
     (case rd_setslot rd target slot (IMPORTING sourceID) s of
        (s1, Some err) \<Rightarrow> Some (s1, Some (Wrapf ''failed to set IMPORTING state on target node: '' err))
      | (s1, None) \<Rightarrow>
          (case rd_setslot rd source slot (MIGRATING targetID) s1 of
             (s2, Some err) \<Rightarrow>
               (let (s3, _) = rd_setslot rd target slot (NODE targetID) s2
                in Some (s3, Some (Wrapf ''failed to set MIGRATING state on source node: '' err)))
           | (s2, None) \<Rightarrow>
               (case migrateKeys rd source target slot s2 of
                  None \<Rightarrow> None
                | Some (s3, Some err) \<Rightarrow>
                    (let (s4, _) = rd_setslot rd source slot (NODE sourceID) s3;
                         (s5, _) = rd_setslot rd target slot (NODE targetID) s4
                     in Some (s5, Some (Wrapf ''failed to migrate keys: '' err)))
                | Some (s3, None) \<Rightarrow> Some (s3, None))))"

text \<open>Step 4; errors are ignored, some nodes may be replicas.\<close>

definition announce_owner :: "'s redis \<Rightarrow> TestNode list \<Rightarrow> int \<Rightarrow> string \<Rightarrow> 's \<Rightarrow> 's" where
  "announce_owner rd nodes slot targetID s = fold (\<lambda>node s. fst (rd_setslot rd (tn_Address node) slot (NODE targetID) s)) nodes s"

definition MigrateHashslot :: "'s redis \<Rightarrow> conv_event list \<Rightarrow> TestCluster \<Rightarrow> int \<Rightarrow> string \<Rightarrow> 's \<Rightarrow> ('s \<times> goerror option) option" where
  "MigrateHashslot rd evs tc slot target s =
     (if tc_clusterClient tc = None then Some (s, Some (Errorf ''cluster client not initialized''))
      else if slot < 0 \<or> slot \<ge> 16384 then Some (s, Some (Errorf (''invalid slot number: '' @ showInt slot @ '' (must be 0-16383)'')))
      else (case GetNodeForHashslot rd tc slot s of
        (s1, Inl err) \<Rightarrow> Some (s1, Some (Wrapf (''failed to find source node for slot '' @ showInt slot @ '': '') err))
      | (s1, Inr source) \<Rightarrow>
          if source = target then Some (s1, None)
          else (case getNodeID rd source s1 of
            (s2, Inl err) \<Rightarrow> Some (s2, Some (Wrapf ''failed to get source node ID: '' err))
          | (s2, Inr sourceID) \<Rightarrow>
              (case getNodeID rd target s2 of
                 (s3, Inl err) \<Rightarrow> Some (s3, Some (Wrapf ''failed to get target node ID: '' err))
               | (s3, Inr targetID) \<Rightarrow>
                   (case move_slot rd slot source sourceID target targetID s3 of
                      None \<Rightarrow> None
                    | Some (s4, Some err) \<Rightarrow> Some (s4, Some err)
                    | Some (s4, None) \<Rightarrow>
                        (case waitForSlotConvergence rd (tc_nodes tc) evs slot target (announce_owner rd (tc_nodes tc) slot targetID s4) of
                           None \<Rightarrow> None
                         | Some (s5, Some err) \<Rightarrow> Some (s5, Some (Wrapf ''cluster failed to converge after migration: '' err))
                         | Some (s5, None) \<Rightarrow> Some (s5, None)))))))"

section \<open>Lemmas\<close>

subsection \<open>Convergence\<close>

text \<open>Queries do not change the cluster.\<close>

definition queries_read_only :: "'s redis \<Rightarrow> bool" where
  "queries_read_only rd \<longleftrightarrow> (\<forall>s. fst (rd_clusterSlots rd s) = s) \<and> (\<forall>n s. fst (rd_slots rd n s) = s) \<and> (\<forall>n s. fst (rd_nodes rd n s) = s)"

lemma read_only_owner:
  "queries_read_only rd \<Longrightarrow> getSlotOwnerFromNode rd n slot s = (s', r) \<Longrightarrow> s' = s"
  "queries_read_only rd \<Longrightarrow> GetNodeForHashslot rd tc slot s = (s', r) \<Longrightarrow> s' = s"
  "queries_read_only rd \<Longrightarrow> getNodeID rd n s = (s', r') \<Longrightarrow> s' = s"
proof -
  assume q: "queries_read_only rd"
  have "fst (rd_slots rd n s) = s" "fst (rd_clusterSlots rd s) = s" "fst (rd_nodes rd n s) = s" using q by (simp_all add: queries_read_only_def)
  then show "getSlotOwnerFromNode rd n slot s = (s', r) \<Longrightarrow> s' = s" "GetNodeForHashslot rd tc slot s = (s', r) \<Longrightarrow> s' = s"
    "getNodeID rd n s = (s', r') \<Longrightarrow> s' = s"
    by (auto simp: getSlotOwnerFromNode_def GetNodeForHashslot_def getNodeID_def split: prod.splits sum.splits option.splits)
qed

lemma all_agree_owners:
  assumes "queries_read_only rd" and "all_agree rd nodes slot owner s = (s', agree)"
  shows "s' = s \<and> (agree \<longleftrightarrow> (\<forall>n \<in> set nodes. getSlotOwnerFromNode rd (tn_Address n) slot s = (s, Inr owner)))"
  using assms(2)
proof (induction nodes)
  case (Cons n nodes)
  obtain s1 r where r: "getSlotOwnerFromNode rd (tn_Address n) slot s = (s1, r)" by (metis prod.collapse)
  have "s1 = s" by (rule read_only_owner(1) [OF assms(1) r])
  with r Cons show ?case by (auto split: sum.splits if_splits)
qed auto

lemma convergence_result:
  assumes "queries_read_only rd"
  shows "waitForSlotConvergence rd nodes evs slot owner s = Some (s', None) \<Longrightarrow>
    \<forall>n \<in> set nodes. getSlotOwnerFromNode rd (tn_Address n) slot s' = (s', Inr owner)"
proof (induction evs)
  case (Cons ev evs)
  show ?case
  proof (cases ev)
    case Expired
    then show ?thesis using Cons.prems by simp
  next
    case (Poll ctxErr)
    obtain s1 agree where a: "all_agree rd nodes slot owner s = (s1, agree)" by (metis prod.collapse)
    note o = all_agree_owners [OF assms a]
    show ?thesis
    proof (cases agree)
      case True
      then show ?thesis using Cons.prems Poll a o by simp
    next
      case False
      then show ?thesis using Cons Poll a conjunct1 [OF o] by (auto split: option.splits)
    qed
  qed
qed simp

text \<open>The wait ends by the deadline.\<close>

lemma convergence_ends:
  "Expired \<in> set evs \<Longrightarrow> \<exists>r. waitForSlotConvergence rd nodes evs slot owner s = Some r"
proof (induction evs arbitrary: s)
  case (Cons ev evs)
  then show ?case by (cases ev) (auto split: prod.split option.split)
qed simp

subsection \<open>Keys\<close>

text \<open>The documented behaviour of the two commands of the loop, for the keys of a slot at the source and the keys at
  the target: GETKEYSINSLOT returns up to the number asked for, MIGRATE with COPY leaves the key where it is
  and puts it on the target.\<close>

definition copying :: "'s redis \<Rightarrow> string \<Rightarrow> int \<Rightarrow> ('s \<Rightarrow> string list) \<Rightarrow> ('s \<Rightarrow> string set) \<Rightarrow> bool" where
  "copying rd source slot keys_at has \<longleftrightarrow>
     (\<forall>n s. rd_keys rd source slot n s = (s, Inr (take n (keys_at s)))) \<and>
     (\<forall>host port key s. key \<in> set (keys_at s) \<longrightarrow>
        (\<exists>s'. rd_migrate rd source host port key s = (s', None) \<and> keys_at s' = keys_at s \<and> has s' = insert key (has s)))"

lemma copy_batch:
  assumes "copying rd source slot keys_at has" and "net_SplitHostPort target = Inr (host, port)" and "strconv_Atoi port = Some p"
  shows "set keys \<subseteq> set (keys_at s) \<Longrightarrow>
    \<exists>s'. migrate_batch rd source target keys s = (s', None) \<and> keys_at s' = keys_at s \<and> has s' = has s \<union> set keys"
proof (induction keys arbitrary: s)
  case (Cons key keys)
  obtain s1 where s1: "rd_migrate rd source host p key s = (s1, None)" "keys_at s1 = keys_at s" "has s1 = insert key (has s)"
    using assms(1) Cons.prems unfolding copying_def by (metis list.set_intros(1) subsetD)
  have k: "migrate_key rd source target key s = (s1, None)" by (simp add: migrate_key_def assms(2,3) s1(1))
  obtain s' where "migrate_batch rd source target keys s1 = (s', None)" "keys_at s' = keys_at s1" "has s' = has s1 \<union> set keys"
    using Cons.IH [of s1] Cons.prems s1(2) by auto
  with k s1 show ?case by auto
qed simp

lemma migrate_large_slot:
  assumes "copying rd source slot keys_at has" and "net_SplitHostPort target = Inr (host, port)" and "strconv_Atoi port = Some p"
    and "migrateKeys rd source target slot s = Some r"
  shows "length (keys_at s) < keysPerBatch"
proof -
  let ?P = "\<lambda>rd source target slot s (r :: 'a \<times> goerror option). copying rd source slot keys_at has \<longrightarrow>
    net_SplitHostPort target = Inr (host, port) \<longrightarrow> length (keys_at s) < keysPerBatch"
  have "?P rd source target slot s r"
  proof (rule migrateKeys.raw_induct [where P = ?P, OF _ assms(4)], intro impI, rule ccontr)
    fix f and rd :: "'a redis" and source target slot s r
    assume IH: "\<And>rd source target slot s r. f rd source target slot s = Some r \<Longrightarrow> ?P rd source target slot s r"
      and body: "(case rd_keys rd source slot keysPerBatch s of
          (s1, Inl err) \<Rightarrow> Some (s1, Some (Wrapf ''failed to get keys in slot: '' err))
        | (s1, Inr keys) \<Rightarrow>
            (if keys = [] then Some (s1, None)
             else (case migrate_batch rd source target keys s1 of
                     (s2, Some err) \<Rightarrow> Some (s2, Some err)
                   | (s2, None) \<Rightarrow> (if length keys < keysPerBatch then Some (s2, None) else f rd source target slot s2)))) = Some r"
      and c: "copying rd source slot keys_at has" and t: "net_SplitHostPort target = Inr (host, port)"
      and large: "\<not> length (keys_at s) < keysPerBatch"
    have keys: "rd_keys rd source slot keysPerBatch s = (s, Inr (take keysPerBatch (keys_at s)))" using c by (simp add: copying_def)
    obtain s' where s': "migrate_batch rd source target (take keysPerBatch (keys_at s)) s = (s', None)" "keys_at s' = keys_at s"
      using copy_batch [OF c t assms(3), of "take keysPerBatch (keys_at s)" s] by (auto dest: in_set_takeD)
    have "f rd source target slot s' = Some r"
      using body keys s'(1) large by (auto simp: keysPerBatch_def split: if_splits)
    from IH [OF this] s'(2) c t large show False by simp
  qed
  with assms(1,2) show ?thesis by blast
qed

lemma migrate_small_slot:
  assumes "copying rd source slot keys_at has" and "net_SplitHostPort target = Inr (host, port)" and "strconv_Atoi port = Some p"
    and "length (keys_at s) < keysPerBatch"
  shows "\<exists>s'. migrateKeys rd source target slot s = Some (s', None) \<and> has s' = has s \<union> set (keys_at s)"
proof -
  have keys: "rd_keys rd source slot keysPerBatch s = (s, Inr (keys_at s))" using assms(1,4) by (simp add: copying_def)
  obtain s' where "migrate_batch rd source target (keys_at s) s = (s', None)" "has s' = has s \<union> set (keys_at s)"
    using copy_batch [OF assms(1-3) order_refl] by blast
  with keys assms(4) show ?thesis by (subst migrateKeys.simps) auto
qed

text \<open>The addresses of the nodes of test clusters.\<close>

lemma digit_no_bracket: "isDigit c \<Longrightarrow> c \<noteq> CHR '':'' \<and> c \<noteq> CHR ''['' \<and> c \<noteq> CHR '']''"
  by (auto simp: isDigit_def)

lemma split_node_address:
  "net_SplitHostPort (tn_Address (node_at i port)) = Inr (''127.0.0.1'', showNat port)"
proof -
  have d: "\<forall>c \<in> set (showNat port). c \<noteq> CHR '':'' \<and> c \<noteq> CHR ''['' \<and> c \<noteq> CHR '']''"
    using showNat_digits [of port] digit_no_bracket by (auto simp: list_all_iff)
  then have "splitBy (\<lambda>c. c = CHR '':'') (showNat port) = [showNat port]" by (intro splitBy_none) (auto simp: list_all_iff)
  then show ?thesis using d by (simp add: net_SplitHostPort_def node_at_def Let_def) auto
qed

lemma Atoi_showNat: "port < 2 ^ 63 \<Longrightarrow> strconv_Atoi (showNat port) = Some (int port)"
  using Atoi_showInt [of "int port"] by (simp add: showInt_def)

subsection \<open>Identities\<close>

lemma showNat_five:
  assumes "minPort \<le> p" and "p \<le> maxPort"
  shows "length (showNat p) = 5"
proof -
  have s: "length (showNat n) = Suc (length (showNat (n div 10)))" if "\<not> n < 10" for n using that by (subst showNat.simps) simp
  have one: "length (showNat n) = 1" if "n < 10" for n using that by (subst showNat.simps) simp
  have b: "\<not> p < 10" "\<not> p div 10 < 10" "\<not> p div 10 div 10 < 10" "\<not> p div 10 div 10 div 10 < 10" "p div 10 div 10 div 10 div 10 < 10"
    using assms by (simp_all add: minPort_def maxPort_def)
  show ?thesis using s [OF b(1)] s [OF b(2)] s [OF b(3)] s [OF b(4)] one [OF b(5)] by simp
qed

lemma port_prefix:
  assumes "minPort \<le> p" "p \<le> maxPort" "minPort \<le> q" "q \<le> maxPort"
    and "prefix (tn_Address (node_at i q)) (tn_Address (node_at j p) @ rest)"
  shows "q = p"
proof -
  have l: "length (showNat p) = length (showNat q)" using showNat_five assms(1-4) by metis
  obtain z where "showNat p @ rest = showNat q @ z" using assms(5) by (auto simp: node_at_def prefix_def)
  then have "showNat p = showNat q" using l by simp
  then show ?thesis using showNat_inj by blast
qed

lemma find_node_id_line:
  "find_node_id nodeAddr lines = Some nodeID \<Longrightarrow>
   \<exists>line \<in> set lines. length (strings_Fields (strings_TrimSpace line)) \<ge> 2 \<and> strings_Fields (strings_TrimSpace line) ! 0 = nodeID
     \<and> prefix nodeAddr (strings_Fields (strings_TrimSpace line) ! 1)"
  by (induction nodeAddr lines rule: find_node_id.induct) (auto simp: Let_def dest: append_prefixD split: if_splits)

text \<open>With ports of different lengths the prefix of an address is not enough.\<close>

lemma prefix_confuses_ports:
  "find_node_id ''127.0.0.1:1000'' [''id-a 127.0.0.1:10000@20000 master'', ''id-b 127.0.0.1:1000@11000 master''] = Some ''id-a''"
  by (simp add: Let_def strings_TrimSpace_def strings_Fields_def isSpace_def)

subsection \<open>Ownership\<close>

text \<open>The documented effect of SETSLOT on who a node takes for the owner of the slot: NODE sets it on the node that
  gets the command, IMPORTING and MIGRATING do not change it.\<close>

definition slot_owners :: "'s redis \<Rightarrow> int \<Rightarrow> ('s \<Rightarrow> string \<Rightarrow> string) \<Rightarrow> bool" where
  "slot_owners rd slot owner \<longleftrightarrow>
     (\<forall>n nodeID s s'. rd_setslot rd n slot (NODE nodeID) s = (s', None) \<longrightarrow> owner s' = (owner s)(n := nodeID)) \<and>
     (\<forall>n st s s' e. rd_setslot rd n slot st s = (s', e) \<longrightarrow> e \<noteq> None \<or> (\<forall>nodeID. st \<noteq> NODE nodeID) \<longrightarrow> owner s' = owner s)"

subsection \<open>An example\<close>

text \<open>A cluster whose state is the set of keys of the target and, for each node, the owner of the slot. The source
  holds the keys \<open>ks\<close>; the commands to the nodes \<open>broken\<close> to mark a slot as migrating fail.\<close>

definition sample_redis :: "string list \<Rightarrow> string list \<Rightarrow> (string set \<times> (string \<Rightarrow> string)) redis" where
  "sample_redis ks broken =
     \<lparr>rd_clusterSlots = (\<lambda>s. (s, Inr [\<lparr>slot_Start = 0, slot_End = 16383, slot_Nodes = [''127.0.0.1:10001'']\<rparr>])),
      rd_slots = (\<lambda>n s. (s, Inr [\<lparr>slot_Start = 0, slot_End = 16383,
         slot_Nodes = [if snd s n = ''b'' then ''127.0.0.1:10002'' else ''127.0.0.1:10001'']\<rparr>])),
      rd_nodes = (\<lambda>n s. (s, Inr (''a 127.0.0.1:10001@20001 master'' @ newline # ''b 127.0.0.1:10002@20002 master''))),
      rd_setslot = (\<lambda>n slot st s. case st of
          NODE i \<Rightarrow> ((fst s, (snd s)(n := i)), None)
        | MIGRATING _ \<Rightarrow> (s, if n \<in> set broken then Some (RedisError ''ERR'') else None)
        | IMPORTING _ \<Rightarrow> (s, None)),
      rd_keys = (\<lambda>_ _ n s. (s, Inr (take n ks))),
      rd_migrate = (\<lambda>_ _ _ key s. ((insert key (fst s), snd s), None))\<rparr>"

lemma sample_copies: "copying (sample_redis ks broken) source slot (\<lambda>_. ks) fst"
  by (simp add: copying_def sample_redis_def)

lemma sample_owners: "slot_owners (sample_redis ks broken) slot snd"
  by (auto simp: slot_owners_def sample_redis_def split: slot_state.splits)

lemma sample_read_only: "queries_read_only (sample_redis ks broken)"
  by (simp add: queries_read_only_def sample_redis_def)

lemma showNat_ports: "showNat 10001 = ''10001''" "showNat 10002 = ''10002''"
proof -
  have c: "char_of (48 :: nat) = CHR ''0''" "char_of (49 :: nat) = CHR ''1''" "char_of (50 :: nat) = CHR ''2''"
    by (simp_all add: char_of_def bit_0)
  show "showNat 10001 = ''10001''" "showNat 10002 = ''10002''" by (simp_all add: showNat.simps c)
qed

lemma sample_ids:
  "getNodeID (sample_redis ks broken) ''127.0.0.1:10001'' s = (s, Inr ''a'')"
  "getNodeID (sample_redis ks broken) ''127.0.0.1:10002'' s = (s, Inr ''b'')"
  by (simp_all add: getNodeID_def sample_redis_def Let_def strings_TrimSpace_def strings_Fields_def isSpace_def newline_def)

lemma sample_address: "''127.0.0.1:10002'' = tn_Address (node_at 0 10002)"
  by (simp add: node_at_def showNat_ports)

section \<open>Properties\<close>

text \<open>C39. The loop that moves the keys of a slot returns exactly if the slot has fewer than 10 keys, and then all of them are
  on the target. MIGRATE is sent with COPY, which leaves the keys at the source, so with 10 keys or more every
  round gets the same full batch and the loop never ends.\<close>

theorem migrate_keys_returns_iff_small:
  assumes "copying rd source slot keys_at has" and "target = tn_Address (node_at i port)" and "port \<le> 65535"
  shows "(length (keys_at s) < 10 \<longrightarrow> (\<exists>s'. migrateKeys rd source target slot s = Some (s', None) \<and> has s' = has s \<union> set (keys_at s)))
    \<and> (10 \<le> length (keys_at s) \<longrightarrow> migrateKeys rd source target slot s = None)"
proof -
  have t: "net_SplitHostPort target = Inr (''127.0.0.1'', showNat port)" by (simp add: assms(2) split_node_address)
  have p: "strconv_Atoi (showNat port) = Some (int port)" using assms(3) by (intro Atoi_showNat) simp
  show ?thesis using migrate_small_slot [OF assms(1) t p, of s] migrate_large_slot [OF assms(1) t p, of s]
    by (cases "migrateKeys rd source target slot s") (auto simp: keysPerBatch_def)
qed

theorem migrate_keys_returns_iff_small_witness:
  "(\<exists>s'. migrateKeys (sample_redis [''k'', ''l''] []) ''a'' ''127.0.0.1:10002'' 5 ({}, (\<lambda>_. ''a'')) = Some (s', None) \<and> fst s' = {''k'', ''l''})
   \<and> migrateKeys (sample_redis (replicate 10 ''k'') []) ''a'' ''127.0.0.1:10002'' 5 ({}, (\<lambda>_. ''a'')) = None"
proof -
  let ?s = "({}, (\<lambda>_. ''a'')) :: string set \<times> (string \<Rightarrow> string)"
  from migrate_keys_returns_iff_small [OF sample_copies [of "[''k'', ''l'']" "[]" "''a''" 5] sample_address, of ?s]
    migrate_keys_returns_iff_small [OF sample_copies [of "replicate 10 ''k''" "[]" "''a''" 5] sample_address, of ?s]
  show ?thesis by (auto simp: insert_commute)
qed

text \<open>A migration that reports success has reached its goal: the slot was valid, and either the target owned it before or
  every node of the cluster names the target as its owner in the state that the call leaves.\<close>

theorem migration_success_converged:
  assumes "MigrateHashslot rd evs tc slot target s = Some (s', None)" and "queries_read_only rd"
  shows "0 \<le> slot \<and> slot < 16384 \<and> tc_clusterClient tc \<noteq> None \<and>
    (s' = s \<and> GetNodeForHashslot rd tc slot s = (s, Inr target)
     \<or> (\<forall>n \<in> set (tc_nodes tc). getSlotOwnerFromNode rd (tn_Address n) slot s' = (s', Inr target)))"
proof -
  have g: "tc_clusterClient tc \<noteq> None" "0 \<le> slot" "slot < 16384" using assms(1) by (auto simp: MigrateHashslot_def split: if_splits)
  obtain s1 r where r: "GetNodeForHashslot rd tc slot s = (s1, r)" by (metis prod.collapse)
  have s1: "s1 = s" by (rule read_only_owner(2) [OF assms(2) r])
  obtain source where source: "r = Inr source" using assms(1) g r by (cases r) (auto simp: MigrateHashslot_def)
  show ?thesis
  proof (cases "source = target")
    case True
    then show ?thesis using assms(1) g r s1 source by (auto simp: MigrateHashslot_def)
  next
    case False
    then obtain s4 where "waitForSlotConvergence rd (tc_nodes tc) evs slot target s4 = Some (s', None)"
      using assms(1) g r source by (auto simp: MigrateHashslot_def split: prod.splits sum.splits option.splits)
    from convergence_result [OF assms(2) this] g show ?thesis by blast
  qed
qed

theorem migration_success_converged_witness:
  "let rd = sample_redis [''k''] []; tc = (newTestCluster ''t'' ''d'' 3 0)\<lparr>tc_nodes := [node_at 0 10001, node_at 1 10002], tc_clusterClient := Some 0\<rparr>
   in \<exists>s'. MigrateHashslot rd [Poll None] tc 5 ''127.0.0.1:10002'' ({}, (\<lambda>_. ''a'')) = Some (s', None)
      \<and> getSlotOwnerFromNode rd ''127.0.0.1:10001'' 5 s' = (s', Inr ''127.0.0.1:10002'')"
proof -
  let ?rd = "sample_redis [''k''] []" and ?tc = "(newTestCluster ''t'' ''d'' 3 0)\<lparr>tc_nodes := [node_at 0 10001, node_at 1 10002], tc_clusterClient := Some 0\<rparr>"
  let ?s = "({}, (\<lambda>_. ''a''))"
  have src: "GetNodeForHashslot ?rd ?tc 5 ?s = (?s, Inr ''127.0.0.1:10001'')" by (simp add: GetNodeForHashslot_def sample_redis_def)
  have addr: "net_SplitHostPort ''127.0.0.1:10002'' = Inr (''127.0.0.1'', ''10002'')" "strconv_Atoi ''10002'' = Some 10002"
    using split_node_address [of 0 10002] Atoi_showNat [of 10002] by (simp_all add: node_at_def showNat_ports)
  have keys: "migrateKeys ?rd ''127.0.0.1:10001'' ''127.0.0.1:10002'' 5 ?s = Some (({''k''}, (\<lambda>_. ''a'')), None)"
  proof -
    have b: "migrate_batch ?rd ''127.0.0.1:10001'' ''127.0.0.1:10002'' [''k''] ?s = (({''k''}, (\<lambda>_. ''a'')), None)"
      by (simp add: migrate_key_def addr) (simp add: sample_redis_def)
    have k: "rd_keys ?rd ''127.0.0.1:10001'' 5 keysPerBatch ?s = (?s, Inr [''k''])" by (simp add: sample_redis_def keysPerBatch_def)
    have l: "length [''k''] < keysPerBatch" by (simp add: keysPerBatch_def)
    show ?thesis using l by (subst migrateKeys.simps) (simp only: b k prod.case sum.case option.case list.distinct if_False if_True simp_thms)
  qed
  have "move_slot ?rd 5 ''127.0.0.1:10001'' ''a'' ''127.0.0.1:10002'' ''b'' ?s = Some (({''k''}, (\<lambda>_. ''a'')), None)"
    unfolding move_slot_def using keys by (simp add: sample_redis_def)
  moreover have "announce_owner ?rd (tc_nodes ?tc) 5 ''b'' ({''k''}, (\<lambda>_. ''a'')) =
      ({''k''}, (\<lambda>_. ''a'')(''127.0.0.1:10001'' := ''b'', ''127.0.0.1:10002'' := ''b''))"
    by (simp add: announce_owner_def sample_redis_def node_at_def showNat_ports)
  ultimately obtain s' where m: "MigrateHashslot ?rd [Poll None] ?tc 5 ''127.0.0.1:10002'' ?s = Some (s', None)"
    using src by (simp add: MigrateHashslot_def sample_ids) (simp add: getSlotOwnerFromNode_def sample_redis_def node_at_def showNat_ports)
  have "GetNodeForHashslot ?rd ?tc 5 ?s \<noteq> (?s, Inr ''127.0.0.1:10002'')" using src by simp
  with migration_success_converged [OF m sample_read_only]
  have "\<forall>n \<in> set (tc_nodes ?tc). getSlotOwnerFromNode ?rd (tn_Address n) 5 s' = (s', Inr ''127.0.0.1:10002'')" by blast
  then have "getSlotOwnerFromNode ?rd ''127.0.0.1:10001'' 5 s' = (s', Inr ''127.0.0.1:10002'')" by (simp add: node_at_def showNat_ports)
  with m show ?thesis unfolding Let_def by blast
qed

text \<open>A migration that fails at the source splits the slot: if the source refuses the MIGRATING state, the clean-up
  tells the target that it owns the slot, so that afterwards the target takes itself for the owner while the
  source still takes whom it took before.\<close>

theorem failed_migration_splits_slot:
  assumes "slot_owners rd slot owner" and "source \<noteq> target"
    and "rd_setslot rd target slot (IMPORTING sourceID) s = (s1, None)"
    and "rd_setslot rd source slot (MIGRATING targetID) s1 = (s2, Some err)"
    and "rd_setslot rd target slot (NODE targetID) s2 = (s3, None)"
  shows "move_slot rd slot source sourceID target targetID s = Some (s3, Some (Wrapf ''failed to set MIGRATING state on source node: '' err))
    \<and> owner s3 target = targetID \<and> owner s3 source = owner s source"
proof -
  have "owner s1 = owner s" "owner s2 = owner s1" "owner s3 = (owner s2)(target := targetID)"
    using assms(1,3-5) unfolding slot_owners_def by blast+
  then show ?thesis using assms(2-5) by (simp add: move_slot_def)
qed

theorem failed_migration_splits_slot_witness:
  "\<exists>s3 err. move_slot (sample_redis [] [''n1'']) 5 ''n1'' ''a'' ''n2'' ''b'' ({}, (\<lambda>_. ''a'')) = Some (s3, Some err)
    \<and> snd s3 ''n2'' = ''b'' \<and> snd s3 ''n1'' = ''a''"
proof -
  let ?rd = "sample_redis [] [''n1'']" and ?s = "({}, (\<lambda>_. ''a'')) :: string set \<times> (string \<Rightarrow> string)"
  have r: "rd_setslot ?rd ''n2'' 5 (IMPORTING ''a'') ?s = (?s, None)"
    "rd_setslot ?rd ''n1'' 5 (MIGRATING ''b'') ?s = (?s, Some (RedisError ''ERR''))"
    "rd_setslot ?rd ''n2'' 5 (NODE ''b'') ?s = (({}, (\<lambda>_. ''a'')(''n2'' := ''b'')), None)"
    by (simp_all add: sample_redis_def)
  have "''n1'' \<noteq> ''n2''" by simp
  from failed_migration_splits_slot [OF sample_owners this r] show ?thesis by auto
qed

text \<open>The search of a node's identity compares prefixes of addresses; for the nodes of test clusters, whose ports all have
  five digits, it still finds the identity on the line of that very node.\<close>

theorem node_identity_exact:
  assumes "getNodeID rd (tn_Address (node_at i q)) s = (s', Inr nodeID)" and "minPort \<le> q" and "q \<le> maxPort"
    and "rd_nodes rd (tn_Address (node_at i q)) s = (s1, Inr text)"
    and "\<forall>line \<in> set (splitBy (\<lambda>c. c = newline) text). length (strings_Fields (strings_TrimSpace line)) \<ge> 2 \<longrightarrow>
      (\<exists>j p rest. minPort \<le> p \<and> p \<le> maxPort \<and> strings_Fields (strings_TrimSpace line) ! 1 = tn_Address (node_at j p) @ ''@'' @ rest)"
  shows "\<exists>line \<in> set (splitBy (\<lambda>c. c = newline) text). \<exists>rest. strings_Fields (strings_TrimSpace line) ! 0 = nodeID
    \<and> strings_Fields (strings_TrimSpace line) ! 1 = tn_Address (node_at i q) @ ''@'' @ rest"
proof -
  have "find_node_id (tn_Address (node_at i q)) (splitBy (\<lambda>c. c = newline) text) = Some nodeID"
    using assms(1,4) by (auto simp: getNodeID_def split: option.splits)
  from find_node_id_line [OF this] obtain line where
    l: "line \<in> set (splitBy (\<lambda>c. c = newline) text)" "length (strings_Fields (strings_TrimSpace line)) \<ge> 2"
      "strings_Fields (strings_TrimSpace line) ! 0 = nodeID" "prefix (tn_Address (node_at i q)) (strings_Fields (strings_TrimSpace line) ! 1)" by blast
  from assms(5) l(1,2) obtain j p rest where
    p: "minPort \<le> p" "p \<le> maxPort" "strings_Fields (strings_TrimSpace line) ! 1 = tn_Address (node_at j p) @ ''@'' @ rest" by blast
  have "q = p" using port_prefix [OF p(1,2) assms(2,3)] l(4) p(3) by metis
  then have "tn_Address (node_at j p) = tn_Address (node_at i q)" by (simp add: node_at_def)
  with l p show ?thesis by metis
qed

theorem node_identity_exact_witness:
  "\<exists>line rest. strings_Fields (strings_TrimSpace line) ! 0 = ''b'' \<and> strings_Fields (strings_TrimSpace line) ! 1 = tn_Address (node_at 0 10002) @ ''@'' @ rest"
proof -
  let ?rd = "sample_redis [] []" and ?s = "({}, (\<lambda>_. ''a'')) :: string set \<times> (string \<Rightarrow> string)"
  let ?text = "''a 127.0.0.1:10001@20001 master'' @ newline # ''b 127.0.0.1:10002@20002 master''"
  let ?split = "splitBy (\<lambda>c. c = newline) ?text"
  have tx: "rd_nodes ?rd (tn_Address (node_at 0 10002)) ?s = (?s, Inr ?text)" by (simp add: sample_redis_def)
  have sp: "?split = [''a 127.0.0.1:10001@20001 master'', ''b 127.0.0.1:10002@20002 master'']" by (simp add: newline_def)
  have f: "strings_Fields (strings_TrimSpace ''a 127.0.0.1:10001@20001 master'') = [''a'', ''127.0.0.1:10001@20001'', ''master'']"
    "strings_Fields (strings_TrimSpace ''b 127.0.0.1:10002@20002 master'') = [''b'', ''127.0.0.1:10002@20002'', ''master'']"
    by (simp_all add: strings_TrimSpace_def strings_Fields_def isSpace_def)
  have addr: "tn_Address (node_at 0 10002) = ''127.0.0.1:10002''" "tn_Address (node_at 0 10001) = ''127.0.0.1:10001''"
    by (simp_all add: node_at_def showNat_ports)
  have g: "getNodeID ?rd (tn_Address (node_at 0 10002)) ?s = (?s, Inr ''b'')"
    unfolding addr by (rule sample_ids)
  have lines: "\<forall>line \<in> set ?split. length (strings_Fields (strings_TrimSpace line)) \<ge> 2 \<longrightarrow>
      (\<exists>j p rest. minPort \<le> p \<and> p \<le> maxPort \<and> strings_Fields (strings_TrimSpace line) ! 1 = tn_Address (node_at j p) @ ''@'' @ rest)"
  proof -
    have "''127.0.0.1:10001@20001'' = tn_Address (node_at 0 10001) @ ''@'' @ ''20001''" "''127.0.0.1:10002@20002'' = tn_Address (node_at 0 10002) @ ''@'' @ ''20002''"
      by (simp_all add: addr)
    moreover have "minPort \<le> 10001" "10001 \<le> maxPort" "minPort \<le> 10002" "10002 \<le> maxPort" by (simp_all add: minPort_def maxPort_def)
    ultimately show ?thesis unfolding sp by (simp only: list.set f ball_simps nth_Cons_0 nth_Cons_Suc One_nat_def) blast
  qed
  from node_identity_exact [OF g _ _ tx lines] show ?thesis by (auto simp: minPort_def maxPort_def)
qed

end
