(* ===== verification/Spec2Isabelle.thy ===== *)
theory Spec2Isabelle
  imports Client Gauges System Lifecycle Migration Delivery_Spec Node_Options Interleaving Cluster_Runs Slot_Migration
begin

text \<open>
  A model of \<open>submux\<close>, a Go library that multiplexes many Pub/Sub subscriptions of a Redis Cluster over few
  connections, and the theorems that make it correct. Paths are relative to \<open>src/\<close>.

  \<^bold>\<open>The program.\<close> A \<open>SubMux\<close> (\<open>submux.go\<close>) owns a pool of PubSub connections (\<open>pool.go\<close>), a pool of callback
  workers (\<open>workerpool.go\<close>) and a topology monitor (\<open>topology.go\<close>). A call of \<open>SubscribeSync\<close> computes the hash
  slot of each channel (\<open>hashslot.go\<close>), gets a connection to a node that serves it, registers the subscription
  (\<open>subscription.go\<close>) in the connection's metadata, and, if it is the first one of its channel there, sends
  a command to the connection's event loop (\<open>eventloop.go\<close>) and waits for the confirmation of Redis. The event
  loop queues each message it receives for the live subscriptions of its channel; a per-subscription
  sequencer (\<open>sequencer.go\<close> over \<open>ringbuf.go\<close>) has the workers execute the callbacks (\<open>callback.go\<close>) in order
  and one at a time. The monitor polls the cluster, signals the subscriptions whose slot has moved and
  moves them to the new node. Every step is recorded as a metric (\<open>metrics.go\<close>, \<open>metrics_otel.go\<close>).

  \<^bold>\<open>The theories,\<close> in the order of their dependencies.
  \<^item> \<open>Prelude\<close>: Go maps as association lists, slices, \<open>select\<close>, 64-bit integers, and the locale
    \<open>transition_system\<close> (an invariant and what it gives of all reachable states), which the concurrent
    protocols below interpret. \<open>Go_Types\<close>: \<open>types.go\<close>, \<open>errors.go\<close>, error wrapping and error texts. \<open>Go_Strings\<close>: the string
    functions of Go's library that the code uses.
  \<^item> \<open>Fifo_Spec\<close>, \<open>Registry_Spec\<close>: the interfaces of a queue and of a registry of subscriptions as locales.
    \<open>Ring_Buffer\<close> provides the first; \<open>Connection\<close> and \<open>Submux_Map\<close> each provide the second.
  \<^item> \<open>Hashslot\<close>: \<open>hashslot.go\<close>; the table-driven CRC16 on words equals its bitwise definition.
  \<^item> \<open>Config_Options\<close>, \<open>Node_Options\<close>: \<open>config.go\<close>, \<open>subscribe_option.go\<close> and the options of node clients.
  \<^item> \<open>Metrics\<close>, \<open>Callback\<close>, \<open>Worker_Pool\<close>, \<open>Sequencer\<close>: the files of these names. The worker pool and the
    sequencer are functions on records and, because their methods interleave, transition systems whose steps
    are the critical sections: no send on a closed queue, no lost task, ordered delivery, nothing stranded.
  \<^item> \<open>Delivery_Spec\<close>: the locale \<open>refinement\<close> (a simulation through an abstraction function), and that the
    concurrent sequencer refines a sequential bounded mailbox.
  \<^item> \<open>Subscription_State\<close>: \<open>subscription.go\<close>, the state with its confirmation and broadcast channels.
  \<^item> \<open>Connection\<close>, \<open>Pool\<close>: the two halves of \<open>pool.go\<close>: the metadata of one connection (single flight of
    SUBSCRIBE commands, the command channel) and the pool (selection of a connection, the protocol of
    pending connections, removal, closing).
  \<^item> \<open>Topology\<close>: the slot maps of \<open>topology.go\<close>, their update from CLUSTER SLOTS and CLUSTER NODES, and the
    detection of changes.
  \<^item> \<open>World\<close>: the state all goroutines share, a record of stores for the objects the code holds by pointer
    (\<open>w_subs\<close>, \<open>w_metas\<close>, \<open>w_responses\<close>), the fields of \<open>SubMux\<close>, the pool, the worker pool, and the metrics and
    drain tasks that were emitted. \<open>Submux_Map\<close>: the global subscription map.
  \<^item> \<open>Event_Loop\<close>: \<open>eventloop.go\<close>. \<open>Submux_Core\<close>: subscribing, unsubscribing and closing in \<open>submux.go\<close>, and the
    creation of connections. \<open>Client\<close>: the exported calls as wholes.
  \<^item> \<open>Monitor\<close>, \<open>Lifecycle\<close>, \<open>Migration\<close>: the topology monitor: a refresh and its consequences; the polling
    loop and \<open>stop\<close>; the goroutines of one migration. \<open>Gauges\<close>: what the observable gauges show of the state.
  \<^item> \<open>World_Inv\<close>, \<open>System\<close>: the invariant of the shared state and that every operation keeps it; and all goroutines
    of a SubMux (callers, event loops, monitor, migrations, workers, \<open>Close\<close>) as one transition system over it, whose
    steps are the operations of the other theories. What those assume of a state holds in every reachable one.
  \<^item> \<open>Interleaving\<close>: the same system with connection lookups, subscribe calls and migrations split into their critical
    sections. The locale \<open>goroutines\<close> states what a goroutine of a family relies on and guarantees to all others; both
    families interpret it. The sections of a call that is not interrupted are the call of the other theories; a weaker
    invariant (\<open>world_fine\<close> and who owns which new connection) holds in every interleaving; and a concrete run leads to
    a double registration.
  \<^item> \<open>Port_Allocator\<close>, \<open>Pid_File\<close>, \<open>Test_Cluster\<close>, \<open>Cluster_Runs\<close>, \<open>Slot_Migration\<close>: \<open>integration/cluster_setup.go\<close>, the
    helpers that start and stop clusters for the integration tests: the port allocator, the file of process
    numbers, \<open>StartCluster\<close> and \<open>StopCluster\<close> on the state of the operating system, tests in parallel as a
    transition system, and the migration of a slot with the Redis cluster as a parameter.
  \<^item> This theory: properties that span components, from a call or a received message to its effect.

  \<^bold>\<open>How code corresponds to definitions.\<close> A struct is a record with the source's field names behind a prefix, a
  method is a function of the same name. A pointer is a number that indexes a store. A section under a mutex
  is one function; a method with several such sections is composed of them, and where other goroutines
  can act in between either these sections are the steps of a transition system, or what the others do is an
  argument of the composed definition (a function on the state), constrained by named hypotheses such as
  \<open>env_ok\<close> and \<open>calm\<close>. A blocking operation that has nothing ready has the result \<open>None\<close>, except in the
  worker pool and the protocols where blocking is the absence of a step; a panic is \<open>None\<close> as well, and the
  theorems exclude it. A \<open>select\<close> with several ready cases takes the one an argument \<open>pick\<close> names; map iteration
  follows the order of the association list; clock readings, random numbers, answers of the Redis client and
  the creation of OpenTelemetry instruments are arguments. So the theorems hold for every schedule,
  iteration order and answer.

  \<^bold>\<open>Termination and bounds.\<close> No definition uses fuel: loops are structural recursion over the events they
  receive, folds, or functions with a termination proof (the drain loop by the length of its queue, the
  port search by its index). The one loop that may run forever, \<open>migrateKeys\<close>, is a partial function whose
  value \<open>None\<close> is not returning. Durations are 64-bit where the code adds them; queue limits and counters are
  unbounded integers because the code only increments them by one or compares them.

  \<^bold>\<open>What the theorems show.\<close> Messages reach exactly the live subscriptions of their key, complete, in order
  and one at a time, and nothing accepted is left behind, in every interleaving of the critical sections. While
  calls and moves are not interrupted between two waits, a subscription is registered once, on one connection at
  most, so that each message reaches it once; in general a message reaches it as often as it is registered. A channel has one SUBSCRIBE in flight per
  connection; UNSUBSCRIBE is sent for the last subscriber only. Calls report their failures and leave
  nothing behind. \<open>Close\<close> closes every subscription and connection; the stop protocols can always complete
  and leave no goroutine or task. A refresh signals exactly the subscriptions whose slot has moved, and a
  migration moves them with a fresh confirmation cycle. Test clusters do not share ports, a failed start is
  undone, and an interrupted run leaves no process that the next one cannot find. Some theorems state where the
  code falls short: a subscribe call that a migration interrupts is registered twice, a failure during a shutdown panics, waiters of an abandoned subscription are stranded, a second type under
  the same channel name sends no command, a resubscription revives an unsubscribed subscription, the keys of
  a slot with ten keys or more are copied forever.

  \<^bold>\<open>Not modelled.\<close> Logging; the internals of go-redis and OpenTelemetry; real time (tickers and deadlines are
  events and arguments); floating-point rounding of durations in metrics; the panic of a wait group that is
  reused while \<open>Wait\<close> returns; of the test clusters what the servers and \<open>redis-cli\<close> do, which are arguments;
  tests and documents.

  \<^bold>\<open>Granularity.\<close> In \<open>Interleaving\<close> a step is what a goroutine does under one lock in \<open>getPubSubForHashslot\<close> with everything it
  calls, \<open>subscribeToChannel\<close> up to its first wait and \<open>resubscribeOnNewNode\<close>. Unsubscribing between two waits, the clean-up
  after a failure, one iteration of an event loop, a refresh, the dialling of one connection and \<open>Close\<close> are single steps
  there too. The sections of the worker pool, the sequencer, the connection metadata, the pending connections and the
  monitor's life cycle interleave freely in their own transition systems.
\<close>

section \<open>Subscribing, end to end\<close>

lemma take_command:
  assumes "m_cmdCh (w_metas w mr) = [cmd]"
  shows "loop_iteration rd pick now mr (CmdReady answer) w =
    Some (handle_command rd pick now answer mr cmd (upd_meta mr (\<lambda>m. m\<lparr>m_cmdCh := []\<rparr>) w))"
  by (simp add: loop_iteration_def assms)

lemma known_subscribe: "subscribeCommandName ty \<noteq> [] \<Longrightarrow>
  known_command (subscribeCommandName ty) \<and> isSubscribeCommand (subscribeCommandName ty)"
  by (cases ty) (simp_all add: subscribeCommandName_def known_command_def isSubscribeCommand_def)

text \<open>The state after the first subscriber of a channel has handed its command to an idle event loop.\<close>

lemma first_subscriber:
  assumes "getPendingSubscription ch (w_metas w mr) = None" and "getSubscriptions ch (w_metas w mr) = []"
    and "m_cmdCh (w_metas w mr) = []" and "m_loopDoneCloses (w_metas w mr) = 0" and "m_doneCloses (w_metas w mr) = 0"
    and "s = newSubscription ch ty (Some ps) cb hs limit"
  shows "\<exists>w1. register_and_send pick ctx None cmdName mr s w = (w1, WaitConfirm (w_next w) mr)
    \<and> w_subs w1 = (w_subs w)(w_next w := s)
    \<and> w_metas w1 mr = (w_metas w mr)\<lparr>m_subscriptions := AList.update ch [w_next w] (m_subscriptions (w_metas w mr)),
        m_pendingSubscriptions := AList.update ch (w_next w) (m_pendingSubscriptions (w_metas w mr)),
        m_cmdCh := [\<lparr>c_ctx = ctx, c_cmd = cmdName, c_args = [ch], c_sub = Some (w_next w), c_response = Some (Suc (w_next w))\<rparr>]\<rparr>"
proof -
  have ch: "sub_channel s = ch" by (simp add: assms(6) newSubscription_def)
  let ?cmd = "\<lparr>c_ctx = ctx, c_cmd = cmdName, c_args = [ch], c_sub = Some (w_next w), c_response = Some (Suc (w_next w))\<rparr>"
  let ?m = "(w_metas w mr)\<lparr>m_subscriptions := AList.update ch [w_next w] (m_subscriptions (w_metas w mr)),
             m_pendingSubscriptions := AList.update ch (w_next w) (m_pendingSubscriptions (w_metas w mr))\<rparr>"
  have "sendCommand pick None ?cmd ?m = Some (?m\<lparr>m_cmdCh := [?cmd]\<rparr>, None)"
    using assms(3-5) by (simp add: sendCommand_def go_select_def cmdChCap_def)
  from register_first [of s w mr pick None ctx cmdName, unfolded ch, OF assms(1,2) this] show ?thesis by auto
qed

section \<open>Receiving, end to end\<close>

text \<open>The key under which the loop looks up a message, and the message it dispatches.\<close>

definition incoming :: "world \<Rightarrow> meta_ref \<Rightarrow> int \<Rightarrow> string \<times> string \<times> string \<Rightarrow> string \<times> Message" where
  "incoming w mr now rm = (case rm of (pattern, channel, payload) \<Rightarrow>
     if pattern \<noteq> [] then (pattern, redisMessage MessageTypePMessage subTypePSubscribe pattern channel payload now)
     else (channel, if getSubscriptions channel (w_metas w mr) \<noteq> []
          \<and> sub_subType (w_subs w (getSubscriptions channel (w_metas w mr) ! 0)) = subTypeSSubscribe
        then redisMessage MessageTypeSMessage subTypeSSubscribe [] channel payload now
        else redisMessage MessageTypeMessage subTypeSubscribe [] channel payload now))"

lemma process_incoming:
  "processResponse pick now mr (RMessage pattern channel payload) w =
     dispatchMessage pick now mr (fst (incoming w mr now (pattern, channel, payload)))
       (snd (incoming w mr now (pattern, channel, payload))) w"
  by (simp add: processResponse_def incoming_def handlePMessageFromPubSub_def handleSMessageFromPubSub_def
      handleMessageFromPubSub_def Let_def)

lemma dispatch_fold_limit:
  "delivery_ok w \<Longrightarrow> distinct subs \<Longrightarrow>
   s_maxQueueSize (sub_sequencer (w_subs (fold (dispatch_one pick now msg) subs w) r)) = s_maxQueueSize (sub_sequencer (w_subs w r))
   \<and> sub_subType (w_subs (fold (dispatch_one pick now msg) subs w) r) = sub_subType (w_subs w r)"
proof (induction subs arbitrary: w)
  case (Cons x subs)
  have "delivery_ok (dispatch_one pick now msg x w)" using dispatch_one_effect [OF Cons.prems(1)] by blast
  then show ?case using Cons.IH [of "dispatch_one pick now msg x w"] Cons.prems
    by (simp add: dispatch_one_def Let_def invoke_limit)
qed simp

text \<open>What a message changes and what it leaves alone.\<close>

lemma message_effect:
  assumes "delivery_ok w" and "\<And>key. distinct (getSubscriptions key (w_metas w mr))"
    and "(key, msg) = incoming w mr now (pattern, channel, payload)"
    and "w' = processResponse pick now mr (RMessage pattern channel payload) w"
  shows "delivery_ok w'" and "w_metas w' = w_metas w"
    and "sub_subType (w_subs w' r) = sub_subType (w_subs w r)" and "sub_state (w_subs w' r) = sub_state (w_subs w r)"
    and "s_maxQueueSize (sub_sequencer (w_subs w' r)) = s_maxQueueSize (sub_sequencer (w_subs w r))"
    and "queued w' r = queued w r @ (if r \<in> set (getSubscriptions key (w_metas w mr)) \<and> sub_live w r \<and> \<not> queue_full w r
       then [\<lparr>pc_msg = Some msg, pc_enqueuedAt = now\<rparr>] else [])"
proof -
  let ?v = "record_metric (MessageReceived (String_subType (msg_SubscriptionType msg)) (m_nodeAddr (w_metas w mr))) w"
  let ?subs = "getSubscriptions key (w_metas w mr)"
  have w': "w' = (if ?subs = [] then w else fold (dispatch_one pick now msg) ?subs ?v)"
    using assms(3) by (simp add: assms(4) process_incoming flip: assms(3)) (simp add: dispatchMessage_def Let_def)
  have v: "delivery_ok ?v" "w_subs ?v = w_subs w" "\<And>r. sub_live ?v r = sub_live w r" "\<And>r. queued ?v r = queued w r"
    "\<And>r. queue_full ?v r = queue_full w r"
    using assms(1) by (simp_all add: sub_live_def)
  note eff = dispatch_fold_effect [OF v(1) assms(2) [of key], where pick = pick and now = now and msg = msg and r = r]
    and lim = dispatch_fold_limit [OF v(1) assms(2) [of key], where pick = pick and now = now and msg = msg and r = r]
  show "delivery_ok w'" "w_metas w' = w_metas w"
    "sub_subType (w_subs w' r) = sub_subType (w_subs w r)" "sub_state (w_subs w' r) = sub_state (w_subs w r)"
    "s_maxQueueSize (sub_sequencer (w_subs w' r)) = s_maxQueueSize (sub_sequencer (w_subs w r))"
    "queued w' r = queued w r @ (if r \<in> set ?subs \<and> sub_live w r \<and> \<not> queue_full w r
       then [\<lparr>pc_msg = Some msg, pc_enqueuedAt = now\<rparr>] else [])"
    using eff lim assms(1) v by (auto simp: w')
qed

text \<open>A sequence of messages as events of the loop, the items that a subscription is to get of them, and that
  its queue has room for some more.\<close>

definition msg_events :: "(nat \<times> int \<times> string \<times> string \<times> string) list \<Rightarrow> (nat \<times> int \<times> loop_event) list" where
  "msg_events evs = map (\<lambda>(pick, now, pattern, channel, payload). (pick, now, MsgReady (RMessage pattern channel payload))) evs"

definition expected :: "world \<Rightarrow> meta_ref \<Rightarrow> sub_ref \<Rightarrow> (nat \<times> int \<times> string \<times> string \<times> string) list \<Rightarrow> pendingCallback list" where
  "expected w mr r evs = concat (map (\<lambda>(pick, now, rm).
     if r \<in> set (getSubscriptions (fst (incoming w mr now rm)) (w_metas w mr))
     then [\<lparr>pc_msg = Some (snd (incoming w mr now rm)), pc_enqueuedAt = now\<rparr>] else []) evs)"

definition has_room :: "world \<Rightarrow> sub_ref \<Rightarrow> nat \<Rightarrow> bool" where
  "has_room w r n \<longleftrightarrow> s_maxQueueSize (sub_sequencer (w_subs w r)) \<le> 0
     \<or> int (length (queued w r) + n) \<le> s_maxQueueSize (sub_sequencer (w_subs w r))"

lemma run_messages:
  "delivery_ok w \<Longrightarrow> (\<And>key. distinct (getSubscriptions key (w_metas w mr))) \<Longrightarrow> sub_live w r \<Longrightarrow>
   has_room w r (length (expected w mr r evs)) \<Longrightarrow>
   \<exists>w'. runEventLoop rd ps mr (msg_events evs) w = Some (w', False) \<and> delivery_ok w'
     \<and> queued w' r = queued w r @ expected w mr r evs"
proof (induction evs arbitrary: w)
  case Nil
  then show ?case by (simp add: msg_events_def expected_def)
next
  case (Cons ev evs)
  obtain pick now pattern channel payload where ev: "ev = (pick, now, pattern, channel, payload)" by (metis prod.collapse)
  obtain key msg where im: "(key, msg) = incoming w mr now (pattern, channel, payload)" by (metis prod.collapse)
  define v where "v = processResponse pick now mr (RMessage pattern channel payload) w"
  note eff = message_effect [OF Cons.prems(1,2) im v_def]
  let ?reg = "r \<in> set (getSubscriptions key (w_metas w mr))"
  have ty: "sub_subType (w_subs v x) = sub_subType (w_subs w x)" for x by (rule eff(3))
  have inc: "incoming v mr n rm = incoming w mr n rm" for n rm by (cases rm) (simp add: incoming_def eff(2) ty)
  have ex: "expected w mr r (ev # evs) = (if ?reg then [\<lparr>pc_msg = Some msg, pc_enqueuedAt = now\<rparr>] else []) @ expected v mr r evs"
    by (simp add: expected_def ev inc eff(2) flip: im cong: if_cong)
  have live: "sub_live v r" using Cons.prems(3) by (simp add: sub_live_def getState_def eff(4))
  have full: "?reg \<Longrightarrow> \<not> queue_full w r" using Cons.prems(4) ex by (auto simp: has_room_def queue_full_def full_def queued_def)
  have q: "queued v r = queued w r @ (if ?reg then [\<lparr>pc_msg = Some msg, pc_enqueuedAt = now\<rparr>] else [])"
    using eff(6) [of r] full Cons.prems(3) by auto
  have room: "has_room v r (length (expected v mr r evs))"
    using Cons.prems(4) unfolding has_room_def eff(5) q ex by (auto split: if_splits)
  have "\<And>key. distinct (getSubscriptions key (w_metas v mr))" using Cons.prems(2) by (simp add: eff(2))
  from Cons.IH [OF eff(1) this live room] obtain w' where
    "runEventLoop rd ps mr (msg_events evs) v = Some (w', False)" "delivery_ok w'" "queued w' r = queued v r @ expected v mr r evs"
    by blast
  then show ?case by (simp add: msg_events_def ev loop_iteration_def v_def [symmetric] q ex [unfolded ev])
qed

section \<open>Properties\<close>



text \<open>C8. Subscribing works end to end. For the first subscriber of a channel on an open connection with an idle
  event loop: the call registers the subscription and queues one command; the loop sends it and goes on;
  the confirmation that Redis sends then makes the subscription active and clears the pending entry; the
  waiting call gets a nil error and returns the subscription, which is registered on the connection.\<close>

theorem subscribe_confirmed_end_to_end:
  assumes "regs_inv (w_metas w mr)" and "getSubscriptions ch (w_metas w mr) = []"
    and "m_cmdCh (w_metas w mr) = []" and "m_loopDoneCloses (w_metas w mr) = 0" and "m_doneCloses (w_metas w mr) = 0"
    and "subscribeCommandName ty \<noteq> []" and "kind \<in> {redisKindSubscribe, redisKindPSubscribe, redisKindSSubscribe}"
  shows "\<exists>w1 w2 w3 s' w4.
    register_and_send pick ctx None (subscribeCommandName ty) mr (newSubscription ch ty (Some ps) cb hs limit) w
      = (w1, WaitConfirm (w_next w) mr)
    \<and> loop_iteration rd pick now mr (CmdReady None) w1 = Some (w2, False)
    \<and> processResponse pick now mr (RSubscription kind ch) w2 = w3
    \<and> waitForConfirmation pick None (w_subs w3 (w_next w)) = Some (s', None)
    \<and> finish_confirm (w_next w) mr None w3 = (w4, SubSucceeds (w_next w))
    \<and> sub_state (w_subs w4 (w_next w)) = subStateActive
    \<and> getSubscriptions ch (w_metas w4 mr) = [w_next w] \<and> getPendingSubscription ch (w_metas w4 mr) = None"
proof -
  let ?s = "newSubscription ch ty (Some ps) cb hs limit" and ?r = "w_next w"
  have np: "getPendingSubscription ch (w_metas w mr) = None"
    using regs_inv_no_pending [OF assms(1)] assms(2) by (simp add: getPendingSubscription_def getSubscriptions_def)
  from first_subscriber [OF np assms(2-5) refl, of pick ctx "subscribeCommandName ty"] obtain w1 where w1:
    "register_and_send pick ctx None (subscribeCommandName ty) mr ?s w = (w1, WaitConfirm ?r mr)"
    "w_subs w1 = (w_subs w)(?r := ?s)"
    "w_metas w1 mr = (w_metas w mr)\<lparr>m_subscriptions := AList.update ch [?r] (m_subscriptions (w_metas w mr)),
        m_pendingSubscriptions := AList.update ch ?r (m_pendingSubscriptions (w_metas w mr)),
        m_cmdCh := [\<lparr>c_ctx = ctx, c_cmd = subscribeCommandName ty, c_args = [ch], c_sub = Some ?r, c_response = Some (Suc ?r)\<rparr>]\<rparr>"
    by blast
  let ?cmd = "\<lparr>c_ctx = ctx, c_cmd = subscribeCommandName ty, c_args = [ch], c_sub = Some ?r, c_response = Some (Suc ?r)\<rparr>"
  let ?w2 = "respond ?cmd None (upd_meta mr (\<lambda>m. m\<lparr>m_cmdCh := []\<rparr>) w1)"
  let ?w3 = "upd_meta mr (removePendingSubscription ch) (upd_sub ?r (setState subStateActive None) ?w2)"
  have it: "loop_iteration rd pick now mr (CmdReady None) w1 = Some (?w2, False)"
    using known_subscribe [OF assms(6)] w1(3) by (subst take_command) (auto simp: handle_command_def sendRedisCommand_def)
  have pr: "processResponse pick now mr (RSubscription kind ch) ?w2 = ?w3"
    using assms(7) w1(3)
    by (auto simp: processResponse_def handleSubscriptionConfirmation_def getPendingSubscription_def update_conv')
  have s3: "w_subs ?w3 ?r = setState subStateActive None ?s" by (simp add: w1(2))
  have "sub_confirmCh (setState subStateActive None ?s) = Some [None]"
    by (simp add: newSubscription_def setState_def offer_def)
  then have wait: "waitForConfirmation pick None (w_subs ?w3 ?r) =
      Some ((setState subStateActive None ?s)\<lparr>sub_confirmCh := Some []\<rparr>, None)"
    unfolding s3 by (simp add: waitForConfirmation_def go_select_def)
  have fin: "finish_confirm ?r mr None ?w3 = (sub_success ?r ?w3, SubSucceeds ?r)"
    unfolding finish_confirm_def s3 getState_def by simp
  have "getSubscriptions ch (w_metas ?w3 mr) = [?r] \<and> getPendingSubscription ch (w_metas ?w3 mr) = None"
    by (simp add: w1(3) removePendingSubscription_def getSubscriptions_def getPendingSubscription_def slice_simps delete_conv')
  then show ?thesis using w1(1) it pr wait fin s3
    by (intro exI [of _ w1] exI [of _ ?w2] exI [of _ ?w3] exI conjI) (auto simp: sub_success_def)
qed

text \<open>A world with one idle connection.\<close>

definition world0 :: world where
  "world0 = world1\<lparr>w_metas := (\<lambda>_. newMetadata ''n:1''), w_subscriptions := []\<rparr>"

lemma world0_ok:
  "regs_inv (w_metas world0 2)" "getSubscriptions ''c'' (w_metas world0 2) = []" "m_cmdCh (w_metas world0 2) = []"
  "m_loopDoneCloses (w_metas world0 2) = 0" "m_doneCloses (w_metas world0 2) = 0"
  by (simp_all add: world0_def regs_inv_new) (simp_all add: newMetadata_def getSubscriptions_def)

theorem subscribe_confirmed_end_to_end_witness:
  "\<exists>w4 :: world. sub_state (w_subs w4 (w_next world0)) = subStateActive
    \<and> getSubscriptions ''c'' (w_metas w4 2) = [w_next world0]"
proof -
  have "subscribeCommandName subTypeSSubscribe \<noteq> []" by (simp add: subscribeCommandName_def cmdSSubscribe_def)
  from subscribe_confirmed_end_to_end [OF world0_ok this, of redisKindSSubscribe] show ?thesis by blast
qed

text \<open>A subscription whose command cannot be sent in time is reported and leaves nothing behind. If the
  command of the first subscriber fails with an error of its context (cancelled or past its deadline),
  the waiting call gets that error and returns one that wraps it, the subscription is registered nowhere
  on the connection, and the event loop goes on with the connection in its former state.\<close>

theorem subscribe_refused_end_to_end:
  assumes "regs_inv (w_metas w mr)" and "getSubscriptions ch (w_metas w mr) = []"
    and "m_cmdCh (w_metas w mr) = []" and "m_loopDoneCloses (w_metas w mr) = 0" and "m_doneCloses (w_metas w mr) = 0"
    and "subscribeCommandName ty \<noteq> []" and "errorsIs err ContextCanceled \<or> errorsIs err ContextDeadlineExceeded"
  shows "\<exists>w1 w2 s' e w4.
    register_and_send pick ctx None (subscribeCommandName ty) mr (newSubscription ch ty (Some ps) cb hs limit) w
      = (w1, WaitConfirm (w_next w) mr)
    \<and> loop_iteration rd pick now mr (CmdReady (Some err)) w1 = Some (w2, False)
    \<and> waitForConfirmation pick None (w_subs w2 (w_next w)) = Some (s', Some err)
    \<and> finish_confirm (w_next w) mr (Some err) w2 = (w4, SubFails e) \<and> errorsIs e err
    \<and> m_state (w_metas w4 mr) = m_state (w_metas w mr)
    \<and> getSubscriptions ch (w_metas w4 mr) = [] \<and> getPendingSubscription ch (w_metas w4 mr) = None"
proof -
  let ?s = "newSubscription ch ty (Some ps) cb hs limit" and ?r = "w_next w"
  have np: "getPendingSubscription ch (w_metas w mr) = None"
    using regs_inv_no_pending [OF assms(1)] assms(2) by (simp add: getPendingSubscription_def getSubscriptions_def)
  from first_subscriber [OF np assms(2-5) refl, of pick ctx "subscribeCommandName ty"] obtain w1 where w1:
    "register_and_send pick ctx None (subscribeCommandName ty) mr ?s w = (w1, WaitConfirm ?r mr)"
    "w_subs w1 = (w_subs w)(?r := ?s)"
    "w_metas w1 mr = (w_metas w mr)\<lparr>m_subscriptions := AList.update ch [?r] (m_subscriptions (w_metas w mr)),
        m_pendingSubscriptions := AList.update ch ?r (m_pendingSubscriptions (w_metas w mr)),
        m_cmdCh := [\<lparr>c_ctx = ctx, c_cmd = subscribeCommandName ty, c_args = [ch], c_sub = Some ?r, c_response = Some (Suc ?r)\<rparr>]\<rparr>"
    by blast
  let ?cmd = "\<lparr>c_ctx = ctx, c_cmd = subscribeCommandName ty, c_args = [ch], c_sub = Some ?r, c_response = Some (Suc ?r)\<rparr>"
  let ?v = "checkAndHandleRedirect rd err (upd_meta mr (\<lambda>m. m\<lparr>m_cmdCh := []\<rparr>) w1)"
  let ?w2 = "respond ?cmd (Some err) (upd_sub ?r (setState subStateFailed (Some err))
      (upd_meta mr (removePendingSubscription ch) ?v))"
  have ch: "sub_channel ?s = ch" by (simp add: newSubscription_def)
  have it: "loop_iteration rd pick now mr (CmdReady (Some err)) w1 = Some (?w2, False)"
    using known_subscribe [OF assms(6)] w1(2,3) assms(7) ch
    by (subst take_command) (auto simp: handle_command_def sendRedisCommand_def Let_def)
  have s2: "w_subs ?w2 ?r = setState subStateFailed (Some err) ?s" by (simp add: w1(2))
  have "sub_confirmCh (setState subStateFailed (Some err) ?s) = Some [Some err]"
    by (simp add: newSubscription_def setState_def offer_def)
  then have wait: "waitForConfirmation pick None (w_subs ?w2 ?r) =
      Some ((setState subStateFailed (Some err) ?s)\<lparr>sub_confirmCh := Some []\<rparr>, Some err)"
    unfolding s2 by (simp add: waitForConfirmation_def go_select_def)
  have fin: "finish_confirm ?r mr (Some err) ?w2 =
      (sub_cleanup ?r mr ?w2, SubFails (Wrapf ''subscription confirmation failed: '' err))"
    by (simp add: finish_confirm_def)
  have m4: "w_metas (sub_cleanup ?r mr ?w2) mr = removeSubscription ch ?r (w_metas ?w2 mr)"
    by (simp add: sub_cleanup_def removeSubscriptionFromMap_def w1(2) ch Let_def)
  have m2: "w_metas ?w2 mr = removePendingSubscription ch ((w_metas w1 mr)\<lparr>m_cmdCh := []\<rparr>)" by simp
  have "getSubscriptions ch (w_metas (sub_cleanup ?r mr ?w2) mr) = []"
    unfolding m4 m2 by (simp add: getSubscriptions_def removeSubscription_subs removePendingSubscription_def w1(3) slice_simps)
  moreover have "getPendingSubscription ch (w_metas (sub_cleanup ?r mr ?w2) mr) = None"
    unfolding m4 m2
    by (simp add: getPendingSubscription_def removeSubscription_def removePendingSubscription_def w1(3) delete_conv' Let_def
        split: option.split)
  moreover have "m_state (w_metas (sub_cleanup ?r mr ?w2) mr) = m_state (w_metas w mr)"
    unfolding m4 m2 by (simp add: removePendingSubscription_def w1(3))
  ultimately show ?thesis using w1(1) it wait fin
    by (intro exI [of _ w1] exI [of _ ?w2] exI conjI) auto
qed

theorem subscribe_refused_end_to_end_witness:
  "\<exists>w4 :: world. getSubscriptions ''c'' (w_metas w4 2) = [] \<and> m_state (w_metas w4 2) = m_state (w_metas world0 2)"
proof -
  have "subscribeCommandName subTypeSSubscribe \<noteq> []" by (simp add: subscribeCommandName_def cmdSSubscribe_def)
  moreover have "errorsIs ContextCanceled ContextCanceled \<or> errorsIs ContextCanceled ContextDeadlineExceeded" by simp
  ultimately show ?thesis using subscribe_refused_end_to_end [OF world0_ok] by blast
qed

end
